(* ===== verification/Bridge_Prelude.thy ===== *)
theory Bridge_Prelude
  imports Main "HOL-Library.Word"
begin

unbundle bit_operations_syntax

section \<open>Shared types, byte codecs and automation\<close>

text \<open>
  What every component theory shares: the fixed-width integer types of the C code, the
  little-endian readers and writers the wire and flash formats use, generic facts on words
  and lists, and the \<open>named_theorems\<close> collections that the component proofs hand to
  \<open>simp\<close>.
  A C array of fixed length that is written by index is a function on \<^typ>\<open>nat\<close>; a
  buffer that is only read is a list together with the length argument the C code passes,
  so that a theorem can say that no byte beyond that length is looked at.
\<close>

type_synonym u8 = "8 word"
type_synonym u16 = "16 word"
type_synonym u32 = "32 word"
type_synonym u64 = "64 word"
type_synonym bytes = "u8 list"

named_theorems consts_def \<open>the numeric constants of the headers\<close>
named_theorems word_nat \<open>word expressions of the code read as natural numbers\<close>

subsection \<open>Words as natural numbers\<close>

lemma u8_lt [simp]: "unat (b :: u8) < 256"
  using unsigned_less [of b, where ?'a = nat] by simp

lemma u8_le [simp]: "unat (b :: u8) \<le> 255"
  using u8_lt [of b] by linarith

lemma u16_lt: "unat (b :: u16) < 65536"
  using unsigned_less [of b, where ?'a = nat] by simp

lemma u32_lt: "unat (b :: u32) < 4294967296"
  using unsigned_less [of b, where ?'a = nat] by simp

lemma unat_u8_to_u32 [simp]: "unat (ucast (b :: u8) :: u32) = unat b"
  by (simp add: unsigned_ucast_eq take_bit_nat_eq_self less_trans [OF u8_lt])

lemma unat_u8_to_u16 [simp]: "unat (ucast (b :: u8) :: u16) = unat b"
  by (simp add: unsigned_ucast_eq take_bit_nat_eq_self less_trans [OF u8_lt])

lemma or_eq_add_nat:
  fixes x y n :: nat
  assumes "y < 2 ^ n"
  shows "push_bit n x OR y = x * 2 ^ n + y"
proof -
  have "take_bit n y = y" using assms by (simp add: take_bit_nat_eq_self)
  then have "\<not> bit y m" if "n \<le> m" for m
    using that bit_take_bit_iff [of n y m] by simp
  then have "push_bit n x AND y = 0"
    by (intro bit_eqI) (auto simp: bit_and_iff bit_push_bit_iff)
  then show ?thesis by (metis disjunctive_add_eq_or push_bit_eq_mult)
qed

lemma unat_push_or:
  fixes x y :: u32
  assumes "unat y < 2 ^ n" and "unat x * 2 ^ n < 2 ^ 32"
  shows "unat (push_bit n x OR y) = unat x * 2 ^ n + unat y"
proof -
  have "unat (push_bit n x) = push_bit n (unat x)"
    using assms(2)
    by (simp only: unsigned_push_bit_eq) (simp add: take_bit_nat_eq_self push_bit_eq_mult)
  then show ?thesis
    using or_eq_add_nat [OF assms(1), of "unat x"] by (simp add: unsigned_or_eq)
qed

lemma all_nat_less_2: "(\<forall>i<2. P i) \<longleftrightarrow> P 0 \<and> P (1::nat)"
  by (simp add: numeral_2_eq_2 All_less_Suc) auto

lemma all_nat_less_3: "(\<forall>i<3. P i) \<longleftrightarrow> P 0 \<and> P 1 \<and> P (2::nat)"
  by (simp add: numeral_3_eq_3 numeral_2_eq_2 All_less_Suc) auto

lemma all_nat_less_8:
  "(\<forall>n<8. P n) \<longleftrightarrow> P 0 \<and> P 1 \<and> P 2 \<and> P 3 \<and> P 4 \<and> P 5 \<and> P 6 \<and> P (7::nat)"
  by (simp add: numeral_eq_Suc All_less_Suc) auto

text \<open>Two bytes are equal when their eight bits are: the form \<open>simp\<close> can decide.\<close>

lemma u8_eq_bits:
  "(x::u8) = y \<longleftrightarrow> bit x 0 = bit y 0 \<and> bit x 1 = bit y 1 \<and> bit x 2 = bit y 2 \<and>
     bit x 3 = bit y 3 \<and> bit x 4 = bit y 4 \<and> bit x 5 = bit y 5 \<and> bit x 6 = bit y 6 \<and>
     bit x 7 = bit y 7"
proof -
  have "x = y \<longleftrightarrow> (\<forall>n<8. bit x n = bit y n)" by (auto intro: bit_word_eqI)
  then show ?thesis unfolding all_nat_less_8 .
qed

lemma unat_low_bits:
  fixes b :: u8
  shows "unat (b AND 0x3f) = unat b mod 64" and "unat (b AND 0x1f) = unat b mod 32"
    and "unat (b AND 0x0f) = unat b mod 16" and "unat (b AND 0x07) = unat b mod 8"
proof -
  have m: "unat (b AND mask n) = unat b mod 2 ^ n" for n
  proof -
    have "unat (take_bit n b) = take_bit n (unat b)" by (rule unsigned_take_bit_eq)
    then show ?thesis by (simp only: take_bit_eq_mask take_bit_eq_mod) (simp add: take_bit_eq_mod flip: take_bit_eq_mask)
  qed
  show "unat (b AND 0x3f) = unat b mod 64" using m [of 6] by (simp add: mask_eq_exp_minus_1)
  show "unat (b AND 0x1f) = unat b mod 32" using m [of 5] by (simp add: mask_eq_exp_minus_1)
  show "unat (b AND 0x0f) = unat b mod 16" using m [of 4] by (simp add: mask_eq_exp_minus_1)
  show "unat (b AND 0x07) = unat b mod 8" using m [of 3] by (simp add: mask_eq_exp_minus_1)
qed

lemma u8_top_two_bits: "(b AND 0xc0 = (0x80::u8)) = (unat b div 64 = 2)"
proof -
  have "(b AND 0xc0 = 0x80) = (drop_bit 6 b = 2)"
    by (auto simp: u8_eq_bits bit_and_iff bit_drop_bit_eq dest: bit_imp_le_length)
  also have "\<dots> = (unat (drop_bit 6 b) = unat (2::u8))" by (simp only: word_unat_eq_iff)
  also have "unat (drop_bit 6 b) = unat b div 64"
    using unat_drop_bit_eq [of 6 b] by (simp add: drop_bit_eq_div)
  finally show ?thesis by simp
qed

declare unat_low_bits [word_nat] u8_top_two_bits [word_nat]

subsection \<open>Index ranges\<close>

text \<open>The counted loops of the code run over \<open>i, \<dots>, i + n - 1\<close>; these split off the first index.\<close>

lemma range_all_0 [simp]: "(\<forall>j. i \<le> j \<and> j < i \<longrightarrow> P j) \<longleftrightarrow> True" for i :: nat
  by auto

lemma range_all_Suc:
  "(\<forall>j. i \<le> j \<and> j < i + Suc n \<longrightarrow> P j) \<longleftrightarrow> P i \<and> (\<forall>j. Suc i \<le> j \<and> j < Suc i + n \<longrightarrow> P j)"
proof -
  have p: "(i \<le> j \<and> j < i + Suc n) \<longleftrightarrow> j = i \<or> (Suc i \<le> j \<and> j < Suc i + n)" for j by auto
  show ?thesis unfolding p by blast
qed

lemma range_ex_Suc:
  "(\<exists>j. i \<le> j \<and> j < i + Suc n \<and> P j) \<longleftrightarrow> P i \<or> (\<exists>j. Suc i \<le> j \<and> j < Suc i + n \<and> P j)"
proof -
  have q: "(i \<le> j \<and> j < i + Suc n) \<longleftrightarrow> j = i \<or> (Suc i \<le> j \<and> j < Suc i + n)" for j by auto
  have p: "(i \<le> j \<and> j < i + Suc n \<and> P j) \<longleftrightarrow> (j = i \<and> P i) \<or> (Suc i \<le> j \<and> j < Suc i + n \<and> P j)" for j
    using q [of j] by blast
  show ?thesis unfolding p by blast
qed

subsection \<open>Little-endian fields\<close>

definition le32_bytes :: "u32 \<Rightarrow> bytes" where
  "le32_bytes w = [ucast w, ucast (drop_bit 8 w), ucast (drop_bit 16 w), ucast (drop_bit 24 w)]"

definition le16_bytes :: "u16 \<Rightarrow> bytes" where
  "le16_bytes w = [ucast w, ucast (drop_bit 8 w)]"

definition le32_at :: "bytes \<Rightarrow> nat \<Rightarrow> u32" where
  "le32_at xs i = ucast (xs ! i) OR push_bit 8 (ucast (xs ! (i + 1))) OR
     push_bit 16 (ucast (xs ! (i + 2))) OR push_bit 24 (ucast (xs ! (i + 3)))"

definition le16_at :: "bytes \<Rightarrow> nat \<Rightarrow> u16" where
  "le16_at xs i = ucast (xs ! i) OR push_bit 8 (ucast (xs ! (i + 1)))"

lemma length_le_bytes [simp]: "length (le32_bytes w) = 4" "length (le16_bytes v) = 2"
  by (simp_all add: le32_bytes_def le16_bytes_def)

definition le64_bytes :: "u64 \<Rightarrow> bytes" where
  "le64_bytes v = map (\<lambda>i. ucast (drop_bit (8 * i) v)) [0..<8]"

lemma length_le64_bytes [simp]: "length (le64_bytes v) = 8"
  by (simp add: le64_bytes_def)

lemma u32_bit_cases: "n < 32 \<Longrightarrow> n < 8 \<or> (8 \<le> n \<and> n < 16) \<or> (16 \<le> n \<and> n < 24) \<or> (24 \<le> n \<and> n < (32::nat))"
  by linarith

lemma le32_join: "(ucast (ucast w :: u8) OR push_bit 8 (ucast (ucast (drop_bit 8 w) :: u8)) OR
    push_bit 16 (ucast (ucast (drop_bit 16 w) :: u8)) OR push_bit 24 (ucast (ucast (drop_bit 24 w) :: u8))) = (w :: u32)"
proof (rule bit_word_eqI)
  fix n assume "n < LENGTH(32)"
  then have n: "n < 32" by simp
  from u32_bit_cases [OF n] show "bit (ucast (ucast w :: u8) OR push_bit 8 (ucast (ucast (drop_bit 8 w) :: u8)) OR
    push_bit 16 (ucast (ucast (drop_bit 16 w) :: u8)) OR push_bit 24 (ucast (ucast (drop_bit 24 w) :: u8)) :: u32) n = bit w n"
    by (elim disjE) (auto simp: bit_or_iff bit_push_bit_iff bit_ucast_iff bit_drop_bit_eq)
qed

lemma le16_join: "(ucast (ucast w :: u8) OR push_bit 8 (ucast (ucast (drop_bit 8 w) :: u8))) = (w :: u16)"
proof (rule bit_word_eqI)
  fix n assume "n < LENGTH(16)"
  then have "n < 8 \<or> (8 \<le> n \<and> n < 16)" by auto
  then show "bit (ucast (ucast w :: u8) OR push_bit 8 (ucast (ucast (drop_bit 8 w) :: u8)) :: u16) n = bit w n"
    by (elim disjE) (auto simp: bit_or_iff bit_push_bit_iff bit_ucast_iff bit_drop_bit_eq)
qed

lemma le32_at_bytes: "length xs = i \<Longrightarrow> le32_at (xs @ le32_bytes w @ ys) i = w"
  by (simp add: le32_at_def le32_bytes_def nth_append le32_join)

lemma le16_at_bytes: "length xs = i \<Longrightarrow> le16_at (xs @ le16_bytes w @ ys) i = w"
  by (simp add: le16_at_def le16_bytes_def nth_append le16_join)

text \<open>Reading a field back as bytes: the fields determine the bytes they were read from.\<close>

lemma le32_at_inject:
  assumes "le32_at xs i = le32_at ys i" and "k < 4"
  shows "xs ! (i + k) = ys ! (i + k)"
proof -
  have b: "bit (le32_at zs i) (8 * k + n) = bit (zs ! (i + k)) n" if n: "n < 8" for zs n
  proof -
    have "k = 0 \<or> k = 1 \<or> k = 2 \<or> k = 3" using assms(2) by linarith
    then show ?thesis using n
      by (elim disjE) (auto simp: le32_at_def bit_or_iff bit_push_bit_iff bit_ucast_iff dest: bit_imp_le_length)
  qed
  show ?thesis by (rule bit_word_eqI) (use b [of _ xs] b [of _ ys] assms(1) in simp)
qed

lemma le32_at_nth: "k < 4 \<Longrightarrow> xs ! (i + k) = le32_bytes (le32_at xs i) ! k"
proof -
  assume k: "k < 4"
  let ?ys = "replicate i 0 @ le32_bytes (le32_at xs i) @ []"
  have "le32_at xs i = le32_at ?ys i" by (rule le32_at_bytes [symmetric]) simp
  from le32_at_inject [OF this k] show ?thesis using k by (simp add: nth_append)
qed

subsection \<open>Big-endian fields and copies into arrays\<close>

definition be32_bytes :: "u32 \<Rightarrow> bytes" where
  "be32_bytes w = rev (le32_bytes w)"

definition be32_at :: "bytes \<Rightarrow> nat \<Rightarrow> u32" where
  "be32_at xs i = push_bit 24 (ucast (xs ! i)) OR push_bit 16 (ucast (xs ! (i + 1))) OR
     push_bit 8 (ucast (xs ! (i + 2))) OR ucast (xs ! (i + 3))"

lemma length_be32 [simp]: "length (be32_bytes w) = 4"
  by (simp add: be32_bytes_def)

lemma be32_at_le32: "be32_at [a, b, c, d] 0 = le32_at [d, c, b, a] 0"
  by (simp add: be32_at_def le32_at_def or.left_commute or.commute)

lemma be32_at_bytes: "be32_at (be32_bytes w @ ys) 0 = w"
  by (simp add: be32_at_def be32_bytes_def le32_bytes_def)
    (use le32_join [of w] in \<open>simp add: or.left_commute or.commute\<close>)

lemma be32_at_cong: "take 4 xs = take 4 ys \<Longrightarrow> be32_at xs 0 = be32_at ys 0"
proof -
  assume t: "take 4 xs = take 4 ys"
  have "xs ! i = ys ! i" if "i < 4" for i
    using nth_take [OF that, of xs] nth_take [OF that, of ys] t by simp
  from this [of 0] this [of 1] this [of 2] this [of 3] show ?thesis by (simp add: be32_at_def numeral_2_eq_2)
qed

text \<open>\<open>memcpy\<close> into an array at an index.\<close>

definition memcpy_at :: "bytes \<Rightarrow> nat \<Rightarrow> bytes \<Rightarrow> bytes" where
  "memcpy_at buf i data = take i buf @ data @ drop (i + length data) buf"

lemma length_memcpy: "i + length data \<le> length buf \<Longrightarrow> length (memcpy_at buf i data) = length buf"
  by (simp add: memcpy_at_def)

lemma take_memcpy: "i + length data \<le> length buf \<Longrightarrow> take (i + length data) (memcpy_at buf i data) = take i buf @ data"
  by (simp add: memcpy_at_def)

text \<open>The characters of a C string: what stands before its terminating zero.\<close>

definition c_string :: "bytes \<Rightarrow> bytes" where
  "c_string s = takeWhile (\<lambda>b. b \<noteq> 0) s"

subsection \<open>Deadlines\<close>

text \<open>\<open>(int32_t)(now - deadline) < 0\<close> on 32-bit millisecond counters: correct while the two are less than \<open>2^31\<close> apart.\<close>

lemma signed_negative: "(x :: u32) <s 0 \<longleftrightarrow> 0x80000000 \<le> unat x"
proof -
  have l: "unat x < 2 ^ 32" using unsigned_less [of x, where ?'a = nat] by simp
  have "x <s 0 \<longleftrightarrow> bit x 31"
    by (simp add: word_sless_alt sint_uint not_le bit_unsigned_iff)
  also have "\<dots> \<longleftrightarrow> bit (unat x) 31" by (simp add: bit_unsigned_iff)
  also have "\<dots> \<longleftrightarrow> odd (unat x div 2 ^ 31)" by (rule bit_iff_odd)
  also have "\<dots> \<longleftrightarrow> 2 ^ 31 \<le> unat x"
  proof (cases "2 ^ 31 \<le> unat x")
    case True
    then have "unat x div 2 ^ 31 = 1" using l by (intro div_nat_eqI) simp_all
    then show ?thesis using True by simp
  qed simp
  finally show ?thesis by simp
qed
lemma after_deadline:
  fixes d :: u32
  shows "d < k \<Longrightarrow> k < 0x80000000 \<Longrightarrow> d - k <s 0"
  and "k \<le> d \<Longrightarrow> unat d < 0x80000000 + unat k \<Longrightarrow> \<not> d - k <s 0"
proof -
  show "d - k <s 0" if a: "d < k" "k < 0x80000000"
  proof -
    have "unat (d - k) = 2 ^ 32 + unat d - unat k" using a by (simp add: unat_sub_if' word_less_nat_alt not_le)
    then show ?thesis using a by (simp add: signed_negative word_less_nat_alt)
  qed
  show "\<not> d - k <s 0" if a: "k \<le> d" "unat d < 0x80000000 + unat k"
  proof -
    have "unat (d - k) = unat d - unat k" using a by (simp add: unat_sub word_le_nat_alt)
    then show ?thesis using a by (simp add: signed_negative)
  qed
qed

subsection \<open>Machines and their invariants\<close>

text \<open>
  Every stateful component is a machine: an operation maps a state to a result and the next
  state. \<open>run_ops\<close> is what its callers can do with it, any sequence of operations.
\<close>

fun run_ops :: "('op \<Rightarrow> 's \<Rightarrow> 'r \<times> 's) \<Rightarrow> 'op list \<Rightarrow> 's \<Rightarrow> 'r list \<times> 's" where
  "run_ops step [] s = ([], s)"
| "run_ops step (x # xs) s =
     (case step x s of (r, t) \<Rightarrow> case run_ops step xs t of (rs, u) \<Rightarrow> (r # rs, u))"

lemma run_ops_Cons [simp]:
  "run_ops step (x # xs) s =
     (fst (step x s) # fst (run_ops step xs (snd (step x s))), snd (run_ops step xs (snd (step x s))))"
  by (simp split: prod.split)

declare run_ops.simps(2) [simp del]

lemma run_ops_append:
  "run_ops step (xs @ ys) s =
     (fst (run_ops step xs s) @ fst (run_ops step ys (snd (run_ops step xs s))),
      snd (run_ops step ys (snd (run_ops step xs s))))"
  by (induction xs arbitrary: s) simp_all

lemma run_ops_length [simp]: "length (fst (run_ops step xs s)) = length xs"
  by (induction xs arbitrary: s) simp_all

text \<open>
  The contract of a component with an invariant: no operation breaks it. Its clients may then
  call the operations in any order.
\<close>

locale guarded_machine =
  fixes step :: "'op \<Rightarrow> 's \<Rightarrow> 'r \<times> 's" and inv :: "'s \<Rightarrow> bool"
  assumes step_keeps: "inv s \<Longrightarrow> inv (snd (step x s))"
begin

lemma run_keeps: "inv s \<Longrightarrow> inv (snd (run_ops step xs s))"
proof (induction xs arbitrary: s)
  case (Cons x xs)
  then have "inv (snd (run_ops step xs (snd (step x s))))" using step_keeps by blast
  then show ?case by simp
qed simp

text \<open>Under the invariant a property of single results holds for all results of a run.\<close>

lemma run_results:
  assumes "\<And>x s. inv s \<Longrightarrow> good x (fst (step x s))" and "inv s"
  shows "list_all2 good xs (fst (run_ops step xs s))"
  using assms(2)
proof (induction xs arbitrary: s)
  case (Cons x xs)
  then have "list_all2 good xs (fst (run_ops step xs (snd (step x s))))" using step_keeps by blast
  then show ?case using assms(1) [OF Cons.prems, of x]
    by simp
qed simp

end

text \<open>
  A machine that implements an abstract one: the same results, and the abstraction of the
  next state is the next abstract state.
\<close>

locale refined_machine = guarded_machine step inv
  for step :: "'op \<Rightarrow> 's \<Rightarrow> 'r \<times> 's" and inv :: "'s \<Rightarrow> bool" +
  fixes spec_step :: "'op \<Rightarrow> 'a \<Rightarrow> 'r \<times> 'a" and abs_state :: "'s \<Rightarrow> 'a"
  assumes step_refines: "inv s \<Longrightarrow>
    spec_step x (abs_state s) = (fst (step x s), abs_state (snd (step x s)))"
begin

lemma run_refines:
  "inv s \<Longrightarrow> run_ops spec_step xs (abs_state s) =
     (fst (run_ops step xs s), abs_state (snd (run_ops step xs s)))"
proof (induction xs arbitrary: s)
  case (Cons x xs)
  then show ?case
    using Cons.IH [OF step_keeps [OF Cons.prems, of x]] step_refines [OF Cons.prems, of x]
    by simp
qed simp

end

subsection \<open>Record codecs\<close>

text \<open>
  What the flash formats promise. A record is written with its encoder and read back from the
  start of a buffer that holds more; the decoder yields sound values only.
\<close>

locale record_codec =
  fixes enc :: "'a \<Rightarrow> bytes" and dec :: "bytes \<Rightarrow> 'a option" and ok :: "'a \<Rightarrow> bool"
  assumes dec_enc: "ok x \<Longrightarrow> dec (enc x @ pad) = Some x"
    and dec_ok: "dec b = Some x \<Longrightarrow> ok x"
begin

lemma enc_inject: "ok x \<Longrightarrow> ok y \<Longrightarrow> enc x @ p = enc y @ q \<Longrightarrow> x = y"
  using dec_enc [of x p] dec_enc [of y q] by simp

text \<open>Rewriting what was read gives the same value again.\<close>

lemma rewrite_stable: "dec b = Some x \<Longrightarrow> dec (enc x @ pad) = Some x"
  by (rule dec_enc [OF dec_ok])

end

text \<open>A codec whose records are sealed by a checksum: a change of any one byte is noticed.\<close>

locale sealed_codec = record_codec +
  assumes tampered: "ok x \<Longrightarrow> i < length (enc x) \<Longrightarrow> c \<noteq> enc x ! i \<Longrightarrow> dec ((enc x @ pad)[i := c]) = None"
begin

lemma one_byte_change:
  assumes "ok x" and "i < length (enc x)"
  shows "dec ((enc x @ pad)[i := c]) = (if c = enc x ! i then Some x else None)"
proof (cases "c = enc x ! i")
  case True
  then have "(enc x @ pad)[i := c] = enc x @ pad" using assms(2) by (simp add: list_update_append)
  then show ?thesis using True dec_enc [OF assms(1)] by simp
next
  case False
  then show ?thesis using tampered [OF assms] by simp
qed

end

subsection \<open>Rosters\<close>

text \<open>
  The contract of a store of enrolled keys, as its clients (the handshake and the command
  handlers) use it: lookups after an enrolment and after a revocation, both reserved to
  administrators, and a root entry that stays.
\<close>

locale roster =
  fixes inv :: "'s \<Rightarrow> bool" and admin :: "'s \<Rightarrow> nat \<Rightarrow> bool" and valid :: "'k \<Rightarrow> bool"
    and lookup :: "'s \<Rightarrow> 'k \<Rightarrow> (nat \<times> 'r) option"
    and enrol :: "'s \<Rightarrow> nat \<Rightarrow> 'k \<Rightarrow> 'r \<Rightarrow> ('s \<times> nat) option"
    and revoke :: "'s \<Rightarrow> nat \<Rightarrow> nat \<Rightarrow> 's option" and root :: 'r
  assumes enrol_inv: "inv s \<Longrightarrow> valid k \<Longrightarrow> enrol s c k r = Some (t, i) \<Longrightarrow> inv t"
    and revoke_inv: "inv s \<Longrightarrow> revoke s c i = Some t \<Longrightarrow> inv t"
    and enrol_admin: "enrol s c k r = Some (t, i) \<Longrightarrow> admin s c"
    and revoke_admin: "revoke s c i = Some t \<Longrightarrow> admin s c"
    and slot_one_key: "inv s \<Longrightarrow> valid k \<Longrightarrow> valid k' \<Longrightarrow> lookup s k = Some (i, r) \<Longrightarrow>
      lookup s k' = Some (i, r') \<Longrightarrow> k' = k"
    and enrol_new: "inv s \<Longrightarrow> valid k \<Longrightarrow> enrol s c k r = Some (t, i) \<Longrightarrow>
      lookup s k = None \<and> (\<forall>k' r'. valid k' \<longrightarrow> lookup s k' \<noteq> Some (i, r'))"
    and lookup_enrol: "inv s \<Longrightarrow> valid k \<Longrightarrow> valid k' \<Longrightarrow> enrol s c k r = Some (t, i) \<Longrightarrow>
      lookup t k' = (if k' = k then Some (i, r) else lookup s k')"
    and lookup_revoke: "inv s \<Longrightarrow> valid k \<Longrightarrow> revoke s c i = Some t \<Longrightarrow>
      lookup t k = (case lookup s k of None \<Rightarrow> None | Some (j, r) \<Rightarrow> if j = i then None else Some (j, r))"
    and root_kept: "inv s \<Longrightarrow> revoke s c 0 = None"
begin

lemma revoked_is_unknown:
  "inv s \<Longrightarrow> valid k \<Longrightarrow> lookup s k = Some (i, r) \<Longrightarrow> revoke s c i = Some t \<Longrightarrow> lookup t k = None"
  by (simp add: lookup_revoke)

lemma others_survive_revoke:
  "inv s \<Longrightarrow> valid k \<Longrightarrow> lookup s k = Some (j, r) \<Longrightarrow> j \<noteq> i \<Longrightarrow> revoke s c i = Some t \<Longrightarrow>
     lookup t k = Some (j, r)"
  by (simp add: lookup_revoke)

lemma enrol_then_revoke:
  assumes "inv s" and "valid k" and "valid k'" and "enrol s c k r = Some (t, i)"
    and "revoke t d i = Some u"
  shows "lookup u k' = lookup s k'"
proof -
  have t: "inv t" by (rule enrol_inv [OF assms(1,2,4)])
  show ?thesis
    using lookup_revoke [OF t assms(3,5)] lookup_enrol [OF assms(1,2,3,4)] enrol_new [OF assms(1,2,4)] assms(3)
    by (auto split: option.splits)
qed

lemma root_entry_stays:
  assumes "inv s" and "valid k" and "lookup s k = Some (0, r)"
  shows "valid k' \<Longrightarrow> enrol s c k' r' = Some (t, i) \<Longrightarrow> lookup t k = Some (0, r)"
    and "revoke s c i = Some t \<Longrightarrow> lookup t k = Some (0, r)"
proof -
  show "lookup t k = Some (0, r)" if "valid k'" "enrol s c k' r' = Some (t, i)"
    using lookup_enrol [OF assms(1) that(1) assms(2) that(2)] enrol_new [OF assms(1) that] assms(3) by auto
  show "lookup t k = Some (0, r)" if "revoke s c i = Some t"
    using others_survive_revoke [OF assms] that root_kept [OF assms(1), of c] by (cases i) auto
qed

end

end
