(* ===== verification/Bridge_Types.thy ===== *)
theory Bridge_Types
  imports Bridge_Prelude
begin

section \<open>Types and constants of the bridge core (firmware/core/bridge_core.h)\<close>

text \<open>
  The enumerations and limits of \<open>bridge_core.h\<close>. The status and state enumerations
  are datatypes with the source's constructors. The layout and mode arguments are C enums,
  that is integers: a caller can pass any value and a wiped job holds 0 in both fields, so
  they stay 32-bit words with the two named values as constants.
\<close>

datatype bridge_status =
    BRIDGE_OK | BRIDGE_DONE | BRIDGE_ERR_ARGUMENT | BRIDGE_ERR_STATE | BRIDGE_ERR_BUSY
  | BRIDGE_ERR_LIMIT | BRIDGE_ERR_UTF8 | BRIDGE_ERR_UNSUPPORTED | BRIDGE_ERR_POLICY
  | BRIDGE_ERR_OWNER | BRIDGE_ERR_ID | BRIDGE_ERR_EXPIRED | BRIDGE_ERR_REPLAY

datatype bridge_state =
    BRIDGE_STATE_EMPTY | BRIDGE_STATE_STAGED | BRIDGE_STATE_EXECUTING
  | BRIDGE_STATE_COMPLETED | BRIDGE_STATE_CANCELLED | BRIDGE_STATE_EXPIRED
  | BRIDGE_STATE_REJECTED

text \<open>The status byte a receipt carries: the C cast \<open>(uint8_t)status\<close>.\<close>

primrec status_code :: "bridge_status \<Rightarrow> u8" where
  "status_code BRIDGE_OK = 0"
| "status_code BRIDGE_DONE = 1"
| "status_code BRIDGE_ERR_ARGUMENT = 2"
| "status_code BRIDGE_ERR_STATE = 3"
| "status_code BRIDGE_ERR_BUSY = 4"
| "status_code BRIDGE_ERR_LIMIT = 5"
| "status_code BRIDGE_ERR_UTF8 = 6"
| "status_code BRIDGE_ERR_UNSUPPORTED = 7"
| "status_code BRIDGE_ERR_POLICY = 8"
| "status_code BRIDGE_ERR_OWNER = 9"
| "status_code BRIDGE_ERR_ID = 10"
| "status_code BRIDGE_ERR_EXPIRED = 11"
| "status_code BRIDGE_ERR_REPLAY = 12"

definition BRIDGE_MAX_INPUT_BYTES :: nat where
  [consts_def]: "BRIDGE_MAX_INPUT_BYTES = 1024"
definition BRIDGE_MAX_STROKES :: nat where
  [consts_def]: "BRIDGE_MAX_STROKES = 2 * BRIDGE_MAX_INPUT_BYTES"
definition BRIDGE_MAX_TTL_MS :: u32 where
  [consts_def]: "BRIDGE_MAX_TTL_MS = 15000"
definition BRIDGE_REPLAY_CAPACITY :: nat where
  [consts_def]: "BRIDGE_REPLAY_CAPACITY = 64"
definition BRIDGE_FLAG_ALLOW_LF :: u8 where
  [consts_def]: "BRIDGE_FLAG_ALLOW_LF = 0x01"
definition BRIDGE_FLAG_ALLOW_TAB :: u8 where
  [consts_def]: "BRIDGE_FLAG_ALLOW_TAB = 0x02"
definition BRIDGE_MOD_LEFT_SHIFT :: u8 where
  [consts_def]: "BRIDGE_MOD_LEFT_SHIFT = 0x02"
definition BRIDGE_MOD_RIGHT_ALT :: u8 where
  [consts_def]: "BRIDGE_MOD_RIGHT_ALT = 0x40"
definition BRIDGE_LAYOUT_US :: u32 where
  [consts_def]: "BRIDGE_LAYOUT_US = 1"
definition BRIDGE_LAYOUT_DE :: u32 where
  [consts_def]: "BRIDGE_LAYOUT_DE = 2"
definition BRIDGE_MODE_PASSWORD :: u32 where
  [consts_def]: "BRIDGE_MODE_PASSWORD = 1"
definition BRIDGE_MODE_TEXT :: u32 where
  [consts_def]: "BRIDGE_MODE_TEXT = 2"

text \<open>A keystroke: the HID modifier byte and the HID usage of one key.\<close>

record bridge_stroke =
  modifier :: u8
  usage :: u8

definition zero_stroke :: bridge_stroke where
  "zero_stroke = \<lparr>modifier = 0, usage = 0\<rparr>"

text \<open>Different statuses have different receipt bytes.\<close>

lemma status_code_inject [simp]: "status_code s = status_code t \<longleftrightarrow> s = t"
  by (cases s; cases t) simp_all

end
