(* ===== verification/Utf8_Decode.thy ===== *)
theory Utf8_Decode
  imports Bridge_Types
begin

section \<open>Strict UTF-8 decoding (decode_utf8 of firmware/core/bridge_core.c)\<close>

text \<open>
  \<open>decode_utf8\<close> reads one code point at an offset of the input. The C function takes
  the input pointer, its length and a pointer to the offset, and writes the code point
  through a pointer; here it returns the status, the new offset and the code point (the
  value the C variable holds, also when the status is an error).

  The reference is the encoding table of RFC 3629, written on natural numbers
  (\<open>utf8_encode\<close>). The result is an equivalence: the decoder accepts exactly the
  shortest-form encodings of Unicode scalar values.
\<close>

text \<open>The \<open>for\<close> loop over the continuation bytes; \<open>n\<close> is how many are left.\<close>

fun utf8_continuation :: "bytes \<Rightarrow> nat \<Rightarrow> nat \<Rightarrow> u32 \<Rightarrow> bridge_status \<times> nat \<times> u32" where
  "utf8_continuation input 0 offset cp = (BRIDGE_OK, offset, cp)"
| "utf8_continuation input (Suc n) offset cp =
     (let byte = input ! offset in
      if byte AND 0xc0 \<noteq> 0x80 then (BRIDGE_ERR_UTF8, Suc offset, cp)
      else utf8_continuation input n (Suc offset) (push_bit 6 cp OR ucast (byte AND 0x3f)))"

text \<open>
  The lead byte decides the bits it contributes, the number of continuation bytes and the
  smallest code point that needs that many.
\<close>

definition utf8_lead :: "u8 \<Rightarrow> (u32 \<times> nat \<times> u32) option" where
  "utf8_lead lead =
     (if 0xc2 \<le> lead \<and> lead \<le> 0xdf then Some (ucast (lead AND 0x1f), 1, 0x80)
      else if 0xe0 \<le> lead \<and> lead \<le> 0xef then Some (ucast (lead AND 0x0f), 2, 0x800)
      else if 0xf0 \<le> lead \<and> lead \<le> 0xf4 then Some (ucast (lead AND 0x07), 3, 0x10000)
      else None)"

definition decode_utf8 :: "bytes \<Rightarrow> nat \<Rightarrow> nat \<Rightarrow> bridge_status \<times> nat \<times> u32" where
  "decode_utf8 input len offset =
     (let lead = input ! offset; offset = Suc offset in
      if lead < 0x80 then (BRIDGE_OK, offset, ucast lead)
      else case utf8_lead lead of
        None \<Rightarrow> (BRIDGE_ERR_UTF8, offset, 0)
      | Some (cp, continuation, minimum) \<Rightarrow>
          if len - offset < continuation then (BRIDGE_ERR_UTF8, offset, cp)
          else case utf8_continuation input continuation offset cp of
            (status, offset, cp) \<Rightarrow>
              if status \<noteq> BRIDGE_OK then (status, offset, cp)
              else if cp < minimum \<or> 0x10ffff < cp \<or> (0xd800 \<le> cp \<and> cp \<le> 0xdfff)
              then (BRIDGE_ERR_UTF8, offset, cp)
              else (BRIDGE_OK, offset, cp))"

subsection \<open>The reference encoding\<close>

definition scalar_value :: "nat \<Rightarrow> bool" where
  "scalar_value n \<longleftrightarrow> n < 0xd800 \<or> (0xdfff < n \<and> n \<le> 0x10ffff)"

definition utf8_encode :: "nat \<Rightarrow> bytes" where
  "utf8_encode n =
     (if n < 0x80 then [of_nat n]
      else if n < 0x800 then [of_nat (0xc0 + n div 64), of_nat (0x80 + n mod 64)]
      else if n < 0x10000 then
        [of_nat (0xe0 + n div 64 div 64), of_nat (0x80 + n div 64 mod 64),
         of_nat (0x80 + n mod 64)]
      else [of_nat (0xf0 + n div 64 div 64 div 64), of_nat (0x80 + n div 64 div 64 mod 64),
            of_nat (0x80 + n div 64 mod 64), of_nat (0x80 + n mod 64)])"

text \<open>\<open>reads_at input off xs\<close>: the bytes from \<open>off\<close> on start with \<open>xs\<close>.\<close>

fun reads_at :: "bytes \<Rightarrow> nat \<Rightarrow> bytes \<Rightarrow> bool" where
  "reads_at input off [] = True"
| "reads_at input off (x # xs) = (input ! off = x \<and> reads_at input (Suc off) xs)"

subsection \<open>The decoder read as arithmetic\<close>

fun utf8_value :: "bytes \<Rightarrow> nat \<Rightarrow> nat \<Rightarrow> nat \<Rightarrow> nat" where
  "utf8_value input 0 off a = a"
| "utf8_value input (Suc n) off a = utf8_value input n (Suc off) (a * 64 + unat (input ! off) mod 64)"

lemma unat_append_six: "unat cp < 67108864 \<Longrightarrow> unat (push_bit 6 cp OR ucast (byte AND 0x3f) :: u32) = unat cp * 64 + unat (byte::u8) mod 64"
  using unat_push_or [of "ucast (byte AND 0x3f)" 6 cp] by (simp add: unat_low_bits)

lemma utf8_continuation_iff:
  assumes "(unat cp + 1) * 64 ^ n \<le> 4294967296"
  shows "utf8_continuation input n off cp = (BRIDGE_OK, off', cp') \<longleftrightarrow>
    off' = off + n \<and> (\<forall>i<n. unat (input ! (off + i)) div 64 = 2) \<and>
    unat cp' = utf8_value input n off (unat cp)"
  using assms
proof (induction n arbitrary: off cp)
  case 0
  then show ?case by (auto simp: word_unat_eq_iff)
next
  case (Suc n)
  let ?c = "push_bit 6 cp OR ucast (input ! off AND 0x3f) :: u32"
  have b: "unat cp < 67108864"
  proof -
    have "(unat cp + 1) * 64 \<le> (unat cp + 1) * 64 * 64 ^ n" by simp
    also have "\<dots> = (unat cp + 1) * 64 ^ Suc n" by (simp only: power_Suc mult.assoc)
    also have "\<dots> \<le> 4294967296" by (rule Suc.prems)
    finally have "(unat cp + 1) * 64 \<le> 4294967296" .
    then show ?thesis by simp
  qed
  have c: "unat ?c = unat cp * 64 + unat (input ! off) mod 64" by (rule unat_append_six [OF b])
  have "(unat ?c + 1) * 64 ^ n \<le> ((unat cp + 1) * 64) * 64 ^ n"
    unfolding c
  proof (rule mult_right_mono)
    show "unat cp * 64 + unat (input ! off) mod 64 + 1 \<le> (unat cp + 1) * 64"
      using mod_less_divisor [of 64 "unat (input ! off)"] by simp
  qed simp
  also have "\<dots> = (unat cp + 1) * 64 ^ Suc n" by (simp only: power_Suc mult.assoc)
  finally have "(unat ?c + 1) * 64 ^ n \<le> 4294967296" using Suc.prems by linarith
  note IH = Suc.IH [OF this, of "Suc off", unfolded c]
  show ?case
    by (auto simp: Let_def u8_top_two_bits IH All_less_Suc2)
qed

lemma utf8_continuation_bounds:
  "utf8_continuation input n off cp = (st, off', cp') \<Longrightarrow> off \<le> off' \<and> off' \<le> off + n"
  by (induction n arbitrary: off cp) (force simp: Let_def split: if_splits)+

lemma decode_ascii:
  "off < len \<Longrightarrow> unat (input ! off) < 128 \<Longrightarrow>
    decode_utf8 input len off = (BRIDGE_OK, off + 1, ucast (input ! off))"
  by (simp add: decode_utf8_def word_less_nat_alt)

lemma decode_multi:
  "\<not> unat (input ! off) < 128 \<Longrightarrow>
    decode_utf8 input len off = (BRIDGE_OK, off', cp) \<longleftrightarrow>
     (\<exists>c n m. utf8_lead (input ! off) = Some (c, n, m) \<and> n \<le> len - (off + 1) \<and>
        utf8_continuation input n (off + 1) c = (BRIDGE_OK, off', cp) \<and>
        unat m \<le> unat cp \<and> scalar_value (unat cp))"
  by (auto simp: decode_utf8_def Let_def word_less_nat_alt word_le_nat_alt scalar_value_def
      split: option.splits prod.splits if_splits)

lemma unat_of_nat_u8: "n < 256 \<Longrightarrow> unat (of_nat n :: u8) = n"
  by (simp add: unsigned_of_nat take_bit_nat_eq_self)

lemma u8_eq_of_nat: "n < 256 \<Longrightarrow> ((b::u8) = of_nat n) = (unat b = n)"
  using unat_of_nat_u8 [of n] by (auto simp: word_unat_eq_iff)

lemma cont_byte: "(of_nat (128 + k mod 64) :: u8) = b \<longleftrightarrow> unat b = 128 + k mod 64"
  using u8_eq_of_nat [of "128 + k mod 64" b] mod_less_divisor [of 64 k] by auto

lemma cont_byte_eq: "b = (of_nat (128 + k mod 64) :: u8) \<longleftrightarrow> unat b = 128 + k mod 64"
  using cont_byte [of k b] by (simp only: eq_commute [of b])

lemma offset_mod: "q * m \<le> L \<Longrightarrow> L - q * m < m \<Longrightarrow> L mod m = L - q * (m::nat)"
  using mod_mult_self1 [of "L - q * m" q m] by simp

lemma digit64: "y < 64 \<Longrightarrow> (c = x * 64 + y) = (c div 64 = x \<and> c mod 64 = (y::nat))"
  by auto

lemma cont_digit:
  assumes "b < (256::nat)"
  shows "(b div 64 = 2 \<and> y = b mod 64) \<longleftrightarrow> (y < 64 \<and> b = 128 + y)"
proof
  assume "b div 64 = 2 \<and> y = b mod 64"
  then show "y < 64 \<and> b = 128 + y" using div_mult_mod_eq [of b 64] by simp
next
  assume y: "y < 64 \<and> b = 128 + y"
  then have "b = y + 2 * 64" by simp
  then have "b div 64 = 2 + y div 64" and "b mod 64 = y mod 64"
    by (simp_all only: div_mult_self1 [of 64 y 2] mod_mult_self1)
  with y show "b div 64 = 2 \<and> y = b mod 64" by simp
qed
lemma digit_step: 
  assumes "b < (256::nat)"
  shows "(b div 64 = 2 \<and> c = x * 64 + b mod 64) \<longleftrightarrow> (c div 64 = x \<and> b = 128 + c mod 64)"
proof -
  have "(b div 64 = 2 \<and> c = x * 64 + b mod 64) \<longleftrightarrow> (b div 64 = 2 \<and> c mod 64 = b mod 64) \<and> c div 64 = x"
    using digit64 [of "b mod 64" c x, OF mod_less_divisor] by auto
  also have "\<dots> \<longleftrightarrow> (c div 64 = x \<and> b = 128 + c mod 64)"
    using cont_digit [OF assms, of "c mod 64"] by auto
  finally show ?thesis .
qed

lemma two_byte_digits: 
  fixes c :: nat assumes "192 \<le> L" "L \<le> 223" "B < 256"
  shows "(B div 64 = 2 \<and> c = L mod 32 * 64 + B mod 64) \<longleftrightarrow> (L = 192 + c div 64 \<and> B = 128 + c mod 64)"
proof -
  have "L mod 32 = L - 192" using offset_mod [of 6 32 L] assms(1,2) by simp
  then have "(c div 64 = L mod 32) = (L = 192 + c div 64)" using assms by linarith
  then show ?thesis unfolding digit_step[OF assms(3)] by simp
qed
lemma three_byte_digits: 
  fixes c :: nat assumes "224 \<le> L" "L \<le> 239" "B < 256" "B' < 256"
  shows "(B div 64 = 2 \<and> B' div 64 = 2 \<and> c = (L mod 16 * 64 + B mod 64) * 64 + B' mod 64) \<longleftrightarrow>
    (L = 224 + c div 64 div 64 \<and> B = 128 + c div 64 mod 64 \<and> B' = 128 + c mod 64)"
proof -
  have "L mod 16 = L - 224" using offset_mod [of 14 16 L] assms(1,2) by simp
  then have "(c div 64 div 64 = L mod 16) = (L = 224 + c div 64 div 64)" using assms by linarith
  then show ?thesis using digit_step[OF assms(4), of c "L mod 16 * 64 + B mod 64"] digit_step[OF assms(3), of "c div 64" "L mod 16"] by blast
qed
lemma four_byte_digits: 
  fixes c :: nat assumes "240 \<le> L" "L \<le> 247" "B < 256" "B' < 256" "B'' < 256"
  shows "(B div 64 = 2 \<and> B' div 64 = 2 \<and> B'' div 64 = 2 \<and> c = ((L mod 8 * 64 + B mod 64) * 64 + B' mod 64) * 64 + B'' mod 64) \<longleftrightarrow>
    (L = 240 + c div 64 div 64 div 64 \<and> B = 128 + c div 64 div 64 mod 64 \<and> B' = 128 + c div 64 mod 64 \<and> B'' = 128 + c mod 64)"
proof -
  have "L mod 8 = L - 240" using offset_mod [of 30 8 L] assms(1,2) by simp
  then have "(c div 64 div 64 div 64 = L mod 8) = (L = 240 + c div 64 div 64 div 64)" using assms by linarith
  then show ?thesis using digit_step[OF assms(5), of c "(L mod 8 * 64 + B mod 64) * 64 + B' mod 64"] digit_step[OF assms(4), of "c div 64" "L mod 8 * 64 + B mod 64"] digit_step[OF assms(3), of "c div 64 div 64" "L mod 8"] by blast
qed

lemma reads_at_1:
  "n < 0x80 \<Longrightarrow> reads_at input off (utf8_encode n) \<longleftrightarrow> unat (input ! off) = n"
  by (simp add: utf8_encode_def u8_eq_of_nat)

lemma reads_at_2:
  assumes "0x80 \<le> n" "n < 0x800"
  shows "reads_at input off (utf8_encode n) \<longleftrightarrow>
     unat (input ! off) = 192 + n div 64 \<and> unat (input ! Suc off) = 128 + n mod 64"
proof -
  have e: "utf8_encode n = [of_nat (192 + n div 64), of_nat (128 + n mod 64)]"
    using assms by (simp add: utf8_encode_def)
  have l: "192 + n div 64 < 256" using assms by simp
  show ?thesis unfolding e reads_at.simps cont_byte_eq u8_eq_of_nat [OF l] by simp
qed

lemma reads_at_3:
  assumes "0x800 \<le> n" "n < 0x10000"
  shows "reads_at input off (utf8_encode n) \<longleftrightarrow>
     unat (input ! off) = 224 + n div 64 div 64 \<and> unat (input ! Suc off) = 128 + n div 64 mod 64 \<and>
     unat (input ! Suc (Suc off)) = 128 + n mod 64"
proof -
  have e: "utf8_encode n = [of_nat (224 + n div 64 div 64), of_nat (128 + n div 64 mod 64),
      of_nat (128 + n mod 64)]"
    using assms by (simp add: utf8_encode_def)
  have l: "224 + n div 64 div 64 < 256" using assms by simp
  show ?thesis unfolding e reads_at.simps cont_byte_eq u8_eq_of_nat [OF l] by simp
qed

lemma reads_at_4:
  assumes "0x10000 \<le> n" "n \<le> 0x10ffff"
  shows "reads_at input off (utf8_encode n) \<longleftrightarrow>
     unat (input ! off) = 240 + n div 64 div 64 div 64 \<and>
     unat (input ! Suc off) = 128 + n div 64 div 64 mod 64 \<and>
     unat (input ! Suc (Suc off)) = 128 + n div 64 mod 64 \<and>
     unat (input ! Suc (Suc (Suc off))) = 128 + n mod 64"
proof -
  have e: "utf8_encode n = [of_nat (240 + n div 64 div 64 div 64),
      of_nat (128 + n div 64 div 64 mod 64), of_nat (128 + n div 64 mod 64), of_nat (128 + n mod 64)]"
    using assms by (simp add: utf8_encode_def)
  have l: "240 + n div 64 div 64 div 64 < 256" using assms by simp
  show ?thesis unfolding e reads_at.simps cont_byte_eq u8_eq_of_nat [OF l] by simp
qed

text \<open>What the lead byte decides.\<close>

lemma utf8_lead_cases:
  "utf8_lead b = Some (c, k, m) \<longleftrightarrow>
     (194 \<le> unat b \<and> unat b \<le> 223 \<and> c = ucast (b AND 0x1f) \<and> k = 1 \<and> m = 0x80) \<or>
     (224 \<le> unat b \<and> unat b \<le> 239 \<and> c = ucast (b AND 0x0f) \<and> k = 2 \<and> m = 0x800) \<or>
     (240 \<le> unat b \<and> unat b \<le> 244 \<and> c = ucast (b AND 0x07) \<and> k = 3 \<and> m = 0x10000)"
  by (auto simp: utf8_lead_def word_le_nat_alt)

lemma length_utf8_encode:
  "length (utf8_encode n) = (if n < 0x80 then 1 else if n < 0x800 then 2 else if n < 0x10000 then 3 else 4)"
  by (simp add: utf8_encode_def)

lemma utf8_class:
  assumes "scalar_value n"
  obtains "n < 0x80" | "0x80 \<le> n" "n < 0x800" | "0x800 \<le> n" "n < 0x10000"
    | "0x10000 \<le> n" "n \<le> 0x10ffff"
  using assms unfolding scalar_value_def by linarith


lemma reads_at_lead:
  assumes "scalar_value n" and "reads_at input off (utf8_encode n)"
  defines "L \<equiv> unat (input ! off)"
  shows "(n < 0x80 \<longleftrightarrow> L < 128) \<and> (0x80 \<le> n \<and> n < 0x800 \<longleftrightarrow> 194 \<le> L \<and> L \<le> 223) \<and>
    (0x800 \<le> n \<and> n < 0x10000 \<longleftrightarrow> 224 \<le> L \<and> L \<le> 239) \<and> (0x10000 \<le> n \<longleftrightarrow> 240 \<le> L) \<and> L \<le> 244"
  using assms(1)
proof (cases rule: utf8_class)
  case 1
  then show ?thesis using assms(2) by (simp add: L_def reads_at_1)
next
  case 2
  then have "L = 192 + n div 64" using assms(2) by (simp add: L_def reads_at_2)
  moreover have "2 \<le> n div 64" "n div 64 < 32" using 2 by linarith+
  ultimately show ?thesis using 2 by linarith
next
  case 3
  then have "L = 224 + n div 64 div 64" using assms(2) by (simp add: L_def reads_at_3)
  moreover have "n div 64 div 64 < 16" using 3 by linarith
  ultimately show ?thesis using 3 by linarith
next
  case 4
  then have "L = 240 + n div 64 div 64 div 64" using assms(2) by (simp add: L_def reads_at_4)
  moreover have "n div 64 div 64 div 64 < 5" using 4 by linarith
  ultimately show ?thesis using 4 by linarith
qed

lemma utf8_value_unfold: "utf8_value input 1 off a = a * 64 + unat (input ! off) mod 64"
  "utf8_value input 2 off a = (a * 64 + unat (input ! off) mod 64) * 64 + unat (input ! Suc off) mod 64"
  "utf8_value input 3 off a = ((a * 64 + unat (input ! off) mod 64) * 64 + unat (input ! Suc off) mod 64) * 64 + unat (input ! Suc (Suc off)) mod 64"
  by (simp_all add: numeral_2_eq_2 numeral_3_eq_3)

lemma decode_multi_lead:
  assumes "utf8_lead (input ! off) = Some (c, k, m)"
    and "utf8_continuation input k (off + 1) c = (BRIDGE_OK, off', cp) \<longleftrightarrow> off' = off + 1 + k \<and> P"
    and "off < len"
  shows "decode_utf8 input len off = (BRIDGE_OK, off', cp) \<longleftrightarrow>
    off' = off + 1 + k \<and> off' \<le> len \<and> P \<and> unat m \<le> unat cp \<and> scalar_value (unat cp)"
proof -
  have "\<not> unat (input ! off) < 128" using assms(1) by (auto simp: utf8_lead_cases)
  then show ?thesis using assms by (auto simp: decode_multi)
qed

text \<open>
  The equivalence, one lead-byte class at a time. \<open>accepts\<close> is what the reference says:
  the bytes at \<open>off\<close> are the shortest-form encoding of the scalar value \<open>n\<close>, all of
  them inside the input.
\<close>

definition accepts :: "bytes \<Rightarrow> nat \<Rightarrow> nat \<Rightarrow> nat \<Rightarrow> nat \<Rightarrow> bool" where
  "accepts input len off off' n \<longleftrightarrow> scalar_value n \<and> reads_at input off (utf8_encode n) \<and>
     off' = off + length (utf8_encode n) \<and> off' \<le> len"

lemma accepts_lead:
  assumes "accepts input len off off' n"
  defines "L \<equiv> unat (input ! off)"
  shows "(n < 0x80 \<longleftrightarrow> L < 128) \<and> (0x80 \<le> n \<and> n < 0x800 \<longleftrightarrow> 194 \<le> L \<and> L \<le> 223) \<and>
    (0x800 \<le> n \<and> n < 0x10000 \<longleftrightarrow> 224 \<le> L \<and> L \<le> 239) \<and> (0x10000 \<le> n \<longleftrightarrow> 240 \<le> L) \<and> L \<le> 244"
  using assms reads_at_lead [of n input off] by (simp add: accepts_def)

lemma decode_one_byte:
  assumes "off < len" and "unat (input ! off) < 128"
  shows "decode_utf8 input len off = (BRIDGE_OK, off', cp) \<longleftrightarrow>
    accepts input len off off' (unat cp)"
proof -
  have "accepts input len off off' (unat cp) \<longleftrightarrow>
      unat cp < 0x80 \<and> accepts input len off off' (unat cp)"
    using assms(2) accepts_lead by blast
  also have "\<dots> \<longleftrightarrow> unat cp = unat (input ! off) \<and> off' = off + 1"
    using assms by (auto simp: accepts_def reads_at_1 length_utf8_encode scalar_value_def)
  finally show ?thesis using decode_ascii [OF assms] assms(2) by (auto simp: word_unat_eq_iff)
qed

lemma decode_two_bytes:
  assumes "off < len" and lo: "194 \<le> unat (input ! off)" and hi: "unat (input ! off) \<le> 223"
  shows "decode_utf8 input len off = (BRIDGE_OK, off', cp) \<longleftrightarrow>
    accepts input len off off' (unat cp)" (is "?D \<longleftrightarrow> ?E")
proof -
  define L where "L = unat (input ! off)"
  define B1 where "B1 = unat (input ! Suc off)"
  define n where "n = unat cp"
  note defs = L_def B1_def n_def
  have L: "194 \<le> L" "L \<le> 223" and B: "B1 < 256" using lo hi by (simp_all add: defs)
  have L': "192 \<le> L" using L(1) by simp
  let ?c = "ucast (input ! off AND 0x1f) :: u32" and ?X = "L = 192 + n div 64 \<and> B1 = 128 + n mod 64"
  have k: "utf8_lead (input ! off) = Some (?c, 1, 0x80)"
    using L by (auto simp: utf8_lead_cases defs)
  have c: "utf8_continuation input 1 (off + 1) ?c = (BRIDGE_OK, off', cp) \<longleftrightarrow>
      off' = off + 1 + 1 \<and> (B1 div 64 = 2 \<and> n = L mod 32 * 64 + B1 mod 64)"
    using utf8_continuation_iff [of ?c 1 input "off + 1" off' cp] mod_less_divisor [of 32 L]
    by (simp add: unat_low_bits utf8_value_unfold defs)
  have d: "?D \<longleftrightarrow> off' = off + 1 + 1 \<and> off' \<le> len \<and> ?X \<and> 0x80 \<le> n \<and> scalar_value n"
    using decode_multi_lead [OF k c [unfolded two_byte_digits [OF L' L(2) B]] assms(1)]
    by (simp add: n_def)
  have "n < 0x800" if ?X using that L by linarith
  then have "?D \<longleftrightarrow> (0x80 \<le> n \<and> n < 0x800) \<and> ?E"
    unfolding d accepts_def using reads_at_2 [of n input off] length_utf8_encode [of n]
    by (auto simp: defs)
  moreover have "?E \<Longrightarrow> 0x80 \<le> n \<and> n < 0x800"
    using L accepts_lead unfolding defs by blast
  ultimately show ?thesis by blast
qed

lemma decode_three_bytes:
  assumes "off < len" and lo: "224 \<le> unat (input ! off)" and hi: "unat (input ! off) \<le> 239"
  shows "decode_utf8 input len off = (BRIDGE_OK, off', cp) \<longleftrightarrow>
    accepts input len off off' (unat cp)" (is "?D \<longleftrightarrow> ?E")
proof -
  define L where "L = unat (input ! off)"
  define B1 where "B1 = unat (input ! Suc off)"
  define B2 where "B2 = unat (input ! Suc (Suc off))"
  define n where "n = unat cp"
  note defs = L_def B1_def B2_def n_def
  have L: "224 \<le> L" "L \<le> 239" and B: "B1 < 256" "B2 < 256" using lo hi by (simp_all add: defs)
  let ?c = "ucast (input ! off AND 0x0f) :: u32"
  let ?X = "L = 224 + n div 64 div 64 \<and> B1 = 128 + n div 64 mod 64 \<and> B2 = 128 + n mod 64"
  have k: "utf8_lead (input ! off) = Some (?c, 2, 0x800)"
    using L by (auto simp: utf8_lead_cases defs)
  have c: "utf8_continuation input 2 (off + 1) ?c = (BRIDGE_OK, off', cp) \<longleftrightarrow>
      off' = off + 1 + 2 \<and> (B1 div 64 = 2 \<and> B2 div 64 = 2 \<and>
        n = (L mod 16 * 64 + B1 mod 64) * 64 + B2 mod 64)"
    using utf8_continuation_iff [of ?c 2 input "off + 1" off' cp] mod_less_divisor [of 16 L]
    by (simp add: unat_low_bits utf8_value_unfold all_nat_less_2 defs)
  have d: "?D \<longleftrightarrow> off' = off + 1 + 2 \<and> off' \<le> len \<and> ?X \<and> 0x800 \<le> n \<and> scalar_value n"
    using decode_multi_lead [OF k c [unfolded three_byte_digits [OF L B]] assms(1)]
    by (simp add: n_def)
  have "n < 0x10000" if ?X using that L by linarith
  then have "?D \<longleftrightarrow> (0x800 \<le> n \<and> n < 0x10000) \<and> ?E"
    unfolding d accepts_def using reads_at_3 [of n input off] length_utf8_encode [of n]
    by (auto simp: defs)
  moreover have "?E \<Longrightarrow> 0x800 \<le> n \<and> n < 0x10000"
    using L accepts_lead unfolding defs by blast
  ultimately show ?thesis by blast
qed

lemma decode_four_bytes:
  assumes "off < len" and lo: "240 \<le> unat (input ! off)" and hi: "unat (input ! off) \<le> 244"
  shows "decode_utf8 input len off = (BRIDGE_OK, off', cp) \<longleftrightarrow>
    accepts input len off off' (unat cp)" (is "?D \<longleftrightarrow> ?E")
proof -
  define L where "L = unat (input ! off)"
  define B1 where "B1 = unat (input ! Suc off)"
  define B2 where "B2 = unat (input ! Suc (Suc off))"
  define B3 where "B3 = unat (input ! Suc (Suc (Suc off)))"
  define n where "n = unat cp"
  note defs = L_def B1_def B2_def B3_def n_def
  have L: "240 \<le> L" "L \<le> 244" and B: "B1 < 256" "B2 < 256" "B3 < 256"
    using lo hi by (simp_all add: defs)
  have L': "L \<le> 247" using L(2) by simp
  let ?c = "ucast (input ! off AND 0x07) :: u32"
  let ?X = "L = 240 + n div 64 div 64 div 64 \<and> B1 = 128 + n div 64 div 64 mod 64 \<and>
    B2 = 128 + n div 64 mod 64 \<and> B3 = 128 + n mod 64"
  have k: "utf8_lead (input ! off) = Some (?c, 3, 0x10000)"
    using L by (auto simp: utf8_lead_cases defs)
  have c: "utf8_continuation input 3 (off + 1) ?c = (BRIDGE_OK, off', cp) \<longleftrightarrow>
      off' = off + 1 + 3 \<and> (B1 div 64 = 2 \<and> B2 div 64 = 2 \<and> B3 div 64 = 2 \<and>
        n = ((L mod 8 * 64 + B1 mod 64) * 64 + B2 mod 64) * 64 + B3 mod 64)"
    using utf8_continuation_iff [of ?c 3 input "off + 1" off' cp] mod_less_divisor [of 8 L]
    by (simp add: unat_low_bits utf8_value_unfold all_nat_less_3 defs)
  have d: "?D \<longleftrightarrow> off' = off + 1 + 3 \<and> off' \<le> len \<and> ?X \<and> 0x10000 \<le> n \<and> scalar_value n"
    using decode_multi_lead [OF k c [unfolded four_byte_digits [OF L(1) L' B]] assms(1)]
    by (simp add: n_def)
  then have "?D \<longleftrightarrow> 0x10000 \<le> n \<and> ?E"
    unfolding accepts_def using reads_at_4 [of n input off] length_utf8_encode [of n]
    by (auto simp: defs scalar_value_def)
  moreover have "?E \<Longrightarrow> 0x10000 \<le> n"
    using L accepts_lead unfolding defs by blast
  ultimately show ?thesis by blast
qed

lemma decode_utf8_accepts:
  assumes "off < len"
  shows "decode_utf8 input len off = (BRIDGE_OK, off', cp) \<longleftrightarrow>
    accepts input len off off' (unat cp)" (is "?D \<longleftrightarrow> ?E")
proof -
  let ?L = "unat (input ! off)"
  have r: "L < 128 \<or> 194 \<le> L \<and> L \<le> 223 \<or> 224 \<le> L \<and> L \<le> 239 \<or> 240 \<le> L \<and> L \<le> 244 \<or>
      (128 \<le> L \<and> L < 194 \<or> 244 < L)" for L :: nat by linarith
  have "\<not> ?D \<and> \<not> ?E" if bad: "128 \<le> ?L \<and> ?L < 194 \<or> 244 < ?L"
  proof
    have "utf8_lead (input ! off) = Some (c, k, m) \<longleftrightarrow> False" for c k m
      using bad by (auto simp: utf8_lead_cases)
    then show "\<not> ?D" using bad by (auto simp: decode_multi)
    show "\<not> ?E"
      using bad accepts_lead [of input len off off' "unat cp"] by (auto simp: not_le not_less)
  qed
  then show ?thesis
    using r [of ?L] assms decode_one_byte decode_two_bytes decode_three_bytes decode_four_bytes
    by meson
qed

subsection \<open>What the caller uses\<close>

text \<open>Every call moves the offset forward and never past the end of the input.\<close>

lemma decode_utf8_advances:
  "decode_utf8 input len off = (st, off', cp) \<Longrightarrow> off < off'"
  by (auto simp: decode_utf8_def Let_def dest: utf8_continuation_bounds
      split: if_splits option.splits prod.splits)

lemma decode_utf8_within:
  "decode_utf8 input len off = (st, off', cp) \<Longrightarrow> off < len \<Longrightarrow> off' \<le> len"
  by (auto simp: decode_utf8_def Let_def dest!: utf8_continuation_bounds
      split: if_splits option.splits prod.splits)

lemma utf8_continuation_status:
  "utf8_continuation input n off cp = (st, off', cp') \<Longrightarrow> st = BRIDGE_OK \<or> st = BRIDGE_ERR_UTF8"
  by (induction n arbitrary: off cp) (auto simp: Let_def split: if_splits)

lemma decode_utf8_status:
  "decode_utf8 input len off = (st, off', cp) \<Longrightarrow> st = BRIDGE_OK \<or> st = BRIDGE_ERR_UTF8"
  by (auto simp: decode_utf8_def Let_def dest: utf8_continuation_status
      split: if_splits option.splits prod.splits)

text \<open>The result depends on the bytes below the length only: no read past the input.\<close>

lemma utf8_continuation_local:
  assumes "\<forall>i<len. a ! i = b ! i" and "off + n \<le> len"
  shows "utf8_continuation a n off cp = utf8_continuation b n off cp"
  using assms(2) by (induction n arbitrary: off cp) (simp_all add: assms(1) Let_def)

lemma decode_utf8_local:
  assumes "\<forall>i<len. a ! i = b ! i" and "off < len"
  shows "decode_utf8 a len off = decode_utf8 b len off"
proof -
  have c: "utf8_continuation a n (Suc off) cp = utf8_continuation b n (Suc off) cp"
    if "\<not> len - Suc off < n" for n cp
    using that assms(2) by (intro utf8_continuation_local [OF assms(1)]) linarith
  then show ?thesis
    using assms by (simp add: decode_utf8_def Let_def split: option.split)
qed

subsection \<open>Property\<close>

text \<open>C9: the decoder of the firmware is strict UTF-8. At any offset inside the input it returns
  success, the offset \<open>off'\<close> and the code point \<open>cp\<close> exactly when \<open>cp\<close> is a Unicode scalar
  value whose shortest-form encoding (RFC 3629) is what the input holds from \<open>off\<close> to
  \<open>off'\<close>, inside the length. Overlong forms, surrogates, values above 0x10ffff, stray and
  missing continuation bytes are therefore all refused.\<close>

theorem decode_utf8_strict:
  assumes "off < len"
  shows "decode_utf8 input len off = (BRIDGE_OK, off', cp) \<longleftrightarrow>
    scalar_value (unat cp) \<and> reads_at input off (utf8_encode (unat cp)) \<and>
    off' = off + length (utf8_encode (unat cp)) \<and> off' \<le> len"
  using decode_utf8_accepts [OF assms] unfolding accepts_def .

theorem decode_utf8_strict_witness:
  "decode_utf8 [0x41, 0xe2, 0x82, 0xac] 4 1 = (BRIDGE_OK, 4, 0x20ac)"
proof -
  have "(1::nat) < 4" by simp
  from decode_utf8_strict [OF this, where input = "[0x41, 0xe2, 0x82, 0xac]" and off' = 4
      and cp = "0x20ac"] show ?thesis
    by (simp add: scalar_value_def utf8_encode_def)
qed

end
