(* ===== verification/Key_Layout.thy ===== *)
theory Key_Layout
  imports Bridge_Types
begin

section \<open>Keyboard layouts (map_ascii and map_de of firmware/core/bridge_core.c)\<close>

text \<open>
  The two layout maps turn one code point into one HID stroke. As in C the stroke is an
  in-out argument: \<open>map_ascii\<close> clears the modifier before it looks the code point up
  and leaves the usage alone when it fails; \<open>map_de\<close> writes nothing before one of its
  tables matches. The character tables of the source are C strings; here they are the lists
  of their character codes, in the same order.
\<close>

text \<open>\<^verbatim>\<open>plain = "`1234567890-=[]\\;',./"\<close> and \<^verbatim>\<open>shifted = "~!@#$%^&*()_+{}|:\"<>?"\<close>.\<close>

definition ascii_plain :: "u32 list" where
  "ascii_plain = [96, 49, 50, 51, 52, 53, 54, 55, 56, 57, 48, 45, 61, 91, 93, 92, 59, 39, 44,
     46, 47]"

definition ascii_shifted :: "u32 list" where
  "ascii_shifted = [126, 33, 64, 35, 36, 37, 94, 38, 42, 40, 41, 95, 43, 123, 125, 124, 58, 34,
     60, 62, 63]"

definition ascii_usages :: "u8 list" where
  "ascii_usages = [53, 30, 31, 32, 33, 34, 35, 36, 37, 38, 39, 45, 46, 47, 48, 49, 51, 52, 54,
     55, 56]"

text \<open>The \<open>for\<close> loop over the three tables in step.\<close>

fun ascii_scan ::
  "u32 \<Rightarrow> u32 list \<Rightarrow> u32 list \<Rightarrow> u8 list \<Rightarrow> bridge_stroke \<Rightarrow> bridge_status \<times> bridge_stroke"
where
  "ascii_scan cp (p # ps) (s # ss) (u # us) stroke =
     (if cp = p \<or> cp = s
      then (BRIDGE_OK, stroke\<lparr>usage := u, modifier := (if cp = s then BRIDGE_MOD_LEFT_SHIFT else 0)\<rparr>)
      else ascii_scan cp ps ss us stroke)"
| "ascii_scan cp _ _ _ stroke = (BRIDGE_ERR_UNSUPPORTED, stroke)"

definition map_ascii :: "u32 \<Rightarrow> bridge_stroke \<Rightarrow> bridge_status \<times> bridge_stroke" where
  "map_ascii cp stroke0 =
     (let stroke = stroke0\<lparr>modifier := 0\<rparr> in
      if 97 \<le> cp \<and> cp \<le> 122 then (BRIDGE_OK, stroke\<lparr>usage := ucast (cp - 97 + 4)\<rparr>)
      else if 65 \<le> cp \<and> cp \<le> 90
      then (BRIDGE_OK, stroke\<lparr>modifier := BRIDGE_MOD_LEFT_SHIFT, usage := ucast (cp - 65 + 4)\<rparr>)
      else if cp = 32 then (BRIDGE_OK, stroke\<lparr>usage := 44\<rparr>)
      else ascii_scan cp ascii_plain ascii_shifted ascii_usages stroke)"

text \<open>
  The German table: the 32 ASCII symbols \<^verbatim>\<open>!"#$%&'()*+,-./:;<=>?@[\]^_`{|}~\<close> with their
  keys, then the characters beyond ASCII.
\<close>

definition de_symbols :: "u32 list" where
  "de_symbols = [33, 34, 35, 36, 37, 38, 39, 40, 41, 42, 43, 44, 45, 46, 47, 58, 59, 60, 61, 62,
     63, 64, 91, 92, 93, 94, 95, 96, 123, 124, 125, 126]"

definition de_keys :: "(u8 \<times> u8) list" where
  "de_keys = [(2,30), (2,31), (0,50), (2,33), (2,34), (2,35), (2,50), (2,37), (2,38),
     (2,48), (0,48), (0,54), (0,56), (0,55), (2,36), (2,55), (2,54),
     (0,100), (2,39), (2,100), (2,45), (64,20), (64,37), (64,45), (64,38),
     (0,53), (2,56), (2,46), (64,36), (64,100), (64,39), (64,48)]"

definition de_unicode :: "(u32 \<times> (u8 \<times> u8)) list" where
  "de_unicode = [(0xe4, (0,52)), (0xf6, (0,51)), (0xfc, (0,47)),
     (0xc4, (2,52)), (0xd6, (2,51)), (0xdc, (2,47)),
     (0xdf, (0,45)), (0x20ac, (64,8)), (0xb4, (0,46))]"

definition stroke_of :: "u8 \<times> u8 \<Rightarrow> bridge_stroke" where
  "stroke_of k = \<lparr>modifier = fst k, usage = snd k\<rparr>"

definition swap_yz :: "u32 \<Rightarrow> u32" where
  "swap_yz cp =
     (if cp = 121 then 122 else if cp = 89 then 90
      else if cp = 122 then 121 else if cp = 90 then 89 else cp)"

definition map_de :: "u32 \<Rightarrow> bridge_stroke \<Rightarrow> bridge_status \<times> bridge_stroke" where
  "map_de cp stroke =
     (case map_of (zip de_symbols de_keys) cp of
        Some k \<Rightarrow> (BRIDGE_OK, stroke_of k)
      | None \<Rightarrow>
         (case map_of de_unicode cp of
            Some k \<Rightarrow> (BRIDGE_OK, stroke_of k)
          | None \<Rightarrow> map_ascii (swap_yz cp) stroke))"

text \<open>The call in \<open>bridge_core_stage\<close>: the layout selects the map.\<close>

definition map_layout :: "u32 \<Rightarrow> u32 \<Rightarrow> bridge_stroke \<Rightarrow> bridge_status \<times> bridge_stroke" where
  "map_layout lay cp stroke =
     (if lay = BRIDGE_LAYOUT_DE then map_de cp stroke else map_ascii cp stroke)"

text \<open>Characters whose German key is dead: the stage operation adds a space stroke.\<close>

definition de_dead_key :: "u32 \<Rightarrow> bool" where
  "de_dead_key cp \<longleftrightarrow> cp = 94 \<or> cp = 96 \<or> cp = 126 \<or> cp = 0xb4"

subsection \<open>The US map\<close>

lemmas ascii_tables = ascii_plain_def ascii_shifted_def ascii_usages_def

definition ascii_symbol_key :: "u32 \<Rightarrow> u8 \<Rightarrow> u8 \<Rightarrow> bool" where
  "ascii_symbol_key cp m u \<longleftrightarrow>
     (m = BRIDGE_MOD_LEFT_SHIFT \<and> (cp, u) \<in> set (zip ascii_shifted ascii_usages)) \<or>
     (m = 0 \<and> (cp, u) \<in> set (zip ascii_plain ascii_usages))"

lemma ascii_scan_OK:
  assumes "ascii_scan cp ps ss us s = (BRIDGE_OK, t)"
  shows "(modifier t = BRIDGE_MOD_LEFT_SHIFT \<and> (cp, usage t) \<in> set (zip ss us)) \<or>
     (modifier t = 0 \<and> (cp, usage t) \<in> set (zip ps us))"
  using assms
  by (induction cp ps ss us s rule: ascii_scan.induct) (auto split: if_splits)

lemma ascii_scan_status:
  "ascii_scan cp ps ss us s = (st, t) \<Longrightarrow> st = BRIDGE_OK \<or> st = BRIDGE_ERR_UNSUPPORTED"
  by (induction cp ps ss us s rule: ascii_scan.induct) (auto split: if_splits)

lemma ascii_scan_complete:
  "cp \<in> set ps \<union> set ss \<Longrightarrow> length ps = length us \<Longrightarrow> length ss = length us \<Longrightarrow>
     fst (ascii_scan cp ps ss us s) = BRIDGE_OK"
  by (induction cp ps ss us s rule: ascii_scan.induct) auto

lemma ascii_scan_indep:
  "ascii_scan cp ps ss us s = (BRIDGE_OK, t) \<Longrightarrow> ascii_scan cp ps ss us s' = (BRIDGE_OK, t)"
  by (induction cp ps ss us s rule: ascii_scan.induct) (auto split: if_splits)

lemma map_ascii_status:
  "map_ascii cp s = (st, t) \<Longrightarrow> st = BRIDGE_OK \<or> st = BRIDGE_ERR_UNSUPPORTED"
  by (auto simp: map_ascii_def Let_def split: if_splits dest: ascii_scan_status)

lemma map_ascii_indep:
  "map_ascii cp s = (BRIDGE_OK, t) \<Longrightarrow> map_ascii cp s' = (BRIDGE_OK, t)"
  by (auto simp: map_ascii_def Let_def split: if_splits intro: ascii_scan_indep)

lemma unat_letter:
  assumes "93 \<le> unat (cp :: u32)" and "unat cp \<le> 200" 
  shows "unat (ucast (cp - 93) :: u8) + 93 = unat cp"
proof -
  have "unat (cp - 93) = unat cp - 93" using assms(1) by (simp add: unat_sub word_le_nat_alt)
  then show ?thesis using assms by (simp add: unsigned_ucast_eq take_bit_nat_eq_self)
qed

lemma unat_capital:
  assumes "61 \<le> unat (cp :: u32)" and "unat cp \<le> 200" 
  shows "unat (ucast (cp - 61) :: u8) + 61 = unat cp"
proof -
  have "unat (cp - 61) = unat cp - 61" using assms(1) by (simp add: unat_sub word_le_nat_alt)
  then show ?thesis using assms by (simp add: unsigned_ucast_eq take_bit_nat_eq_self)
qed

lemma map_ascii_cases:
  assumes "map_ascii cp s = (BRIDGE_OK, t)"
  obtains (lower) "97 \<le> unat cp" "unat cp \<le> 122" "modifier t = 0" "unat (usage t) + 93 = unat cp"
  | (upper) "65 \<le> unat cp" "unat cp \<le> 90" "modifier t = BRIDGE_MOD_LEFT_SHIFT" "unat (usage t) + 61 = unat cp"
  | (space) "cp = 32" "modifier t = 0" "usage t = 44"
  | (symbol) "ascii_symbol_key cp (modifier t) (usage t)"
proof -
  consider "97 \<le> unat cp \<and> unat cp \<le> 122" | "65 \<le> unat cp \<and> unat cp \<le> 90" | "cp = 32"
    | "\<not> (97 \<le> unat cp \<and> unat cp \<le> 122)" "\<not> (65 \<le> unat cp \<and> unat cp \<le> 90)" "cp \<noteq> 32" by blast
  then show ?thesis
  proof cases
    case 1
    then show ?thesis using assms lower unat_letter [of cp]
      by (auto simp: map_ascii_def Let_def word_le_nat_alt)
  next
    case 2
    then show ?thesis using assms upper unat_capital [of cp]
      by (auto simp: map_ascii_def Let_def word_le_nat_alt)
  next
    case 3
    with assms space show ?thesis by (auto simp: map_ascii_def)
  next
    case 4
    then have "ascii_scan cp ascii_plain ascii_shifted ascii_usages (s\<lparr>modifier := 0\<rparr>) = (BRIDGE_OK, t)"
      using assms by (auto simp: map_ascii_def Let_def word_le_nat_alt)
    then show ?thesis unfolding ascii_symbol_key_def by (intro symbol) (simp add: ascii_symbol_key_def ascii_scan_OK)
  qed
qed

lemma printable_split:
  assumes "32 \<le> n" and "n \<le> (126::nat)"
  shows "n = 32 \<or> (65 \<le> n \<and> n \<le> 90) \<or> (97 \<le> n \<and> n \<le> 122) \<or>
    n \<in> set [33..<65] \<or> n \<in> set [91..<97] \<or> n \<in> set [123..<127]"
  using assms by (simp only: set_upt atLeastLessThan_iff) linarith

lemma symbol_in_tables:
  "n \<in> set [33..<65] \<or> n \<in> set [91..<97] \<or> n \<in> set [123..<127] \<Longrightarrow>
    (of_nat n :: u32) \<in> set ascii_plain \<union> set ascii_shifted"
  unfolding ascii_tables upt_rec_numeral by (simp, elim disjE; simp)

lemma map_ascii_accepts:
  "fst (map_ascii cp s) = BRIDGE_OK \<longleftrightarrow> 32 \<le> unat cp \<and> unat cp \<le> 126"
proof
  assume "fst (map_ascii cp s) = BRIDGE_OK"
  then obtain t where "map_ascii cp s = (BRIDGE_OK, t)" by (cases "map_ascii cp s") auto
  then show "32 \<le> unat cp \<and> unat cp \<le> 126"
    by (cases rule: map_ascii_cases) (auto simp: ascii_symbol_key_def ascii_tables)
next
  assume r: "32 \<le> unat cp \<and> unat cp \<le> 126"
  then consider "cp = 32" | "65 \<le> unat cp \<and> unat cp \<le> 90" | "97 \<le> unat cp \<and> unat cp \<le> 122"
    | "cp \<in> set ascii_plain \<union> set ascii_shifted"
    using printable_split [of "unat cp"] symbol_in_tables [of "unat cp"] by (auto simp: word_unat_eq_iff)
  then show "fst (map_ascii cp s) = BRIDGE_OK"
  proof cases
    case 4
    have "length ascii_plain = length ascii_usages" "length ascii_shifted = length ascii_usages"
      by (simp_all add: ascii_tables)
    with 4 show ?thesis by (simp add: map_ascii_def Let_def ascii_scan_complete)
  qed (simp_all add: map_ascii_def Let_def word_le_nat_alt)
qed

lemma zip_second_distinct:
  "distinct us \<Longrightarrow> (c, u) \<in> set (zip cs us) \<Longrightarrow> (c', u) \<in> set (zip cs us) \<Longrightarrow> c = c'"
  by (auto simp: set_zip distinct_conv_nth)

lemma ascii_symbol_key_inject:
  "ascii_symbol_key c m u \<Longrightarrow> ascii_symbol_key c' m u \<Longrightarrow> c = c'"
proof -
  have d: "distinct ascii_usages" by (simp add: ascii_usages_def)
  show "ascii_symbol_key c m u \<Longrightarrow> ascii_symbol_key c' m u \<Longrightarrow> c = c'"
    unfolding ascii_symbol_key_def
    by (auto simp: consts_def dest: zip_second_distinct [OF d])
qed

lemma ascii_symbol_key_usage: "ascii_symbol_key c m u \<Longrightarrow> 30 \<le> unat u \<and> unat u \<le> 56 \<and> u \<noteq> 44 \<and> (m = 0 \<or> m = 2)"
  unfolding ascii_symbol_key_def ascii_tables consts_def by (simp, elim disjE conjE; simp)

lemma map_ascii_inject:
  assumes "map_ascii c s = (BRIDGE_OK, t)" and "map_ascii c' s' = (BRIDGE_OK, t)"
  shows "c = c'"
  using assms(1)
proof (cases rule: map_ascii_cases)
  case lower
  from assms(2) show ?thesis
  proof (cases rule: map_ascii_cases)
    case symbol
    with ascii_symbol_key_usage [OF symbol] lower show ?thesis by auto
  qed (use lower in \<open>auto simp: consts_def word_unat_eq_iff\<close>)
next
  case upper
  from assms(2) show ?thesis
  proof (cases rule: map_ascii_cases)
    case symbol
    with ascii_symbol_key_usage [OF symbol] upper show ?thesis by auto
  qed (use upper in \<open>auto simp: consts_def word_unat_eq_iff\<close>)
next
  case space
  from assms(2) show ?thesis
  proof (cases rule: map_ascii_cases)
    case symbol
    with ascii_symbol_key_usage [OF symbol] space show ?thesis by auto
  qed (use space in \<open>auto simp: consts_def word_unat_eq_iff\<close>)
next
  case symbol
  note u = ascii_symbol_key_usage [OF symbol]
  from assms(2) show ?thesis
  proof (cases rule: map_ascii_cases)
    case s: symbol
    with symbol show ?thesis by (rule ascii_symbol_key_inject)
  qed (use u in \<open>auto simp: consts_def\<close>)
qed

subsection \<open>The German map\<close>

definition de_table :: "(u32 \<times> (u8 \<times> u8)) list" where
  "de_table = zip de_symbols de_keys @ de_unicode"

lemmas de_tables = de_symbols_def de_keys_def de_unicode_def

lemma map_de_table:
  "map_de cp s = (case map_of de_table cp of Some k \<Rightarrow> (BRIDGE_OK, stroke_of k)
     | None \<Rightarrow> map_ascii (swap_yz cp) s)"
  by (simp add: map_de_def de_table_def map_add_def split: option.split)

lemma de_table_keys: "distinct (map snd de_table)"
  by (simp add: de_table_def de_tables)

lemma map_of_snd_inject:
  "distinct (map snd xs) \<Longrightarrow> map_of xs a = Some k \<Longrightarrow> map_of xs b = Some k \<Longrightarrow> a = b"
  by (auto simp: distinct_map dest!: map_of_SomeD dest: inj_onD [where x = "(a, k)" and y = "(b, k)"])

lemma de_table_dom: "map_of de_table cp = None \<longleftrightarrow> cp \<notin> set de_symbols \<and> cp \<notin> set (map fst de_unicode)"
proof -
  have "length de_symbols = length de_keys" by (simp add: de_tables)
  then have "set (map fst (zip de_symbols de_keys)) = set de_symbols" by simp
  then show ?thesis by (simp add: de_table_def map_of_eq_None_iff image_Un)
qed

text \<open>Outside the tables only letters, digits and the space are left for the US map.\<close>

definition plain_key :: "bridge_stroke \<Rightarrow> bool" where
  "plain_key t \<longleftrightarrow> (4 \<le> unat (usage t) \<and> unat (usage t) \<le> 29 \<and> (modifier t = 0 \<or> modifier t = 2)) \<or>
     (30 \<le> unat (usage t) \<and> unat (usage t) \<le> 39 \<and> modifier t = 0) \<or> (usage t = 44 \<and> modifier t = 0)"

lemma de_table_not_plain: "map_of de_table cp = Some k \<Longrightarrow> \<not> plain_key (stroke_of k)"
proof -
  have "\<forall>k \<in> set (map snd de_table). \<not> plain_key (stroke_of k)"
    by (simp add: de_table_def de_tables plain_key_def stroke_of_def)
  moreover assume "map_of de_table cp = Some k"
  then have "k \<in> set (map snd de_table)" by (force dest: map_of_SomeD)
  ultimately show ?thesis by blast
qed

lemma ascii_not_symbol_plain:
  assumes "map_ascii cp s = (BRIDGE_OK, t)" and "cp \<notin> set de_symbols"
  shows "plain_key t"
  using assms(1)
proof (cases rule: map_ascii_cases)
  case symbol
  then show ?thesis using assms(2)
    unfolding ascii_symbol_key_def ascii_tables consts_def de_symbols_def plain_key_def
    by (simp, elim disjE conjE; simp)
qed (simp_all add: plain_key_def consts_def)

lemma swap_yz_symbols: "swap_yz cp \<in> set de_symbols \<longleftrightarrow> cp \<in> set de_symbols"
  by (simp add: swap_yz_def de_symbols_def)

lemma swap_yz_inject: "swap_yz a = swap_yz b \<longleftrightarrow> a = b"
  by (auto simp: swap_yz_def)

lemma swap_yz_range: "32 \<le> unat (swap_yz cp) \<and> unat (swap_yz cp) \<le> 126 \<longleftrightarrow> 32 \<le> unat cp \<and> unat cp \<le> 126"
  by (auto simp: swap_yz_def)

lemma map_de_plain:
  assumes "map_of de_table cp = None" and "map_de cp s = (BRIDGE_OK, t)"
  shows "map_ascii (swap_yz cp) s = (BRIDGE_OK, t)" and "plain_key t"
proof -
  show m: "map_ascii (swap_yz cp) s = (BRIDGE_OK, t)" using assms by (simp add: map_de_table)
  have "swap_yz cp \<notin> set de_symbols" using assms(1) by (simp add: de_table_dom swap_yz_symbols)
  with m show "plain_key t" by (rule ascii_not_symbol_plain)
qed

lemma stroke_of_inject [simp]: "stroke_of j = stroke_of k \<longleftrightarrow> j = k"
  by (auto simp: stroke_of_def prod_eq_iff)

lemma map_de_inject:
  assumes "map_de c s = (BRIDGE_OK, t)" and "map_de c' s' = (BRIDGE_OK, t)"
  shows "c = c'"
proof (cases "map_of de_table c")
  case None
  note p = map_de_plain [OF None assms(1)]
  show ?thesis
  proof (cases "map_of de_table c'")
    case N: None
    show ?thesis using map_ascii_inject [OF p(1) map_de_plain(1) [OF N assms(2)]] by (simp add: swap_yz_inject)
  next
    case (Some k)
    with assms(2) p(2) de_table_not_plain [OF Some] show ?thesis by (auto simp: map_de_table)
  qed
next
  case (Some k)
  then have t: "t = stroke_of k" using assms(1) by (simp add: map_de_table)
  show ?thesis
  proof (cases "map_of de_table c'")
    case None
    show ?thesis using map_de_plain(2) [OF None assms(2)] t de_table_not_plain [OF Some] by simp
  next
    case S: (Some k')
    then have "k' = k" using assms(2) t by (simp add: map_de_table)
    with S Some show ?thesis using map_of_snd_inject [OF de_table_keys] by blast
  qed
qed

lemma map_de_accepts:
  "fst (map_de cp s) = BRIDGE_OK \<longleftrightarrow>
     (32 \<le> unat cp \<and> unat cp \<le> 126) \<or> cp \<in> set (map fst de_unicode)"
proof (cases "map_of de_table cp")
  case None
  then show ?thesis
    by (simp add: map_de_table map_ascii_accepts swap_yz_range) (simp add: de_table_dom)
next
  case (Some k)
  have "32 \<le> unat c \<and> unat c \<le> 126" if "c \<in> set de_symbols" for c
    using that unfolding de_symbols_def by (simp, elim disjE; simp)
  then show ?thesis using Some de_table_dom [of cp] by (auto simp: map_de_table)
qed

lemma map_de_indep: "map_de cp s = (BRIDGE_OK, t) \<Longrightarrow> map_de cp s' = (BRIDGE_OK, t)"
  by (auto simp: map_de_table split: option.splits intro: map_ascii_indep)

lemma map_de_status: "map_de cp s = (st, t) \<Longrightarrow> st = BRIDGE_OK \<or> st = BRIDGE_ERR_UNSUPPORTED"
  by (auto simp: map_de_table split: option.splits dest: map_ascii_status)

text \<open>The ranges the HID report descriptor declares.\<close>

definition hid_range :: "bridge_stroke \<Rightarrow> bool" where
  "hid_range t \<longleftrightarrow> 4 \<le> unat (usage t) \<and> unat (usage t) \<le> 0x65 \<and>
     (modifier t = 0 \<or> modifier t = BRIDGE_MOD_LEFT_SHIFT \<or> modifier t = BRIDGE_MOD_RIGHT_ALT)"

lemma map_ascii_hid: "map_ascii cp s = (BRIDGE_OK, t) \<Longrightarrow> hid_range t"
  by (erule map_ascii_cases)
    (auto simp: hid_range_def consts_def dest!: ascii_symbol_key_usage)

lemma map_de_hid: "map_de cp s = (BRIDGE_OK, t) \<Longrightarrow> hid_range t"
proof (cases "map_of de_table cp")
  case None
  moreover assume "map_de cp s = (BRIDGE_OK, t)"
  ultimately show ?thesis by (auto simp: map_de_table dest: map_ascii_hid)
next
  case (Some k)
  have "\<forall>k \<in> set (map snd de_table). hid_range (stroke_of k)"
    by (simp add: de_table_def de_tables hid_range_def stroke_of_def consts_def)
  moreover have "k \<in> set (map snd de_table)" using Some by (force dest: map_of_SomeD)
  moreover assume "map_de cp s = (BRIDGE_OK, t)"
  ultimately show ?thesis using Some by (auto simp: map_de_table)
qed

end
