(* ===== verification/Bridge_Core.thy ===== *)
theory Bridge_Core
  imports Utf8_Decode Key_Layout
begin

section \<open>The bridge core state machine (firmware/core/bridge_core.c)\<close>

text \<open>
  The one job slot of the device: a text is staged (decoded, checked and turned into HID
  strokes), confirmed, drained stroke by stroke, and wiped. The record follows
  \<open>bridge_core_t\<close>; the two C arrays are functions on the index, with the bounds the
  C declarations give proved as invariants. Every operation takes the core and returns the
  status and the new core. Times are 32-bit milliseconds and wrap.

  The C functions also accept a null pointer; \<open>at_core\<close> adds that case to an operation on
  the structure, and the entry points of the header are the \<open>_at\<close> definitions.
\<close>

record bridge_core =
  replay_count :: nat
  replay :: "nat \<Rightarrow> u32 \<times> u32"
  core_state :: bridge_state
  core_owner :: u32
  core_id :: u32
  staged_at_ms :: u32
  ttl_ms :: u32
  core_layout :: u32
  core_mode :: u32
  core_flags :: u8
  stroke_count :: nat
  cursor :: nat
  strokes :: "nat \<Rightarrow> bridge_stroke"

subsection \<open>Operations\<close>

text \<open>\<open>wipe\<close> over the job region (everything from the state field on), then the new state.\<close>

definition core_terminate :: "bridge_core \<Rightarrow> bridge_state \<Rightarrow> bridge_core" where
  "core_terminate core st = core\<lparr>
     core_state := st, core_owner := 0, core_id := 0, staged_at_ms := 0, ttl_ms := 0,
     core_layout := 0, core_mode := 0, core_flags := 0, stroke_count := 0, cursor := 0,
     strokes := (\<lambda>_. zero_stroke)\<rparr>"

definition core_reject ::
  "bridge_core \<Rightarrow> bridge_status \<Rightarrow> bridge_status \<times> bridge_core" where
  "core_reject core status = (status, core_terminate core BRIDGE_STATE_REJECTED)"

text \<open>\<open>wipe\<close> over the whole structure.\<close>

definition bridge_core_init :: bridge_core where
  "bridge_core_init = \<lparr>
     replay_count = 0, replay = (\<lambda>_. (0, 0)), core_state = BRIDGE_STATE_EMPTY,
     core_owner = 0, core_id = 0, staged_at_ms = 0, ttl_ms = 0, core_layout = 0,
     core_mode = 0, core_flags = 0, stroke_count = 0, cursor = 0,
     strokes = (\<lambda>_. zero_stroke)\<rparr>"

text \<open>The linear search of the replay ledger.\<close>

fun replay_hit :: "(nat \<Rightarrow> u32 \<times> u32) \<Rightarrow> nat \<Rightarrow> nat \<Rightarrow> u32 \<Rightarrow> u32 \<Rightarrow> bool" where
  "replay_hit rep i 0 own ident = False"
| "replay_hit rep i (Suc n) own ident =
     (fst (rep i) = own \<and> snd (rep i) = ident \<or> replay_hit rep (Suc i) n own ident)"

text \<open>
  One stroke is written at the next free index; C increments the count first and then
  fills the element through the pointer.
\<close>

definition put_stroke :: "bridge_core \<Rightarrow> nat \<Rightarrow> bridge_stroke \<Rightarrow> bridge_core" where
  "put_stroke core i s = core\<lparr>strokes := (strokes core)(i := s)\<rparr>"

text \<open>Which control characters text mode lets through.\<close>

definition control_allowed :: "u32 \<Rightarrow> u8 \<Rightarrow> u32 \<Rightarrow> bool" where
  "control_allowed md fl cp \<longleftrightarrow> md = BRIDGE_MODE_TEXT \<and>
     ((cp = 10 \<and> fl AND BRIDGE_FLAG_ALLOW_LF \<noteq> 0) \<or>
      (cp = 9 \<and> fl AND BRIDGE_FLAG_ALLOW_TAB \<noteq> 0))"

text \<open>
  The fold of a carriage return followed by a line feed into the line feed: the new offset
  and code point.
\<close>

definition fold_crlf ::
  "u32 \<Rightarrow> u8 \<Rightarrow> bytes \<Rightarrow> nat \<Rightarrow> nat \<Rightarrow> u32 \<Rightarrow> nat \<times> u32" where
  "fold_crlf md fl utf8 len offset cp =
     (if cp = 13 \<and> md = BRIDGE_MODE_TEXT \<and> fl AND BRIDGE_FLAG_ALLOW_LF \<noteq> 0 \<and>
         offset < len \<and> utf8 ! offset = 10
      then (Suc offset, 10) else (offset, cp))"

lemma fold_crlf_advances: "fst (fold_crlf md fl utf8 len off cp) \<ge> off"
  by (simp add: fold_crlf_def)

text \<open>What one decoded code point adds to the job: the body of the loop after the decoder.\<close>

definition add_code_point ::
  "u32 \<Rightarrow> u32 \<Rightarrow> u8 \<Rightarrow> bridge_core \<Rightarrow> u32 \<Rightarrow> bridge_status \<times> bridge_core" where
  "add_code_point lay md fl core cp =
     (let i = stroke_count core; core = core\<lparr>stroke_count := Suc i\<rparr> in
      if cp < 32 \<or> cp = 127 then
        (if control_allowed md fl cp
         then (BRIDGE_OK,
           put_stroke core i ((strokes core i)\<lparr>usage := (if cp = 10 then 0x28 else 0x2b)\<rparr>))
         else (BRIDGE_ERR_POLICY, core))
      else case map_layout lay cp (strokes core i) of (status, s) \<Rightarrow>
        (let core = put_stroke core i s in
         if status \<noteq> BRIDGE_OK then (status, core)
         else if lay = BRIDGE_LAYOUT_DE \<and> de_dead_key cp then
           (let j = stroke_count core in
            (BRIDGE_OK, put_stroke (core\<lparr>stroke_count := Suc j\<rparr>) j ((strokes core j)\<lparr>usage := 44\<rparr>)))
         else (BRIDGE_OK, core)))"

text \<open>The \<open>while\<close> loop over the input.\<close>

function stage_loop ::
  "u32 \<Rightarrow> u32 \<Rightarrow> u8 \<Rightarrow> bytes \<Rightarrow> nat \<Rightarrow> nat \<Rightarrow> bridge_core \<Rightarrow> bridge_status \<times> bridge_core"
where
  "stage_loop lay md fl utf8 len offset core =
     (if offset < len then
        (case decode_utf8 utf8 len offset of (status, offset1, cp1) \<Rightarrow>
           if status \<noteq> BRIDGE_OK then core_reject core status
           else case fold_crlf md fl utf8 len offset1 cp1 of (offset2, cp) \<Rightarrow>
             (case add_code_point lay md fl core cp of (status, core) \<Rightarrow>
                if status \<noteq> BRIDGE_OK then core_reject core status
                else stage_loop lay md fl utf8 len offset2 core))
      else (BRIDGE_OK, core))"
  by pat_completeness auto
termination
  by (relation "measure (\<lambda>(lay, md, fl, utf8, len, offset, core). len - offset)")
    (auto simp: fold_crlf_def split: if_splits dest!: decode_utf8_advances [OF sym])

declare stage_loop.simps [simp del]

text \<open>
  \<open>bridge_core_stage\<close>. The input pointer may be null (\<open>None\<close>); the checks run in the
  order of the source. The last step enters the job into the replay ledger.
\<close>

definition bridge_core_stage ::
  "bridge_core \<Rightarrow> u32 \<Rightarrow> u32 \<Rightarrow> u32 \<Rightarrow> u32 \<Rightarrow> u8 \<Rightarrow> bytes option \<Rightarrow> nat \<Rightarrow> u32 \<Rightarrow> u32
     \<Rightarrow> bridge_status \<times> bridge_core"
where
  "bridge_core_stage core own ident lay md fl utf8 len now ttl =
     (if core_state core = BRIDGE_STATE_STAGED \<or> core_state core = BRIDGE_STATE_EXECUTING
      then (BRIDGE_ERR_BUSY, core)
      else let core = core_terminate core BRIDGE_STATE_EMPTY in
      if len = 0 \<or> BRIDGE_MAX_INPUT_BYTES < len then core_reject core BRIDGE_ERR_LIMIT
      else if utf8 = None \<or> own = 0 \<or> ident = 0 \<or>
           (lay \<noteq> BRIDGE_LAYOUT_US \<and> lay \<noteq> BRIDGE_LAYOUT_DE) \<or>
           (md \<noteq> BRIDGE_MODE_PASSWORD \<and> md \<noteq> BRIDGE_MODE_TEXT) \<or>
           ttl = 0 \<or> BRIDGE_MAX_TTL_MS < ttl
      then core_reject core BRIDGE_ERR_ARGUMENT
      else if fl AND NOT (BRIDGE_FLAG_ALLOW_LF OR BRIDGE_FLAG_ALLOW_TAB) \<noteq> 0 \<or>
           (md = BRIDGE_MODE_PASSWORD \<and> fl \<noteq> 0)
      then core_reject core BRIDGE_ERR_POLICY
      else if replay_hit (replay core) 0 (replay_count core) own ident
      then core_reject core BRIDGE_ERR_REPLAY
      else if replay_count core = BRIDGE_REPLAY_CAPACITY then core_reject core BRIDGE_ERR_LIMIT
      else
        (let core = core\<lparr>core_owner := own, core_id := ident, core_layout := lay,
                          core_mode := md, core_flags := fl, staged_at_ms := now, ttl_ms := ttl\<rparr>
         in case stage_loop lay md fl (the utf8) len 0 core of (status, core) \<Rightarrow>
           if status \<noteq> BRIDGE_OK then (status, core)
           else (BRIDGE_OK, core\<lparr>
              replay := (replay core)(replay_count core := (own, ident)),
              replay_count := Suc (replay_count core),
              core_state := BRIDGE_STATE_STAGED\<rparr>)))"

definition bridge_core_abort :: "bridge_core \<Rightarrow> bridge_core" where
  "bridge_core_abort core = core_terminate core BRIDGE_STATE_CANCELLED"

definition bridge_core_cancel ::
  "bridge_core \<Rightarrow> u32 \<Rightarrow> u32 \<Rightarrow> bridge_status \<times> bridge_core" where
  "bridge_core_cancel core own ident =
     (if core_state core \<noteq> BRIDGE_STATE_STAGED \<and> core_state core \<noteq> BRIDGE_STATE_EXECUTING
      then (BRIDGE_ERR_STATE, core)
      else if own \<noteq> core_owner core then (BRIDGE_ERR_OWNER, core)
      else if ident \<noteq> core_id core then (BRIDGE_ERR_ID, core)
      else (BRIDGE_OK, core_terminate core BRIDGE_STATE_CANCELLED))"

definition bridge_core_tick :: "bridge_core \<Rightarrow> u32 \<Rightarrow> bridge_status \<times> bridge_core" where
  "bridge_core_tick core now =
     (if core_state core = BRIDGE_STATE_STAGED \<and> ttl_ms core \<le> now - staged_at_ms core
      then (BRIDGE_ERR_EXPIRED, core_terminate core BRIDGE_STATE_EXPIRED)
      else (BRIDGE_OK, core))"

definition bridge_core_confirm ::
  "bridge_core \<Rightarrow> u32 \<Rightarrow> u32 \<Rightarrow> u32 \<Rightarrow> bridge_status \<times> bridge_core" where
  "bridge_core_confirm core own ident now =
     (if core_state core \<noteq> BRIDGE_STATE_STAGED then (BRIDGE_ERR_STATE, core)
      else if own \<noteq> core_owner core then (BRIDGE_ERR_OWNER, core)
      else if ident \<noteq> core_id core then (BRIDGE_ERR_ID, core)
      else case bridge_core_tick core now of (status, core) \<Rightarrow>
        if status = BRIDGE_ERR_EXPIRED then (BRIDGE_ERR_EXPIRED, core)
        else (BRIDGE_OK, core\<lparr>core_state := BRIDGE_STATE_EXECUTING\<rparr>))"

text \<open>
  \<open>bridge_core_next\<close>: the third component is the caller's stroke buffer, wiped at the
  start of the call.
\<close>

definition bridge_core_next ::
  "bridge_core \<Rightarrow> u32 \<Rightarrow> bridge_status \<times> bridge_core \<times> bridge_stroke" where
  "bridge_core_next core now =
     (case bridge_core_tick core now of (status, core) \<Rightarrow>
        if status = BRIDGE_ERR_EXPIRED then (BRIDGE_ERR_EXPIRED, core, zero_stroke)
        else if core_state core \<noteq> BRIDGE_STATE_EXECUTING then (BRIDGE_ERR_STATE, core, zero_stroke)
        else if cursor core = stroke_count core
        then (BRIDGE_DONE, core_terminate core BRIDGE_STATE_COMPLETED, zero_stroke)
        else (BRIDGE_OK,
          (put_stroke core (cursor core) zero_stroke)\<lparr>cursor := Suc (cursor core)\<rparr>,
          strokes core (cursor core)))"

subsection \<open>Entry points with their pointer arguments\<close>

text \<open>
  The null checks in front of the operations. A null core gives
  \<^const>\<open>BRIDGE_ERR_ARGUMENT\<close> (or does nothing) and there is no core to change.
\<close>

definition at_core ::
  "(bridge_core \<Rightarrow> bridge_status \<times> bridge_core) \<Rightarrow> bridge_core option
     \<Rightarrow> bridge_status \<times> bridge_core option" where
  "at_core f p = (case p of None \<Rightarrow> (BRIDGE_ERR_ARGUMENT, None)
     | Some core \<Rightarrow> map_prod id Some (f core))"

definition bridge_core_init_at :: "bridge_core option \<Rightarrow> bridge_core option" where
  "bridge_core_init_at p = map_option (\<lambda>_. bridge_core_init) p"

definition bridge_core_stage_at where
  "bridge_core_stage_at p own ident lay md fl utf8 len now ttl =
     at_core (\<lambda>core. bridge_core_stage core own ident lay md fl utf8 len now ttl) p"

definition bridge_core_cancel_at where
  "bridge_core_cancel_at p own ident = at_core (\<lambda>core. bridge_core_cancel core own ident) p"

definition bridge_core_tick_at where
  "bridge_core_tick_at p now = at_core (\<lambda>core. bridge_core_tick core now) p"

definition bridge_core_confirm_at where
  "bridge_core_confirm_at p own ident now = at_core (\<lambda>core. bridge_core_confirm core own ident now) p"

definition bridge_core_abort_at :: "bridge_core option \<Rightarrow> bridge_core option" where
  "bridge_core_abort_at p = map_option bridge_core_abort p"

definition bridge_core_state_at :: "bridge_core option \<Rightarrow> bridge_state" where
  "bridge_core_state_at p = (case p of None \<Rightarrow> BRIDGE_STATE_EMPTY | Some core \<Rightarrow> core_state core)"

text \<open>\<open>bridge_core_next\<close> also takes a pointer to the stroke; it is wiped first when present.\<close>

definition bridge_core_next_at ::
  "bridge_core option \<Rightarrow> u32 \<Rightarrow> bridge_stroke option
     \<Rightarrow> bridge_status \<times> bridge_core option \<times> bridge_stroke option" where
  "bridge_core_next_at p now out =
     (case (p, map_option (\<lambda>_. zero_stroke) out) of
        (Some core, Some _) \<Rightarrow>
          (case bridge_core_next core now of (status, core, s) \<Rightarrow> (status, Some core, Some s))
      | (p, out) \<Rightarrow> (BRIDGE_ERR_ARGUMENT, p, out))"

subsection \<open>The job region and the operations on it\<close>

text \<open>A wiped job region: no owner, no times, no stroke is left in memory.\<close>

definition job_wiped :: "bridge_core \<Rightarrow> bool" where
  "job_wiped c \<longleftrightarrow> core_owner c = 0 \<and> core_id c = 0 \<and> staged_at_ms c = 0 \<and> ttl_ms c = 0 \<and>
     core_layout c = 0 \<and> core_mode c = 0 \<and> core_flags c = 0 \<and> stroke_count c = 0 \<and>
     cursor c = 0 \<and> strokes c = (\<lambda>_. zero_stroke)"

definition job_active :: "bridge_core \<Rightarrow> bool" where
  "job_active c \<longleftrightarrow> core_state c = BRIDGE_STATE_STAGED \<or> core_state c = BRIDGE_STATE_EXECUTING"

text \<open>The strokes a job has not sent yet, in order.\<close>

definition pending :: "bridge_core \<Rightarrow> bridge_stroke list" where
  "pending c = map (strokes c) [cursor c..<stroke_count c]"

text \<open>The size of a core is the number of strokes left; it is the measure of the loops that consume them.\<close>

instantiation bridge_core_ext :: (type) size
begin

definition size_bridge_core_ext :: "'a bridge_core_scheme \<Rightarrow> nat" where
  "size_bridge_core_ext c = stroke_count c - cursor c"

instance ..

end

lemma size_core: "size c = length (pending c)"
  by (simp add: size_bridge_core_ext_def pending_def)

lemma core_terminate_simps [simp]:
  "core_state (core_terminate c st) = st"
  "replay_count (core_terminate c st) = replay_count c"
  "replay (core_terminate c st) = replay c"
  "job_wiped (core_terminate c st)"
  "pending (core_terminate c st) = []"
  "stroke_count (core_terminate c st) = 0"
  "strokes (core_terminate c st) = (\<lambda>_. zero_stroke)"
  "cursor (core_terminate c st) = 0"
  by (simp_all add: core_terminate_def job_wiped_def pending_def)

text \<open>Wiping forgets everything but the replay ledger.\<close>

lemma core_terminate_cong:
  "replay_count c = replay_count d \<Longrightarrow> replay c = replay d \<Longrightarrow>
     core_terminate c st = core_terminate d st"
  by (simp add: core_terminate_def)

lemma core_terminate_twice [simp]:
  "core_terminate (core_terminate c st) st' = core_terminate c st'"
  by (rule core_terminate_cong) simp_all

lemma bridge_core_init_simps [simp]:
  "core_state bridge_core_init = BRIDGE_STATE_EMPTY" "replay_count bridge_core_init = 0"
  "job_wiped bridge_core_init"
  by (simp_all add: bridge_core_init_def job_wiped_def)

lemma put_stroke_simps [simp]:
  "replay_count (put_stroke c i s) = replay_count c" "replay (put_stroke c i s) = replay c"
  "core_state (put_stroke c i s) = core_state c" "core_owner (put_stroke c i s) = core_owner c"
  "core_id (put_stroke c i s) = core_id c" "staged_at_ms (put_stroke c i s) = staged_at_ms c"
  "ttl_ms (put_stroke c i s) = ttl_ms c" "stroke_count (put_stroke c i s) = stroke_count c"
  "cursor (put_stroke c i s) = cursor c" "strokes (put_stroke c i s) = (strokes c)(i := s)"
  "core_layout (put_stroke c i s) = core_layout c" "core_mode (put_stroke c i s) = core_mode c"
  "core_flags (put_stroke c i s) = core_flags c"
  by (simp_all add: put_stroke_def)

lemma replay_hit_iff:
  "replay_hit rep i n own ident \<longleftrightarrow> (\<exists>j. i \<le> j \<and> j < i + n \<and> rep j = (own, ident))"
proof (induction n arbitrary: i)
  case (Suc n)
  show ?case unfolding replay_hit.simps Suc.IH range_ex_Suc by (simp only: prod_eq_iff fst_conv snd_conv)
qed simp

text \<open>
  Each operation on its own: what it returns and what it leaves, as rules the protocol
  proofs use instead of the definitions.
\<close>

lemma bridge_core_tick_cases:
  obtains (expired) "core_state c = BRIDGE_STATE_STAGED" "ttl_ms c \<le> now - staged_at_ms c"
      "bridge_core_tick c now = (BRIDGE_ERR_EXPIRED, core_terminate c BRIDGE_STATE_EXPIRED)"
  | (alive) "core_state c = BRIDGE_STATE_STAGED \<longrightarrow> now - staged_at_ms c < ttl_ms c"
      "bridge_core_tick c now = (BRIDGE_OK, c)"
  by (cases "core_state c = BRIDGE_STATE_STAGED \<and> ttl_ms c \<le> now - staged_at_ms c")
    (auto simp: bridge_core_tick_def not_le)

lemma bridge_core_confirm_OK:
  "bridge_core_confirm c own ident now = (BRIDGE_OK, d) \<longleftrightarrow>
     core_state c = BRIDGE_STATE_STAGED \<and> own = core_owner c \<and> ident = core_id c \<and>
     now - staged_at_ms c < ttl_ms c \<and> d = c\<lparr>core_state := BRIDGE_STATE_EXECUTING\<rparr>"
  by (cases rule: bridge_core_tick_cases [of c now]) (auto simp: bridge_core_confirm_def)

lemma bridge_core_confirm_error:
  assumes "bridge_core_confirm c own ident now = (st, d)" and "st \<noteq> BRIDGE_OK"
  shows "d = c \<and> st \<noteq> BRIDGE_ERR_EXPIRED \<or>
    st = BRIDGE_ERR_EXPIRED \<and> core_state c = BRIDGE_STATE_STAGED \<and>
    d = core_terminate c BRIDGE_STATE_EXPIRED"
  using assms
  by (cases rule: bridge_core_tick_cases [of c now])
    (auto simp: bridge_core_confirm_def split: if_splits)

lemma bridge_core_cancel_cases:
  assumes "bridge_core_cancel c own ident = (st, d)"
  obtains "st = BRIDGE_OK" "job_active c" "own = core_owner c" "ident = core_id c"
      "d = core_terminate c BRIDGE_STATE_CANCELLED"
  | "st \<noteq> BRIDGE_OK" "d = c"
  using assms by (auto simp: bridge_core_cancel_def job_active_def split: if_splits)

lemma bridge_core_next_cases:
  assumes "bridge_core_next c now = (st, d, s)"
  obtains (ok) "st = BRIDGE_OK" "core_state c = BRIDGE_STATE_EXECUTING" "cursor c \<noteq> stroke_count c"
      "d = (put_stroke c (cursor c) zero_stroke)\<lparr>cursor := Suc (cursor c)\<rparr>" "s = strokes c (cursor c)"
  | (completed) "st = BRIDGE_DONE" "core_state c = BRIDGE_STATE_EXECUTING"
      "cursor c = stroke_count c" "d = core_terminate c BRIDGE_STATE_COMPLETED" "s = zero_stroke"
  | (expired) "st = BRIDGE_ERR_EXPIRED" "core_state c = BRIDGE_STATE_STAGED"
      "d = core_terminate c BRIDGE_STATE_EXPIRED" "s = zero_stroke"
  | (idle) "st = BRIDGE_ERR_STATE" "core_state c \<noteq> BRIDGE_STATE_EXECUTING" "d = c" "s = zero_stroke"
proof (cases rule: bridge_core_tick_cases [of c now])
  case expired
  with assms show ?thesis by (intro that(3)) (simp_all add: bridge_core_next_def)
next
  case alive
  consider "core_state c \<noteq> BRIDGE_STATE_EXECUTING"
    | "core_state c = BRIDGE_STATE_EXECUTING" "cursor c = stroke_count c"
    | "core_state c = BRIDGE_STATE_EXECUTING" "cursor c \<noteq> stroke_count c" by blast
  then show ?thesis
  proof cases
    case 1
    with assms alive(2) show ?thesis by (intro that(4)) (simp_all add: bridge_core_next_def)
  next
    case 2
    with assms alive(2) show ?thesis by (intro that(2)) (simp_all add: bridge_core_next_def)
  next
    case 3
    with assms alive(2) show ?thesis by (intro that(1)) (simp_all add: bridge_core_next_def)
  qed
qed

end
