(* ===== verification/Core_Text.thy ===== *)
theory Core_Text
  imports Bridge_Core
begin

section \<open>Staging a text: the loop of bridge_core_stage against its specification\<close>

text \<open>
  What staging promises, on code points instead of bytes: fold CR LF into LF when the flags
  allow line feeds, turn each code point into its keys, stop at the first one that has none.
  The lemmas show that the byte loop of the source computes this function on every
  well-formed input, and that it returns \<^const>\<open>BRIDGE_OK\<close> on no other input.
\<close>

subsection \<open>The specification\<close>

definition folds_crlf :: "u32 \<Rightarrow> u8 \<Rightarrow> bool" where
  "folds_crlf md fl \<longleftrightarrow> md = BRIDGE_MODE_TEXT \<and> fl AND BRIDGE_FLAG_ALLOW_LF \<noteq> 0"

fun fold_newlines :: "bool \<Rightarrow> u32 list \<Rightarrow> u32 list" where
  "fold_newlines on (c # d # cs) =
     (if on \<and> c = 13 \<and> d = 10 then 10 # fold_newlines on cs else c # fold_newlines on (d # cs))"
| "fold_newlines on cs = cs"

definition code_point_keys ::
  "u32 \<Rightarrow> u32 \<Rightarrow> u8 \<Rightarrow> u32 \<Rightarrow> bridge_status + bridge_stroke list" where
  "code_point_keys lay md fl cp =
     (if cp < 32 \<or> cp = 127 then
        (if control_allowed md fl cp
         then Inr [\<lparr>modifier = 0, usage = (if cp = 10 then 0x28 else 0x2b)\<rparr>]
         else Inl BRIDGE_ERR_POLICY)
      else case map_layout lay cp zero_stroke of (status, s) \<Rightarrow>
        if status \<noteq> BRIDGE_OK then Inl status
        else Inr (s # (if lay = BRIDGE_LAYOUT_DE \<and> de_dead_key cp
                       then [\<lparr>modifier = 0, usage = 44\<rparr>] else [])))"

fun type_text :: "u32 \<Rightarrow> u32 \<Rightarrow> u8 \<Rightarrow> u32 list \<Rightarrow> bridge_status + bridge_stroke list" where
  "type_text lay md fl [] = Inr []"
| "type_text lay md fl (cp # cps) =
     (case code_point_keys lay md fl cp of
        Inl e \<Rightarrow> Inl e
      | Inr ks \<Rightarrow> map_sum id (\<lambda>r. ks @ r) (type_text lay md fl cps))"

text \<open>What a list of code points is as bytes.\<close>

definition utf8_text :: "u32 list \<Rightarrow> bytes" where
  "utf8_text cps = concat (map (\<lambda>c. utf8_encode (unat c)) cps)"

definition scalar_text :: "u32 list \<Rightarrow> bool" where
  "scalar_text cps \<longleftrightarrow> (\<forall>c \<in> set cps. scalar_value (unat c))"

text \<open>The strokes a job gains, one index after the other.\<close>

fun append_strokes :: "bridge_core \<Rightarrow> bridge_stroke list \<Rightarrow> bridge_core" where
  "append_strokes c [] = c"
| "append_strokes c (k # ks) =
     append_strokes (put_stroke (c\<lparr>stroke_count := Suc (stroke_count c)\<rparr>) (stroke_count c) k) ks"

text \<open>No stroke is written at or after the stroke count.\<close>

definition fresh_cells :: "bridge_core \<Rightarrow> bool" where
  "fresh_cells c \<longleftrightarrow> (\<forall>i \<ge> stroke_count c. strokes c i = zero_stroke)"

subsection \<open>Appending strokes\<close>

lemma append_strokes_fields [simp]:
  "replay_count (append_strokes c ks) = replay_count c" "replay (append_strokes c ks) = replay c"
  "core_state (append_strokes c ks) = core_state c" "core_owner (append_strokes c ks) = core_owner c"
  "core_id (append_strokes c ks) = core_id c" "staged_at_ms (append_strokes c ks) = staged_at_ms c"
  "ttl_ms (append_strokes c ks) = ttl_ms c" "cursor (append_strokes c ks) = cursor c"
  "core_layout (append_strokes c ks) = core_layout c" "core_mode (append_strokes c ks) = core_mode c"
  "core_flags (append_strokes c ks) = core_flags c"
  "stroke_count (append_strokes c ks) = stroke_count c + length ks"
  by (induction c ks rule: append_strokes.induct) simp_all

lemma append_strokes_append:
  "append_strokes c (ks @ ls) = append_strokes (append_strokes c ks) ls"
  by (induction c ks rule: append_strokes.induct) simp_all

lemma append_strokes_below:
  "i < stroke_count c \<Longrightarrow> strokes (append_strokes c ks) i = strokes c i"
  by (induction c ks rule: append_strokes.induct) simp_all

lemma append_strokes_cell:
  "i < length ks \<Longrightarrow> strokes (append_strokes c ks) (stroke_count c + i) = ks ! i"
proof (induction c ks arbitrary: i rule: append_strokes.induct)
  case (2 c k ks)
  then show ?case
    by (cases i) (simp_all add: append_strokes_below)
qed simp

lemma append_strokes_pending:
  assumes "cursor c \<le> stroke_count c"
  shows "pending (append_strokes c ks) = pending c @ ks"
proof -
  have "map (strokes (append_strokes c ks)) [stroke_count c..<stroke_count c + length ks] = ks"
    by (rule nth_equalityI) (simp_all add: append_strokes_cell)
  then show ?thesis using assms
    by (auto simp: pending_def upt_add_eq_append [OF assms] append_strokes_below)
qed

lemma append_strokes_fresh: "fresh_cells c \<Longrightarrow> fresh_cells (append_strokes c ks)"
  by (induction c ks rule: append_strokes.induct) (simp_all add: fresh_cells_def)

lemma fresh_terminate [simp]: "fresh_cells (core_terminate c st)"
  by (simp add: fresh_cells_def)

subsection \<open>One code point\<close>

lemma map_layout_indep:
  assumes "map_layout lay cp zero_stroke = (st, t)"
  shows "fst (map_layout lay cp s) = st" and "st = BRIDGE_OK \<Longrightarrow> map_layout lay cp s = (BRIDGE_OK, t)"
proof -
  show "st = BRIDGE_OK \<Longrightarrow> map_layout lay cp s = (BRIDGE_OK, t)"
    using assms by (auto simp: map_layout_def intro: map_de_indep map_ascii_indep split: if_splits)
  show "fst (map_layout lay cp s) = st"
  proof (cases "map_layout lay cp s")
    case (Pair st' t')
    have "st' = BRIDGE_OK \<or> st' = BRIDGE_ERR_UNSUPPORTED" "st = BRIDGE_OK \<or> st = BRIDGE_ERR_UNSUPPORTED"
      using Pair assms by (auto simp: map_layout_def dest: map_de_status map_ascii_status split: if_splits)
    moreover have "(st' = BRIDGE_OK) = (st = BRIDGE_OK)"
      using Pair assms
      by (auto simp: map_layout_def intro: map_de_indep map_ascii_indep split: if_splits
          dest: map_de_indep [of _ _ _ zero_stroke] map_ascii_indep [of _ _ _ zero_stroke]
            map_de_indep [of _ _ _ s] map_ascii_indep [of _ _ _ s])
    ultimately show ?thesis using Pair by auto
  qed
qed

lemma add_code_point_ledger:
  "add_code_point lay md fl c cp = (st, d) \<Longrightarrow> replay_count d = replay_count c \<and> replay d = replay c"
  by (auto simp: add_code_point_def Let_def split: if_splits prod.splits)

lemma stroke_usage_zero [simp]: "zero_stroke\<lparr>usage := u\<rparr> = \<lparr>modifier = 0, usage = u\<rparr>"
  by (simp add: zero_stroke_def)

lemma add_code_point_OK:
  assumes "fresh_cells c" and "code_point_keys lay md fl cp = Inr ks"
  shows "add_code_point lay md fl c cp = (BRIDGE_OK, append_strokes c ks)"
proof -
  have z: "strokes c (stroke_count c) = zero_stroke" "strokes c (Suc (stroke_count c)) = zero_stroke"
    using assms(1) by (simp_all add: fresh_cells_def)
  show ?thesis
  proof (cases "cp < 32 \<or> cp = 127")
    case True
    have k: "control_allowed md fl cp" "ks = [\<lparr>modifier = 0, usage = (if cp = 10 then 0x28 else 0x2b)\<rparr>]"
      using assms(2) unfolding code_point_keys_def if_P [OF True]
      by (simp_all only: split: if_split_asm) simp_all
    show ?thesis
      unfolding add_code_point_def Let_def if_P [OF True] if_P [OF k(1)] k(2) by (simp add: z)
  next
    case False
    obtain st t where m: "map_layout lay cp zero_stroke = (st, t)" by fastforce
    let ?d = "lay = BRIDGE_LAYOUT_DE \<and> de_dead_key cp"
    have k: "st = BRIDGE_OK" "ks = t # (if ?d then [\<lparr>modifier = 0, usage = 44\<rparr>] else [])"
      using assms(2) unfolding code_point_keys_def if_not_P [OF False] m prod.case
      by (simp_all only: split: if_split_asm) simp_all
    show ?thesis
      unfolding add_code_point_def Let_def if_not_P [OF False] k(2)
      using m k(1) by (cases "lay = BRIDGE_LAYOUT_DE"; cases "de_dead_key cp") (simp_all add: z)
  qed
qed

lemma add_code_point_error:
  assumes "fresh_cells c" and "code_point_keys lay md fl cp = Inl e"
  shows "fst (add_code_point lay md fl c cp) = e" and "e \<noteq> BRIDGE_OK"
proof -
  have z: "strokes c (stroke_count c) = zero_stroke" using assms(1) by (simp add: fresh_cells_def)
  show "fst (add_code_point lay md fl c cp) = e" "e \<noteq> BRIDGE_OK"
    using assms(2)
    by (auto simp: code_point_keys_def add_code_point_def Let_def z split: if_splits prod.splits)
qed

subsection \<open>The loop on well-formed input\<close>

text \<open>
  The CR LF fold looks one byte ahead, so the loop can be cut after a prefix only where that
  prefix does not end in a carriage return before a line feed.
\<close>

definition clean_cut :: "u32 \<Rightarrow> u8 \<Rightarrow> bytes \<Rightarrow> nat \<Rightarrow> nat \<Rightarrow> u32 list \<Rightarrow> bool" where
  "clean_cut md fl input len off cps \<longleftrightarrow>
     \<not> (folds_crlf md fl \<and> cps \<noteq> [] \<and> last cps = 13 \<and> off < len \<and> input ! off = 10)"

lemma utf8_text_simps [simp]:
  "utf8_text [] = []" "utf8_text (c # cs) = utf8_encode (unat c) @ utf8_text cs"
  by (simp_all add: utf8_text_def)

lemma scalar_text_simps [simp]:
  "scalar_text []" "scalar_text (c # cs) \<longleftrightarrow> scalar_value (unat c) \<and> scalar_text cs"
  by (auto simp: scalar_text_def)

lemma reads_at_append:
  "reads_at input off (xs @ ys) \<longleftrightarrow> reads_at input off xs \<and> reads_at input (off + length xs) ys"
  by (induction xs arbitrary: off) auto

lemma utf8_encode_nonempty: "0 < length (utf8_encode n)"
  by (simp add: length_utf8_encode)

lemma decode_first:
  assumes "reads_at input off (utf8_encode (unat c))" and "scalar_value (unat c)"
    and "off + length (utf8_encode (unat c)) \<le> len"
  shows "decode_utf8 input len off = (BRIDGE_OK, off + length (utf8_encode (unat c)), c)"
proof -
  have "off < len" using assms(3) utf8_encode_nonempty [of "unat c"] by linarith
  then show ?thesis using assms by (simp add: decode_utf8_accepts accepts_def)
qed

lemma stage_loop_end: "len \<le> off \<Longrightarrow> stage_loop lay md fl input len off c = (BRIDGE_OK, c)"
  by (subst stage_loop.simps) simp

lemma stage_loop_step:
  assumes "off < len" and "decode_utf8 input len off = (BRIDGE_OK, off1, cp1)"
    and "fold_crlf md fl input len off1 cp1 = (off2, cp)" and "fresh_cells c"
  shows "stage_loop lay md fl input len off c =
    (case code_point_keys lay md fl cp of
       Inl e \<Rightarrow> core_reject c e
     | Inr ks \<Rightarrow> stage_loop lay md fl input len off2 (append_strokes c ks))"
proof (cases "code_point_keys lay md fl cp")
  case (Inl e)
  obtain d where d: "add_code_point lay md fl c cp = (e, d)" and e: "e \<noteq> BRIDGE_OK"
    using add_code_point_error [OF assms(4) Inl] by (cases "add_code_point lay md fl c cp") auto
  have "core_reject d e = core_reject c e"
    using add_code_point_ledger [OF d] by (auto simp: core_reject_def intro: core_terminate_cong)
  then show ?thesis using assms(1-3) Inl d e by (subst stage_loop.simps) simp
next
  case (Inr ks)
  show ?thesis using assms(1-3) Inr add_code_point_OK [OF assms(4) Inr]
    by (subst stage_loop.simps) simp
qed

lemma reject_append [simp]: "core_reject (append_strokes c ks) e = core_reject c e"
  by (auto simp: core_reject_def intro: core_terminate_cong)

lemma fold_crlf_no:
  "\<not> (folds_crlf md fl \<and> cp = 13 \<and> off < len \<and> input ! off = 10) \<Longrightarrow>
     fold_crlf md fl input len off cp = (off, cp)"
  by (auto simp: fold_crlf_def folds_crlf_def)

lemma fold_crlf_yes:
  "folds_crlf md fl \<Longrightarrow> off < len \<Longrightarrow> input ! off = 10 \<Longrightarrow>
     fold_crlf md fl input len off 13 = (Suc off, 10)"
  by (auto simp: fold_crlf_def folds_crlf_def)

text \<open>A line feed is the only scalar value whose encoding starts with the byte 10.\<close>

lemma reads_line_feed:
  fixes d :: u32
  assumes "reads_at input off (utf8_encode (unat d))" and "scalar_value (unat d)"
  shows "input ! off = 10 \<longleftrightarrow> d = 10"
proof (cases "unat d < 0x80")
  case True
  then have "input ! off = of_nat (unat d)" using assms(1) by (simp add: utf8_encode_def)
  then have "unat (input ! off) = unat d" using True
    by (simp only: unsigned_of_nat) (simp add: take_bit_nat_eq_self)
  then show ?thesis by (auto simp: word_unat_eq_iff)
next
  case False
  then have "\<not> unat (input ! off) < 128" using reads_at_lead [OF assms(2,1)] by linarith
  then show ?thesis using False by auto
qed

lemma clean_cut_tail: "clean_cut md fl input len off (c # d # cs) \<Longrightarrow> clean_cut md fl input len off (d # cs)"
  by (simp add: clean_cut_def)

lemma clean_cut_tail2: "clean_cut md fl input len off (c # d # cs) \<Longrightarrow> clean_cut md fl input len off cs"
  by (cases cs) (auto simp: clean_cut_def)

lemma stage_loop_single:
  assumes "reads_at input off (utf8_text [x])" and "scalar_text [x]"
    and "off' = off + length (utf8_text [x])" and "off' \<le> len"
    and "clean_cut md fl input len off' [x]" and "fresh_cells c"
  shows "stage_loop lay md fl input len off c =
    (case type_text lay md fl (fold_newlines (folds_crlf md fl) [x]) of
       Inl e \<Rightarrow> core_reject c e
     | Inr ks \<Rightarrow> stage_loop lay md fl input len off' (append_strokes c ks))"
proof -
  have p: "reads_at input off (utf8_encode (unat x))" "scalar_value (unat x)"
      "off' = off + length (utf8_encode (unat x))"
    using assms by simp_all
  have dec: "decode_utf8 input len off = (BRIDGE_OK, off', x)"
    using decode_first [OF p(1,2)] p(3) assms(4) by simp
  have l: "off < len" using p(3) utf8_encode_nonempty [of "unat x"] assms(4) by linarith
  have f: "fold_crlf md fl input len off' x = (off', x)"
    using assms(5) by (intro fold_crlf_no) (simp add: clean_cut_def)
  show ?thesis using assms(6) by (simp add: stage_loop_step [OF l dec f] split: sum.split)
qed

lemma stage_loop_text:
  assumes "reads_at input off (utf8_text cps)" and "scalar_text cps"
    and "off' = off + length (utf8_text cps)" and "off' \<le> len"
    and "clean_cut md fl input len off' cps" and "fresh_cells c"
  shows "stage_loop lay md fl input len off c =
    (case type_text lay md fl (fold_newlines (folds_crlf md fl) cps) of
       Inl e \<Rightarrow> core_reject c e
     | Inr ks \<Rightarrow> stage_loop lay md fl input len off' (append_strokes c ks))"
  using assms
proof (induction "folds_crlf md fl" cps arbitrary: off c rule: fold_newlines.induct)
  case (1 x d cs)
  let ?l = "length (utf8_encode (unat x))"
  let ?r = "reads_at input (off + ?l)"
  have rx: "reads_at input off (utf8_encode (unat x))" "?r (utf8_text (d # cs))"
    using "1.prems"(1) by (simp_all add: reads_at_append)
  have sx: "scalar_value (unat x)" "scalar_value (unat d)" "scalar_text (d # cs)"
    using "1.prems"(2) by simp_all
  have l: "off + ?l < len" "off < len"
    using "1.prems"(3,4) utf8_encode_nonempty [of "unat d"] utf8_encode_nonempty [of "unat x"]
    unfolding utf8_text_simps length_append by linarith+
  have rd: "?r (utf8_encode (unat d))" using rx(2) by (simp add: reads_at_append)
  have dec: "decode_utf8 input len off = (BRIDGE_OK, off + ?l, x)"
    using decode_first [OF rx(1) sx(1)] l(1) by simp
  note lf = reads_line_feed [OF rd sx(2)]
  show ?case
  proof (cases "folds_crlf md fl \<and> x = 13 \<and> d = 10")
    case True
    have n: "off + ?l + 1 + length (utf8_text cs) = off'" "?l = 1"
      using "1.prems"(3) True by (simp_all add: utf8_encode_def)
    have rc: "reads_at input (Suc (off + ?l)) (utf8_text cs)"
      using rx(2) True by (simp add: reads_at_append utf8_encode_def)
    have f: "fold_crlf md fl input len (off + ?l) x = (Suc (off + ?l), 10)"
      using fold_crlf_yes l(1) lf True by simp
    have IH: "stage_loop lay md fl input len (Suc (off + ?l)) e =
        (case type_text lay md fl (fold_newlines (folds_crlf md fl) cs) of
           Inl e' \<Rightarrow> core_reject e e'
         | Inr ks \<Rightarrow> stage_loop lay md fl input len off' (append_strokes e ks))" if "fresh_cells e" for e
      using "1.hyps"(1) [OF True rc] "1.prems"(2,4,5) n that
      by (simp add: clean_cut_tail2)
    show ?thesis
      unfolding stage_loop_step [OF l(2) dec f "1.prems"(6)]
      by (cases "code_point_keys lay md fl 10";
          cases "type_text lay md fl (fold_newlines (folds_crlf md fl) cs)")
        (use True IH "1.prems"(6) in \<open>simp_all add: append_strokes_fresh append_strokes_append\<close>)
  next
    case False
    have f: "fold_crlf md fl input len (off + ?l) x = (off + ?l, x)"
      using fold_crlf_no [of md fl x "off + ?l" len input] lf False by blast
    have IH: "stage_loop lay md fl input len (off + ?l) e =
        (case type_text lay md fl (fold_newlines (folds_crlf md fl) (d # cs)) of
           Inl e' \<Rightarrow> core_reject e e'
         | Inr ks \<Rightarrow> stage_loop lay md fl input len off' (append_strokes e ks))" if "fresh_cells e" for e
      using "1.hyps"(2) [OF False rx(2) sx(3)] "1.prems"(3,4) clean_cut_tail [OF "1.prems"(5)] that
      by (simp add: add.assoc)
    show ?thesis
      unfolding stage_loop_step [OF l(2) dec f "1.prems"(6)] fold_newlines.simps if_not_P [OF False]
      by (cases "code_point_keys lay md fl x";
          cases "type_text lay md fl (fold_newlines (folds_crlf md fl) (d # cs))")
        (use IH "1.prems"(6) in \<open>simp_all add: append_strokes_fresh append_strokes_append\<close>)
  qed
next
  case "2_1"
  then show ?case by simp
next
  case "2_2"
  then show ?case by (intro stage_loop_single) simp_all
qed

subsection \<open>The loop returns no success on anything else\<close>

lemma stage_loop_reads:
  "stage_loop lay md fl input len off c = (BRIDGE_OK, d) \<Longrightarrow> off \<le> len \<Longrightarrow>
     \<exists>cps. scalar_text cps \<and> reads_at input off (utf8_text cps) \<and> off + length (utf8_text cps) = len"
proof (induction lay md fl input len off c rule: stage_loop.induct)
  case (1 lay md fl input len off c)
  show ?case
  proof (cases "off < len")
    case False
    then show ?thesis using "1.prems"(2) by (intro exI [of _ "[]"]) simp
  next
    case True
    obtain st off1 cp1 where dec: "decode_utf8 input len off = (st, off1, cp1)" by (metis prod_cases3)
    obtain off2 cp where f: "fold_crlf md fl input len off1 cp1 = (off2, cp)" by fastforce
    obtain st' e where a: "add_code_point lay md fl c cp = (st', e)" by fastforce
    have ok: "st = BRIDGE_OK" "st' = BRIDGE_OK" "stage_loop lay md fl input len off2 e = (BRIDGE_OK, d)"
      using "1.prems"(1) True dec f a
      by (subst (asm) stage_loop.simps; force simp: core_reject_def split: if_splits)+
    have acc: "accepts input len off off1 (unat cp1)"
      using decode_utf8_accepts [OF True] dec ok(1) by simp
    have ge: "off1 \<le> off2" "off2 \<le> len" and eq: "off2 = off1 \<or> off2 = Suc off1 \<and> off1 < len \<and> input ! off1 = 10"
      using f acc by (auto simp: fold_crlf_def accepts_def split: if_splits)
    obtain cps where cps: "scalar_text cps" "reads_at input off2 (utf8_text cps)"
        "off2 + length (utf8_text cps) = len"
      using "1.IH" [OF True dec [symmetric] refl _ f [symmetric] a [symmetric] _ ok(3) ge(2)] ok(1,2)
      by auto
    show ?thesis
    proof (cases "off2 = off1")
      case same: True
      show ?thesis using cps acc same
        by (intro exI [of _ "cp1 # cps"]) (simp add: accepts_def reads_at_append)
    next
      case False
      have e10: "utf8_encode 10 = [10]" by (simp add: utf8_encode_def)
      show ?thesis using cps acc False eq
        by (intro exI [of _ "cp1 # 10 # cps"])
          (auto simp: accepts_def reads_at_append e10 scalar_value_def)
    qed
  qed
qed

text \<open>The first byte sequence that is no encoding of a scalar value stops the loop.\<close>

lemma stage_loop_malformed:
  assumes "off < len" and "\<nexists>off' n. accepts input len off off' n"
  shows "stage_loop lay md fl input len off c = core_reject c BRIDGE_ERR_UTF8"
proof -
  obtain st off1 cp1 where dec: "decode_utf8 input len off = (st, off1, cp1)" by (metis prod_cases3)
  have "st \<noteq> BRIDGE_OK" using assms(2) decode_utf8_accepts [OF assms(1)] dec by blast
  moreover from this have "st = BRIDGE_ERR_UTF8" using decode_utf8_status [OF dec] by simp
  ultimately show ?thesis using dec assms(1) by (subst stage_loop.simps) simp
qed

subsection \<open>The stage operation\<close>

text \<open>The guards of \<open>bridge_core_stage\<close> all passed, in one predicate.\<close>

definition stage_admits ::
  "bridge_core \<Rightarrow> u32 \<Rightarrow> u32 \<Rightarrow> u32 \<Rightarrow> u32 \<Rightarrow> u8 \<Rightarrow> nat \<Rightarrow> u32 \<Rightarrow> bool" where
  "stage_admits core own ident lay md fl len ttl \<longleftrightarrow>
     \<not> job_active core \<and> 0 < len \<and> len \<le> BRIDGE_MAX_INPUT_BYTES \<and> own \<noteq> 0 \<and> ident \<noteq> 0 \<and>
     (lay = BRIDGE_LAYOUT_US \<or> lay = BRIDGE_LAYOUT_DE) \<and>
     (md = BRIDGE_MODE_PASSWORD \<and> fl = 0 \<or>
      md = BRIDGE_MODE_TEXT \<and> fl AND NOT (BRIDGE_FLAG_ALLOW_LF OR BRIDGE_FLAG_ALLOW_TAB) = 0) \<and>
     ttl \<noteq> 0 \<and> ttl \<le> BRIDGE_MAX_TTL_MS \<and>
     \<not> replay_hit (replay core) 0 (replay_count core) own ident \<and>
     replay_count core \<noteq> BRIDGE_REPLAY_CAPACITY"

text \<open>The job just before the loop, and the staged job with its keys.\<close>

definition job_header ::
  "bridge_core \<Rightarrow> u32 \<Rightarrow> u32 \<Rightarrow> u32 \<Rightarrow> u32 \<Rightarrow> u8 \<Rightarrow> u32 \<Rightarrow> u32 \<Rightarrow> bridge_core" where
  "job_header core own ident lay md fl now ttl = (core_terminate core BRIDGE_STATE_EMPTY)
     \<lparr>core_owner := own, core_id := ident, core_layout := lay, core_mode := md,
      core_flags := fl, staged_at_ms := now, ttl_ms := ttl\<rparr>"

definition enter_ledger :: "bridge_core \<Rightarrow> u32 \<Rightarrow> u32 \<Rightarrow> bridge_core" where
  "enter_ledger core own ident = core\<lparr>
     replay := (replay core)(replay_count core := (own, ident)),
     replay_count := Suc (replay_count core), core_state := BRIDGE_STATE_STAGED\<rparr>"

definition staged_job ::
  "bridge_core \<Rightarrow> u32 \<Rightarrow> u32 \<Rightarrow> u32 \<Rightarrow> u32 \<Rightarrow> u8 \<Rightarrow> u32 \<Rightarrow> u32 \<Rightarrow> bridge_stroke list \<Rightarrow> bridge_core"
where
  "staged_job core own ident lay md fl now ttl ks =
     enter_ledger (append_strokes (job_header core own ident lay md fl now ttl) ks) own ident"

lemma job_header_fields [simp]:
  "replay_count (job_header c own ident lay md fl now ttl) = replay_count c"
  "replay (job_header c own ident lay md fl now ttl) = replay c"
  "stroke_count (job_header c own ident lay md fl now ttl) = 0"
  "cursor (job_header c own ident lay md fl now ttl) = 0"
  "core_owner (job_header c own ident lay md fl now ttl) = own"
  "core_id (job_header c own ident lay md fl now ttl) = ident"
  "staged_at_ms (job_header c own ident lay md fl now ttl) = now"
  "ttl_ms (job_header c own ident lay md fl now ttl) = ttl"
  "fresh_cells (job_header c own ident lay md fl now ttl)"
  by (simp_all add: job_header_def fresh_cells_def)

lemma enter_ledger_fields [simp]:
  "core_state (enter_ledger c own ident) = BRIDGE_STATE_STAGED"
  "replay_count (enter_ledger c own ident) = Suc (replay_count c)"
  "replay (enter_ledger c own ident) = (replay c)(replay_count c := (own, ident))"
  "core_owner (enter_ledger c own ident) = core_owner c" "core_id (enter_ledger c own ident) = core_id c"
  "staged_at_ms (enter_ledger c own ident) = staged_at_ms c" "ttl_ms (enter_ledger c own ident) = ttl_ms c"
  "stroke_count (enter_ledger c own ident) = stroke_count c" "cursor (enter_ledger c own ident) = cursor c"
  "strokes (enter_ledger c own ident) = strokes c" "pending (enter_ledger c own ident) = pending c"
  by (simp_all add: enter_ledger_def pending_def)

lemma bridge_core_stage_admitted:
  assumes "stage_admits core own ident lay md fl len ttl"
  shows "bridge_core_stage core own ident lay md fl (Some input) len now ttl =
    (case stage_loop lay md fl input len 0 (job_header core own ident lay md fl now ttl) of
       (st, d) \<Rightarrow> if st = BRIDGE_OK then (BRIDGE_OK, enter_ledger d own ident) else (st, d))"
proof -
  have md: "BRIDGE_MODE_PASSWORD \<noteq> BRIDGE_MODE_TEXT" by (simp add: consts_def)
  have g0: "\<not> (core_state core = BRIDGE_STATE_STAGED \<or> core_state core = BRIDGE_STATE_EXECUTING)"
    and g1: "\<not> (len = 0 \<or> BRIDGE_MAX_INPUT_BYTES < len)"
    and g2: "\<not> (Some input = None \<or> own = 0 \<or> ident = 0 \<or>
      (lay \<noteq> BRIDGE_LAYOUT_US \<and> lay \<noteq> BRIDGE_LAYOUT_DE) \<or>
      (md \<noteq> BRIDGE_MODE_PASSWORD \<and> md \<noteq> BRIDGE_MODE_TEXT) \<or> ttl = 0 \<or> BRIDGE_MAX_TTL_MS < ttl)"
    and g3: "\<not> (fl AND NOT (BRIDGE_FLAG_ALLOW_LF OR BRIDGE_FLAG_ALLOW_TAB) \<noteq> 0 \<or>
      (md = BRIDGE_MODE_PASSWORD \<and> fl \<noteq> 0))"
    and g4: "\<not> replay_hit (replay core) 0 (replay_count core) own ident"
    and g5: "replay_count core \<noteq> BRIDGE_REPLAY_CAPACITY"
    using assms md unfolding stage_admits_def job_active_def by (auto simp: not_le)
  show ?thesis
    unfolding bridge_core_stage_def Let_def if_not_P [OF g0] if_not_P [OF g1] if_not_P [OF g2]
      if_not_P [OF g3] core_terminate_simps if_not_P [OF g4] if_not_P [OF g5]
      job_header_def [symmetric] option.sel enter_ledger_def
    by (simp only: if_not_P not_not if_distrib split: prod.split if_split) auto
qed

text \<open>Every refusal before the loop: which status, in the order of the checks.\<close>

lemma bridge_core_stage_refused:
  assumes "\<not> stage_admits core own ident lay md fl len ttl"
  obtains (busy) "job_active core"
      "bridge_core_stage core own ident lay md fl (Some input) len now ttl = (BRIDGE_ERR_BUSY, core)"
  | (rejected) st where "\<not> job_active core" "st \<noteq> BRIDGE_OK"
      "st \<in> {BRIDGE_ERR_LIMIT, BRIDGE_ERR_ARGUMENT, BRIDGE_ERR_POLICY, BRIDGE_ERR_REPLAY}"
      "bridge_core_stage core own ident lay md fl (Some input) len now ttl = core_reject core st"
proof (cases "job_active core")
  case True
  then show ?thesis by (intro busy) (auto simp: bridge_core_stage_def job_active_def)
next
  case False
  have r: "core_reject (core_terminate core st') st = core_reject core st" for st st'
    by (simp add: core_reject_def)
  have t: "\<not> (core_state core = BRIDGE_STATE_STAGED \<or> core_state core = BRIDGE_STATE_EXECUTING)"
    using False by (simp add: job_active_def)
  let ?g1 = "len = 0 \<or> BRIDGE_MAX_INPUT_BYTES < len"
  let ?g2 = "(Some input :: bytes option) = None \<or> own = 0 \<or> ident = 0 \<or>
    (lay \<noteq> BRIDGE_LAYOUT_US \<and> lay \<noteq> BRIDGE_LAYOUT_DE) \<or>
    (md \<noteq> BRIDGE_MODE_PASSWORD \<and> md \<noteq> BRIDGE_MODE_TEXT) \<or> ttl = 0 \<or> BRIDGE_MAX_TTL_MS < ttl"
  let ?g3 = "fl AND NOT (BRIDGE_FLAG_ALLOW_LF OR BRIDGE_FLAG_ALLOW_TAB) \<noteq> 0 \<or>
    (md = BRIDGE_MODE_PASSWORD \<and> fl \<noteq> 0)"
  let ?g4 = "replay_hit (replay core) 0 (replay_count core) own ident"
  let ?g5 = "replay_count core = BRIDGE_REPLAY_CAPACITY"
  note defs = bridge_core_stage_def Let_def if_not_P [OF t] core_terminate_simps r
  have g: "?g1 \<or> ?g2 \<or> ?g3 \<or> ?g4 \<or> ?g5"
    using assms False unfolding stage_admits_def not_less [symmetric] neq0_conv [symmetric] by blast
  consider ?g1 | "\<not> ?g1" ?g2 | "\<not> ?g1" "\<not> ?g2" ?g3 | "\<not> ?g1" "\<not> ?g2" "\<not> ?g3" ?g4
    | "\<not> ?g1" "\<not> ?g2" "\<not> ?g3" "\<not> ?g4" ?g5 using g by argo
  then show ?thesis
  proof cases
    case 1
    show ?thesis
      by (rule rejected [of BRIDGE_ERR_LIMIT]) (simp_all only: False defs if_P [OF 1], simp_all)
  next
    case 2
    show ?thesis
      by (rule rejected [of BRIDGE_ERR_ARGUMENT])
        (simp_all only: False defs if_not_P [OF 2(1)] if_P [OF 2(2)], simp_all)
  next
    case 3
    show ?thesis
      by (rule rejected [of BRIDGE_ERR_POLICY])
        (simp_all only: False defs if_not_P [OF 3(1)] if_not_P [OF 3(2)] if_P [OF 3(3)], simp_all)
  next
    case 4
    show ?thesis
      by (rule rejected [of BRIDGE_ERR_REPLAY])
        (simp_all only: False defs if_not_P [OF 4(1)] if_not_P [OF 4(2)] if_not_P [OF 4(3)]
          if_P [OF 4(4)], simp_all)
  next
    case 5
    show ?thesis
      by (rule rejected [of BRIDGE_ERR_LIMIT])
        (simp_all only: False defs if_not_P [OF 5(1)] if_not_P [OF 5(2)] if_not_P [OF 5(3)]
          if_not_P [OF 5(4)] if_P [OF 5(5)], simp_all)
  qed
qed

lemma reads_at_take:
  assumes "len \<le> length input"
  shows "reads_at input 0 xs \<and> length xs = len \<longleftrightarrow> take len input = xs"
proof -
  have "off + length xs \<le> length input \<Longrightarrow>
      reads_at input off xs \<longleftrightarrow> take (length xs) (drop off input) = xs" for off
  proof (induction xs arbitrary: off)
    case (Cons x xs)
    then have "drop off input = input ! off # drop (Suc off) input"
      by (intro Cons_nth_drop_Suc [symmetric]) simp
    with Cons show ?case by simp
  qed simp
  from this [of 0] show ?thesis using assms by auto
qed

lemma code_point_keys_error:
  "code_point_keys lay md fl cp = Inl e \<Longrightarrow> e = BRIDGE_ERR_POLICY \<or> e = BRIDGE_ERR_UNSUPPORTED"
  by (auto simp: code_point_keys_def map_layout_def split: if_splits prod.splits
      dest: map_de_status map_ascii_status)

lemma type_text_error:
  "type_text lay md fl cps = Inl e \<Longrightarrow> e = BRIDGE_ERR_POLICY \<or> e = BRIDGE_ERR_UNSUPPORTED"
proof (induction cps)
  case (Cons cp cps)
  then show ?case
    by (cases "code_point_keys lay md fl cp"; cases "type_text lay md fl cps")
      (auto dest: code_point_keys_error)
qed simp

text \<open>
  The refinement: on an input of \<open>len\<close> readable bytes the operation succeeds exactly when
  its guards pass and the bytes are the UTF-8 form of a text that can be typed, and then the
  new state is the staged job of the specification.
\<close>

lemma stage_loop_iff:
  assumes "len \<le> length input" and "fresh_cells c"
  shows "stage_loop lay md fl input len 0 c = (BRIDGE_OK, d) \<longleftrightarrow>
    (\<exists>cps ks. take len input = utf8_text cps \<and> scalar_text cps \<and>
       type_text lay md fl (fold_newlines (folds_crlf md fl) cps) = Inr ks \<and>
       d = append_strokes c ks)" (is "?L \<longleftrightarrow> ?R")
proof -
  have run: "stage_loop lay md fl input len 0 c =
      (case type_text lay md fl (fold_newlines (folds_crlf md fl) cps) of
         Inl e \<Rightarrow> core_reject c e | Inr ks \<Rightarrow> (BRIDGE_OK, append_strokes c ks))"
    if t: "take len input = utf8_text cps" and s: "scalar_text cps" for cps
  proof -
    have r: "reads_at input 0 (utf8_text cps)" "length (utf8_text cps) = len"
      using t reads_at_take [OF assms(1)] by blast+
    have "clean_cut md fl input len len cps" by (simp add: clean_cut_def)
    from stage_loop_text [OF r(1) s, of len len md fl c lay, OF _ _ this assms(2)] show ?thesis
      using r(2) by (simp add: stage_loop_end split: sum.splits)
  qed
  show ?thesis
  proof
    assume ?L
    from stage_loop_reads [OF this] obtain cps where cps: "scalar_text cps"
        "take len input = utf8_text cps" using reads_at_take [OF assms(1)] by auto
    with run [OF cps(2,1)] \<open>?L\<close> obtain ks where
        "type_text lay md fl (fold_newlines (folds_crlf md fl) cps) = Inr ks" "d = append_strokes c ks"
      by (cases "type_text lay md fl (fold_newlines (folds_crlf md fl) cps)")
        (auto simp: core_reject_def dest: type_text_error)
    with cps show ?R by blast
  next
    assume ?R
    then show ?L using run by fastforce
  qed
qed

lemma stage_OK_iff:
  assumes "len \<le> length input"
  shows "bridge_core_stage core own ident lay md fl (Some input) len now ttl = (BRIDGE_OK, d) \<longleftrightarrow>
    stage_admits core own ident lay md fl len ttl \<and>
    (\<exists>cps ks. take len input = utf8_text cps \<and> scalar_text cps \<and>
       type_text lay md fl (fold_newlines (folds_crlf md fl) cps) = Inr ks \<and>
       d = staged_job core own ident lay md fl now ttl ks)"
proof (cases "stage_admits core own ident lay md fl len ttl")
  case True
  let ?h = "job_header core own ident lay md fl now ttl"
  have "bridge_core_stage core own ident lay md fl (Some input) len now ttl = (BRIDGE_OK, d) \<longleftrightarrow>
      (\<exists>b. stage_loop lay md fl input len 0 ?h = (BRIDGE_OK, b) \<and> d = enter_ledger b own ident)"
    unfolding bridge_core_stage_admitted [OF True]
    by (cases "stage_loop lay md fl input len 0 ?h") auto
  then show ?thesis
    unfolding stage_loop_iff [OF assms job_header_fields(9)] staged_job_def using True by blast
next
  case False
  then show ?thesis
    by (cases rule: bridge_core_stage_refused [of core own ident lay md fl len ttl input now, OF False])
      (auto simp: core_reject_def False)
qed

lemma stage_loop_error:
  "stage_loop lay md fl input len off c = (st, d) \<Longrightarrow> st \<noteq> BRIDGE_OK \<Longrightarrow> fresh_cells c \<Longrightarrow>
     d = core_terminate c BRIDGE_STATE_REJECTED \<and>
     st \<in> {BRIDGE_ERR_UTF8, BRIDGE_ERR_POLICY, BRIDGE_ERR_UNSUPPORTED}"
proof (induction lay md fl input len off c rule: stage_loop.induct)
  case (1 lay md fl input len off c)
  have lt: "off < len" using "1.prems"(1,2) by (cases "off < len") (simp_all add: stage_loop_end)
  obtain st1 off1 cp1 where dec: "decode_utf8 input len off = (st1, off1, cp1)" by (metis prod_cases3)
  obtain off2 cp where f: "fold_crlf md fl input len off1 cp1 = (off2, cp)" by fastforce
  show ?case
  proof (cases "st1 = BRIDGE_OK")
    case False
    then have "(st, d) = core_reject c st1" using "1.prems"(1) lt dec by (subst (asm) stage_loop.simps) simp
    then show ?thesis using decode_utf8_status [OF dec] False by (simp add: core_reject_def)
  next
    case True
    note step = stage_loop_step [OF lt dec [unfolded True] f "1.prems"(3)]
    show ?thesis
    proof (cases "code_point_keys lay md fl cp")
      case (Inl e)
      have "e \<in> {BRIDGE_ERR_POLICY, BRIDGE_ERR_UNSUPPORTED}"
        using code_point_keys_error [OF Inl] by blast
      then show ?thesis using step Inl "1.prems"(1) by (auto simp: core_reject_def)
    next
      case (Inr ks)
      have a: "add_code_point lay md fl c cp = (BRIDGE_OK, append_strokes c ks)"
        by (rule add_code_point_OK [OF "1.prems"(3) Inr])
      have "d = core_terminate (append_strokes c ks) BRIDGE_STATE_REJECTED \<and>
          st \<in> {BRIDGE_ERR_UTF8, BRIDGE_ERR_POLICY, BRIDGE_ERR_UNSUPPORTED}"
        using "1.IH" [OF lt dec [symmetric] refl _ f [symmetric] a [symmetric] _ _ "1.prems"(2)]
          step Inr "1.prems"(1) True append_strokes_fresh [OF "1.prems"(3)] by simp
      moreover have "core_terminate (append_strokes c ks) BRIDGE_STATE_REJECTED =
          core_terminate c BRIDGE_STATE_REJECTED" by (rule core_terminate_cong) simp_all
      ultimately show ?thesis by simp
    qed
  qed
qed

lemma bridge_core_stage_null:
  obtains (busy) "job_active core"
      "bridge_core_stage core own ident lay md fl None len now ttl = (BRIDGE_ERR_BUSY, core)"
  | (rejected) st where "\<not> job_active core" "st \<in> {BRIDGE_ERR_LIMIT, BRIDGE_ERR_ARGUMENT}"
      "bridge_core_stage core own ident lay md fl None len now ttl = core_reject core st"
  by (cases "job_active core"; cases "len = 0 \<or> BRIDGE_MAX_INPUT_BYTES < len")
    (auto simp: bridge_core_stage_def job_active_def Let_def core_reject_def)

text \<open>What a caller can see of any stage call, whatever the arguments.\<close>

lemma bridge_core_stage_cases:
  assumes "bridge_core_stage core own ident lay md fl utf8 len now ttl = (st, d)"
  obtains (busy) "st = BRIDGE_ERR_BUSY" "job_active core" "d = core"
  | (rejected) "st \<noteq> BRIDGE_OK" "st \<noteq> BRIDGE_ERR_BUSY" "\<not> job_active core"
      "d = core_terminate core BRIDGE_STATE_REJECTED"
  | (staged) input e where "st = BRIDGE_OK" "utf8 = Some input"
      "stage_admits core own ident lay md fl len ttl"
      "stage_loop lay md fl input len 0 (job_header core own ident lay md fl now ttl) = (BRIDGE_OK, e)"
      "d = enter_ledger e own ident"
proof (cases utf8)
  case None
  show ?thesis
  proof (cases rule: bridge_core_stage_null [of core own ident lay md fl len now ttl])
    case busy then show ?thesis using assms None by (intro that(1)) auto
  next
    case (rejected st') then show ?thesis using assms None by (intro that(2)) (auto simp: core_reject_def)
  qed
next
  case (Some input)
  show ?thesis
  proof (cases "stage_admits core own ident lay md fl len ttl")
    case False
    then show ?thesis
    proof (cases rule: bridge_core_stage_refused [of core own ident lay md fl len ttl input now])
      case busy then show ?thesis using assms Some by (intro that(1)) auto
    next
      case (rejected st') then show ?thesis using assms Some by (intro that(2)) (auto simp: core_reject_def)
    qed
  next
    case True
    let ?h = "job_header core own ident lay md fl now ttl"
    obtain st' e where e: "stage_loop lay md fl input len 0 ?h = (st', e)" by fastforce
    note run = bridge_core_stage_admitted [OF True, of input now, unfolded e prod.case]
    have na: "\<not> job_active core" using True by (simp add: stage_admits_def)
    show ?thesis
    proof (cases "st' = BRIDGE_OK")
      case ok: True
      show ?thesis using run assms Some e True ok by (intro that(3) [of input e]) auto
    next
      case False
      have t: "core_terminate ?h BRIDGE_STATE_REJECTED = core_terminate core BRIDGE_STATE_REJECTED"
        by (rule core_terminate_cong) simp_all
      show ?thesis using stage_loop_error [OF e False] run assms Some na False t
        by (intro that(2)) auto
    qed
  qed
qed

subsection \<open>What the strokes of a job are\<close>

lemma code_point_keys_length:
  "code_point_keys lay md fl cp = Inr ks \<Longrightarrow> length ks \<le> 2 \<and> ks \<noteq> []"
  by (auto simp: code_point_keys_def split: if_splits prod.splits)

lemma type_text_cons:
  "type_text lay md fl (cp # cps) = Inr ks \<longleftrightarrow>
     (\<exists>k r. code_point_keys lay md fl cp = Inr k \<and> type_text lay md fl cps = Inr r \<and> ks = k @ r)"
  by (cases "code_point_keys lay md fl cp"; cases "type_text lay md fl cps") auto

lemma type_text_length: "type_text lay md fl cps = Inr ks \<Longrightarrow> length ks \<le> 2 * length cps"
  by (induction cps arbitrary: ks) (fastforce simp: type_text_cons dest: code_point_keys_length simp del: type_text.simps(2))+

lemma fold_newlines_length: "length (fold_newlines on cps) \<le> length cps"
  by (induction on cps rule: fold_newlines.induct) auto

lemma utf8_text_length: "length cps \<le> length (utf8_text cps)"
proof (induction cps)
  case (Cons c cps)
  then show ?case using utf8_encode_nonempty [of "unat c"] unfolding utf8_text_simps length_append list.size
    by linarith
qed simp

lemma map_layout_hid: "map_layout lay cp s = (BRIDGE_OK, t) \<Longrightarrow> hid_range t"
  by (auto simp: map_layout_def split: if_splits dest: map_de_hid map_ascii_hid)

lemma code_point_keys_hid: "code_point_keys lay md fl cp = Inr ks \<Longrightarrow> \<forall>k \<in> set ks. hid_range k"
proof -
  have c: "hid_range \<lparr>modifier = 0, usage = 0x28\<rparr>" "hid_range \<lparr>modifier = 0, usage = 0x2b\<rparr>"
    "hid_range \<lparr>modifier = 0, usage = 44\<rparr>" by (simp_all add: hid_range_def)
  show "code_point_keys lay md fl cp = Inr ks \<Longrightarrow> \<forall>k \<in> set ks. hid_range k"
    by (auto simp: code_point_keys_def c split: if_splits prod.splits intro: map_layout_hid)
qed

lemma type_text_hid: "type_text lay md fl cps = Inr ks \<Longrightarrow> \<forall>k \<in> set ks. hid_range k"
  by (induction cps arbitrary: ks)
    (fastforce simp: type_text_cons dest: code_point_keys_hid simp del: type_text.simps(2))+

subsection \<open>The keys determine the text\<close>

lemma ascii_symbol_key_not_control: "ascii_symbol_key c m u \<Longrightarrow> u \<noteq> 0x28 \<and> u \<noteq> 0x2b"
proof -
  have "\<forall>u \<in> set ascii_usages. u \<noteq> 0x28 \<and> u \<noteq> 0x2b" by (simp add: ascii_usages_def)
  moreover have "ascii_symbol_key c m u \<Longrightarrow> u \<in> set ascii_usages"
    by (auto simp: ascii_symbol_key_def dest: set_zip_rightD)
  ultimately show "ascii_symbol_key c m u \<Longrightarrow> u \<noteq> 0x28 \<and> u \<noteq> 0x2b" by blast
qed

lemma map_ascii_not_control: "map_ascii c s = (BRIDGE_OK, t) \<Longrightarrow> usage t \<noteq> 0x28 \<and> usage t \<noteq> 0x2b"
  by (erule map_ascii_cases) (auto dest: ascii_symbol_key_not_control)

lemma map_layout_not_control:
  assumes "map_layout lay c s = (BRIDGE_OK, t)"
  shows "usage t \<noteq> 0x28 \<and> usage t \<noteq> 0x2b"
proof (cases "lay = BRIDGE_LAYOUT_DE")
  case False
  then show ?thesis using assms map_ascii_not_control by (simp add: map_layout_def)
next
  case True
  have "\<forall>k \<in> set (map snd de_table). snd k \<noteq> 0x28 \<and> snd k \<noteq> 0x2b"
    by (simp add: de_table_def de_tables)
  moreover have "k \<in> set (map snd de_table)" if "map_of de_table c = Some k" for k
    using that by (force dest: map_of_SomeD)
  ultimately show ?thesis using assms True
    by (auto simp: map_layout_def map_de_table stroke_of_def split: option.splits
        dest: map_ascii_not_control)
qed

lemma map_layout_inject:
  "map_layout lay c s = (BRIDGE_OK, t) \<Longrightarrow> map_layout lay c' s' = (BRIDGE_OK, t) \<Longrightarrow> c = c'"
  by (auto simp: map_layout_def split: if_splits intro: map_de_inject map_ascii_inject)

lemma code_point_keys_cases:
  assumes "code_point_keys lay md fl c = Inr ks"
  obtains (line_feed) "c = 10" "ks = [\<lparr>modifier = 0, usage = 0x28\<rparr>]"
  | (tab) "c = 9" "ks = [\<lparr>modifier = 0, usage = 0x2b\<rparr>]"
  | (key) t r where "map_layout lay c zero_stroke = (BRIDGE_OK, t)" "ks = t # r"
  using assms
  by (auto simp: code_point_keys_def control_allowed_def split: if_splits prod.splits)

lemma code_point_keys_head:
  assumes "code_point_keys lay md fl c = Inr (k # r)" and "code_point_keys lay md fl c' = Inr (k # r')"
  shows "c = c'"
  using assms(1)
proof (cases rule: code_point_keys_cases)
  case line_feed
  from assms(2) show ?thesis
    by (cases rule: code_point_keys_cases) (use line_feed in \<open>auto dest: map_layout_not_control\<close>)
next
  case tab
  from assms(2) show ?thesis
    by (cases rule: code_point_keys_cases) (use tab in \<open>auto dest: map_layout_not_control\<close>)
next
  case (key t r)
  from assms(2) show ?thesis
    by (cases rule: code_point_keys_cases)
      (use key in \<open>auto dest: map_layout_not_control intro: map_layout_inject\<close>)
qed

lemma type_text_inject:
  "type_text lay md fl cps = Inr ks \<Longrightarrow> type_text lay md fl cps' = Inr ks \<Longrightarrow> cps = cps'"
proof (induction cps arbitrary: cps' ks)
  case Nil
  then show ?case
    by (cases cps') (auto simp: type_text_cons dest: code_point_keys_length simp del: type_text.simps(2))
next
  case (Cons c cps)
  then obtain k r where k: "code_point_keys lay md fl c = Inr k" "type_text lay md fl cps = Inr r" "ks = k @ r"
    by (auto simp: type_text_cons simp del: type_text.simps(2))
  have "k \<noteq> []" using code_point_keys_length [OF k(1)] by blast
  then obtain c' cps2 where c': "cps' = c' # cps2"
    using Cons.prems(2) k(3) by (cases cps') auto
  obtain k' r' where k': "code_point_keys lay md fl c' = Inr k'" "type_text lay md fl cps2 = Inr r'" "ks = k' @ r'"
    using Cons.prems(2) c' by (auto simp: type_text_cons simp del: type_text.simps(2))
  have "k' \<noteq> []" using code_point_keys_length [OF k'(1)] by blast
  then have "hd k' = hd k" using k(3) k'(3) \<open>k \<noteq> []\<close> by (metis hd_append2)
  then have "c = c'"
    using k(1) k'(1) \<open>k \<noteq> []\<close> \<open>k' \<noteq> []\<close> by (metis code_point_keys_head list.collapse)
  with k k' have "r = r'" by simp
  with Cons.IH [OF k(2)] k'(2) \<open>c = c'\<close> c' show ?case by simp
qed

subsection \<open>No byte past the length is read\<close>

lemma fold_crlf_local:
  "\<forall>i<len. a ! i = b ! i \<Longrightarrow> fold_crlf md fl a len off cp = fold_crlf md fl b len off cp"
  by (simp add: fold_crlf_def cong: conj_cong)

lemma stage_loop_local:
  assumes "\<forall>i<len. a ! i = b ! i"
  shows "stage_loop lay md fl a len off c = stage_loop lay md fl b len off c"
  using assms
proof (induction lay md fl a len off c rule: stage_loop.induct)
  case (1 lay md fl a len off c)
  show ?case
  proof (cases "off < len")
    case True
    note d = decode_utf8_local [OF "1.prems" True]
    note IH = "1.IH" [OF True _ refl _ _ _ _ "1.prems"]
    show ?thesis
      unfolding stage_loop.simps [of lay md fl a len off c] stage_loop.simps [of lay md fl b len off c]
        if_P [OF True] d fold_crlf_local [OF "1.prems"]
      using IH
      by (simp add: d fold_crlf_local [OF "1.prems"] split: prod.split)
  qed (simp add: stage_loop_end)
qed

subsection \<open>Every write of the loop is inside the stroke array\<close>

text \<open>
  The states the loop passes through: \<open>stage_iter\<close> follows its iterations from the
  start, so a statement about every iteration can be proved by rule induction.
\<close>

inductive stage_iter ::
  "u32 \<Rightarrow> u32 \<Rightarrow> u8 \<Rightarrow> bytes \<Rightarrow> nat \<Rightarrow> bridge_core \<Rightarrow> nat \<Rightarrow> bridge_core \<Rightarrow> bool"
  for lay md fl input len c0 where
  start: "stage_iter lay md fl input len c0 0 c0"
| iterate: "stage_iter lay md fl input len c0 off c \<Longrightarrow> off < len \<Longrightarrow>
    decode_utf8 input len off = (BRIDGE_OK, off1, cp1) \<Longrightarrow>
    fold_crlf md fl input len off1 cp1 = (off2, cp) \<Longrightarrow>
    add_code_point lay md fl c cp = (BRIDGE_OK, d) \<Longrightarrow>
    stage_iter lay md fl input len c0 off2 d"

lemma stage_iter_loop:
  "stage_iter lay md fl input len c0 off c \<Longrightarrow>
     stage_loop lay md fl input len 0 c0 = stage_loop lay md fl input len off c"
proof (induction rule: stage_iter.induct)
  case (iterate off c off1 cp1 off2 cp d)
  then show ?case by (simp add: stage_loop.simps [of lay md fl input len off c])
qed simp

lemma add_code_point_count:
  assumes "add_code_point lay md fl c cp = (st, d)"
  shows "stroke_count c < stroke_count d" "stroke_count d \<le> stroke_count c + 2"
    "stroke_count d \<le> i \<Longrightarrow> strokes d i = strokes c i"
  using assms by (auto simp: add_code_point_def Let_def split: if_splits prod.splits)

lemma stage_iter_count:
  "stage_iter lay md fl input len c0 off c \<Longrightarrow> stroke_count c0 = 0 \<Longrightarrow> stroke_count c \<le> 2 * off"
proof (induction rule: stage_iter.induct)
  case (iterate off c off1 cp1 off2 cp d)
  have "off < off2"
    using decode_utf8_advances [OF iterate.hyps(3)] iterate.hyps(4)
      fold_crlf_advances [of off1 md fl input len cp1] by simp
  with iterate.IH iterate.prems add_code_point_count(2) [OF iterate.hyps(5)] show ?case by linarith
qed simp

subsection \<open>Properties\<close>

text \<open>C4: staging refines its specification. For a buffer of at least \<open>len\<close> bytes the stage
  operation succeeds exactly when the slot is free, the arguments and flags are admissible, the
  identifier is new and the ledger not full, and the first \<open>len\<close> bytes are the UTF-8 form of
  code points that can all be typed in the layout (after folding CR LF where line feeds are
  allowed). Then the new state is the job of the specification: its keys are those of the text,
  in order, nothing else is kept, and the identifier is entered into the ledger.\<close>

theorem stage_refines_text_spec:
  assumes "len \<le> length input"
  shows "bridge_core_stage core own ident lay md fl (Some input) len now ttl = (BRIDGE_OK, d) \<longleftrightarrow>
    stage_admits core own ident lay md fl len ttl \<and>
    (\<exists>cps ks. take len input = utf8_text cps \<and> scalar_text cps \<and>
       type_text lay md fl (fold_newlines (folds_crlf md fl) cps) = Inr ks \<and>
       d = staged_job core own ident lay md fl now ttl ks)"
  by (rule stage_OK_iff [OF assms])

text \<open>The witness stages the German text \<^verbatim>\<open>z^\<close>: the key of y, then the dead key and a space.\<close>

theorem stage_refines_text_spec_witness:
  "bridge_core_stage bridge_core_init 1 7 BRIDGE_LAYOUT_DE BRIDGE_MODE_PASSWORD 0
     (Some [122, 94, 0]) 2 5 1000 =
   (BRIDGE_OK, staged_job bridge_core_init 1 7 BRIDGE_LAYOUT_DE BRIDGE_MODE_PASSWORD 0 5 1000
     [\<lparr>modifier = 0, usage = 28\<rparr>, \<lparr>modifier = 0, usage = 53\<rparr>, \<lparr>modifier = 0, usage = 44\<rparr>])"
proof -
  let ?ks = "[\<lparr>modifier = 0, usage = 28\<rparr>, \<lparr>modifier = 0, usage = 53\<rparr>, \<lparr>modifier = 0, usage = 44\<rparr>]"
  have b: "(2::nat) \<le> length [122 :: u8, 94, 0]" by simp
  have a: "stage_admits bridge_core_init 1 7 BRIDGE_LAYOUT_DE BRIDGE_MODE_PASSWORD 0 2 1000"
    by (simp add: stage_admits_def consts_def bridge_core_init_def job_active_def)
  have t: "take 2 [122 :: u8, 94, 0] = utf8_text [122, 94]" "scalar_text [122, 94]"
    by (simp_all add: utf8_encode_def scalar_value_def)
  have z: "map_layout BRIDGE_LAYOUT_DE 122 zero_stroke = (BRIDGE_OK, \<lparr>modifier = 0, usage = 28\<rparr>)"
    "map_layout BRIDGE_LAYOUT_DE 94 zero_stroke = (BRIDGE_OK, \<lparr>modifier = 0, usage = 53\<rparr>)"
    by (simp_all add: map_layout_def map_de_def de_tables swap_yz_def map_ascii_def Let_def
        zero_stroke_def stroke_of_def)
  have k: "type_text BRIDGE_LAYOUT_DE BRIDGE_MODE_PASSWORD 0
      (fold_newlines (folds_crlf BRIDGE_MODE_PASSWORD 0) [122, 94]) = Inr ?ks"
    using z by (simp add: code_point_keys_def de_dead_key_def)
  show ?thesis
    unfolding stage_refines_text_spec [OF b] using a t k by blast
qed

text \<open>C10: typing loses nothing. Two texts staged in the same layout, mode and flags that give the
  same keys are the same text, up to CR LF counting as LF where line feeds are allowed.\<close>

theorem staged_keys_determine_text:
  assumes "bridge_core_stage c1 own1 id1 lay md fl (Some input1) len1 now1 ttl1 = (BRIDGE_OK, d1)"
    and "bridge_core_stage c2 own2 id2 lay md fl (Some input2) len2 now2 ttl2 = (BRIDGE_OK, d2)"
    and "len1 \<le> length input1" and "len2 \<le> length input2" and "pending d1 = pending d2"
  shows "\<exists>cps1 cps2. take len1 input1 = utf8_text cps1 \<and> take len2 input2 = utf8_text cps2 \<and>
    fold_newlines (folds_crlf md fl) cps1 = fold_newlines (folds_crlf md fl) cps2"
proof -
  have p: "pending (staged_job c own ident lay md fl now ttl ks) = ks" for c own ident now ttl ks
    by (simp add: staged_job_def append_strokes_pending) (simp add: pending_def)
  from assms(1,2) [unfolded stage_OK_iff [OF assms(3)] stage_OK_iff [OF assms(4)]] assms(5) show ?thesis
    by (fastforce simp: p dest: type_text_inject)
qed

theorem staged_keys_determine_text_witness:
  "\<exists>cps1 cps2. take 1 [0x61] = utf8_text cps1 \<and> take 1 [0x61, 0x62] = utf8_text cps2 \<and>
    fold_newlines (folds_crlf BRIDGE_MODE_TEXT 0) cps1 = fold_newlines (folds_crlf BRIDGE_MODE_TEXT 0) cps2"
proof -
  let ?c = bridge_core_init and ?k = "[\<lparr>modifier = 0, usage = 4\<rparr>]"
  have s: "bridge_core_stage ?c 1 7 BRIDGE_LAYOUT_US BRIDGE_MODE_TEXT 0 (Some input) 1 5 1000 =
      (BRIDGE_OK, staged_job ?c 1 7 BRIDGE_LAYOUT_US BRIDGE_MODE_TEXT 0 5 1000 ?k)"
    if "1 \<le> length input" "take 1 input = [0x61]" for input
  proof -
    have "map_layout BRIDGE_LAYOUT_US 97 zero_stroke = (BRIDGE_OK, \<lparr>modifier = 0, usage = 4\<rparr>)"
      by (simp add: map_layout_def map_ascii_def Let_def zero_stroke_def consts_def)
    then have "type_text BRIDGE_LAYOUT_US BRIDGE_MODE_TEXT 0 (fold_newlines on [97]) = Inr ?k" for on
      by (simp add: code_point_keys_def) (simp add: consts_def)
    moreover have "take 1 input = utf8_text [97]" "scalar_text [97]"
      using that(2) by (simp_all add: utf8_encode_def scalar_value_def)
    moreover have "stage_admits ?c 1 7 BRIDGE_LAYOUT_US BRIDGE_MODE_TEXT 0 1 1000"
      by (simp add: stage_admits_def consts_def bridge_core_init_def job_active_def)
    ultimately show ?thesis unfolding stage_OK_iff [OF that(1)] by blast
  qed
  show ?thesis
    by (rule staged_keys_determine_text [OF s s]) simp_all
qed

text \<open>The stage operation reads no byte past the length it is given: two buffers that agree
  below the length give the same status and the same core.\<close>

lemma stage_reads_within_length:
  assumes "\<forall>i<len. a ! i = b ! i"
  shows "bridge_core_stage core own ident lay md fl (Some a) len now ttl =
    bridge_core_stage core own ident lay md fl (Some b) len now ttl"
  using stage_loop_local [OF assms] by (simp add: bridge_core_stage_def Let_def)

text \<open>No write of the staging loop leaves the stroke array. In every iteration, for an input
  of admissible length, the strokes written (at most two, also when the code point is then refused)
  lie below \<^const>\<open>BRIDGE_MAX_STROKES\<close>, and no element at or above it changes.\<close>

lemma stage_writes_in_bounds:
  assumes "stage_iter lay md fl input len (job_header core own ident lay md fl now ttl) off c"
    and "off < len" and "len \<le> BRIDGE_MAX_INPUT_BYTES"
    and "add_code_point lay md fl c cp = (st, d)"
  shows "stroke_count d \<le> BRIDGE_MAX_STROKES \<and> (\<forall>i\<ge>BRIDGE_MAX_STROKES. strokes d i = strokes c i)"
proof -
  have "stroke_count c \<le> 2 * off" using stage_iter_count [OF assms(1)] by simp
  with add_code_point_count [OF assms(4)] assms(2,3) show ?thesis
    by (simp add: BRIDGE_MAX_STROKES_def)
qed

end
