(* ===== verification/Core_Protocol.thy ===== *)
theory Core_Protocol
  imports Core_Text
begin

section \<open>The protocol of the core: stage, confirm, drain\<close>

text \<open>
  The operations of the core as one machine, the abstract protocol it implements, and what
  follows for any sequence of calls: the invariant of the structure, replay protection,
  delivery in order, and that no key leaves the device without a staged and confirmed job.
\<close>

subsection \<open>The machine\<close>

text \<open>
  One constructor per entry point that changes the core. \<open>Op_Stage\<close> passes a buffer with its
  own length, as all callers in the firmware do.
\<close>

datatype core_op =
    Op_Stage u32 u32 u32 u32 u8 bytes u32 u32
  | Op_Confirm u32 u32 u32
  | Op_Next u32
  | Op_Tick u32
  | Op_Cancel u32 u32
  | Op_Abort

text \<open>A result is the returned status and the stroke buffer (wiped where there is none).\<close>

type_synonym core_result = "bridge_status \<times> bridge_stroke"

fun core_step :: "core_op \<Rightarrow> bridge_core \<Rightarrow> core_result \<times> bridge_core" where
  "core_step (Op_Stage own ident lay md fl input now ttl) c =
     (case bridge_core_stage c own ident lay md fl (Some input) (length input) now ttl of
        (st, d) \<Rightarrow> ((st, zero_stroke), d))"
| "core_step (Op_Confirm own ident now) c =
     (case bridge_core_confirm c own ident now of (st, d) \<Rightarrow> ((st, zero_stroke), d))"
| "core_step (Op_Next now) c = (case bridge_core_next c now of (st, d, s) \<Rightarrow> ((st, s), d))"
| "core_step (Op_Tick now) c = (case bridge_core_tick c now of (st, d) \<Rightarrow> ((st, zero_stroke), d))"
| "core_step (Op_Cancel own ident) c =
     (case bridge_core_cancel c own ident of (st, d) \<Rightarrow> ((st, zero_stroke), d))"
| "core_step Op_Abort c = ((BRIDGE_OK, zero_stroke), bridge_core_abort c)"

subsection \<open>The invariant of the structure\<close>

definition ledger :: "bridge_core \<Rightarrow> (u32 \<times> u32) list" where
  "ledger c = map (replay c) [0..<replay_count c]"

definition core_ok :: "bridge_core \<Rightarrow> bool" where
  "core_ok c \<longleftrightarrow>
     replay_count c \<le> BRIDGE_REPLAY_CAPACITY \<and> distinct (ledger c) \<and>
     (if job_active c then
        core_owner c \<noteq> 0 \<and> core_id c \<noteq> 0 \<and> (core_owner c, core_id c) \<in> set (ledger c) \<and>
        ttl_ms c \<noteq> 0 \<and> ttl_ms c \<le> BRIDGE_MAX_TTL_MS \<and>
        cursor c \<le> stroke_count c \<and> 0 < stroke_count c \<and> stroke_count c \<le> BRIDGE_MAX_STROKES \<and>
        (core_state c = BRIDGE_STATE_STAGED \<longrightarrow> cursor c = 0) \<and>
        (\<forall>i<cursor c. strokes c i = zero_stroke) \<and> fresh_cells c \<and>
        (\<forall>k \<in> set (pending c). hid_range k)
      else job_wiped c)"

lemma replay_hit_ledger:
  "replay_hit (replay c) 0 (replay_count c) own ident \<longleftrightarrow> (own, ident) \<in> set (ledger c)"
proof -
  have "(own, ident) \<in> set (ledger c) \<longleftrightarrow> (\<exists>j. j < replay_count c \<and> replay c j = (own, ident))"
    by (simp only: ledger_def set_map set_upt image_iff Bex_def atLeastLessThan_iff
        eq_commute [of "(own, ident)"]) simp
  then show ?thesis by (simp only: replay_hit_iff) simp
qed

lemma ledger_cong: "replay_count c = replay_count d \<Longrightarrow> replay c = replay d \<Longrightarrow> ledger c = ledger d"
  by (simp add: ledger_def)

lemma ledger_simps [simp]:
  "ledger (core_terminate c st) = ledger c" "ledger (append_strokes c ks) = ledger c"
  "ledger (put_stroke c i s) = ledger c"
  "ledger (job_header c own ident lay md fl now ttl) = ledger c"
  "ledger (c\<lparr>core_state := st\<rparr>) = ledger c" "ledger (c\<lparr>cursor := n\<rparr>) = ledger c"
  "length (ledger c) = replay_count c" "ledger bridge_core_init = []"
  by (simp_all add: ledger_def)

lemma ledger_enter [simp]: "ledger (enter_ledger c own ident) = ledger c @ [(own, ident)]"
  by (simp add: ledger_def)

lemma job_active_simps [simp]:
  "job_active (c\<lparr>core_state := BRIDGE_STATE_EXECUTING\<rparr>)" "job_active (enter_ledger c own ident)"
  "st \<notin> {BRIDGE_STATE_STAGED, BRIDGE_STATE_EXECUTING} \<Longrightarrow> \<not> job_active (core_terminate c st)"
  "job_active (put_stroke c i s) = job_active c" "job_active (c\<lparr>cursor := n\<rparr>) = job_active c"
  by (simp_all add: job_active_def)

lemma core_ok_init: "core_ok bridge_core_init"
  by (simp add: core_ok_def job_active_def)

lemma core_ok_terminate:
  "core_ok c \<Longrightarrow> st \<notin> {BRIDGE_STATE_STAGED, BRIDGE_STATE_EXECUTING} \<Longrightarrow> core_ok (core_terminate c st)"
  by (simp add: core_ok_def)

lemma pending_simps:
  assumes "cursor c < stroke_count c"
  shows "pending c = strokes c (cursor c) # pending ((put_stroke c (cursor c) s)\<lparr>cursor := Suc (cursor c)\<rparr>)"
  using assms by (simp add: pending_def upt_conv_Cons)

lemma pending_state [simp]: "pending (c\<lparr>core_state := st\<rparr>) = pending c"
  by (simp add: pending_def)

text \<open>The staged job of the specification satisfies the invariant.\<close>

lemma staged_job_fields [simp]:
  "core_state (staged_job c own ident lay md fl now ttl ks) = BRIDGE_STATE_STAGED"
  "core_owner (staged_job c own ident lay md fl now ttl ks) = own"
  "core_id (staged_job c own ident lay md fl now ttl ks) = ident"
  "staged_at_ms (staged_job c own ident lay md fl now ttl ks) = now"
  "ttl_ms (staged_job c own ident lay md fl now ttl ks) = ttl"
  "stroke_count (staged_job c own ident lay md fl now ttl ks) = length ks"
  "cursor (staged_job c own ident lay md fl now ttl ks) = 0"
  "replay_count (staged_job c own ident lay md fl now ttl ks) = Suc (replay_count c)"
  "ledger (staged_job c own ident lay md fl now ttl ks) = ledger c @ [(own, ident)]"
  "job_active (staged_job c own ident lay md fl now ttl ks)"
  by (simp_all add: staged_job_def)

lemma staged_job_pending [simp]: "pending (staged_job c own ident lay md fl now ttl ks) = ks"
  by (simp add: staged_job_def append_strokes_pending) (simp add: pending_def)

lemma staged_job_fresh: "fresh_cells (staged_job c own ident lay md fl now ttl ks)"
  using append_strokes_fresh [OF job_header_fields(9)] by (simp add: staged_job_def fresh_cells_def)

lemma staged_job_ok:
  assumes "core_ok c" and "stage_admits c own ident lay md fl len ttl"
    and "len = length (utf8_text cps)"
    and "type_text lay md fl (fold_newlines (folds_crlf md fl) cps) = Inr ks"
  shows "core_ok (staged_job c own ident lay md fl now ttl ks)"
proof -
  have len: "length ks \<le> BRIDGE_MAX_STROKES"
    using type_text_length [OF assms(4)] fold_newlines_length [of "folds_crlf md fl" cps]
      utf8_text_length [of cps] assms(2,3) by (simp add: stage_admits_def BRIDGE_MAX_STROKES_def)
  have ne: "ks \<noteq> []"
  proof
    assume "ks = []"
    moreover have "fold_newlines (folds_crlf md fl) cps \<noteq> []" if "cps \<noteq> []"
      using that by (induction "folds_crlf md fl" cps rule: fold_newlines.induct) simp_all
    moreover have "cps \<noteq> []" using assms(2,3) by (auto simp: stage_admits_def)
    ultimately show False using assms(4)
      by (cases "fold_newlines (folds_crlf md fl) cps")
        (auto simp: type_text_cons dest: code_point_keys_length simp del: type_text.simps(2))
  qed
  have "replay_count c < BRIDGE_REPLAY_CAPACITY" "(own, ident) \<notin> set (ledger c)"
    using assms(1,2) by (auto simp: core_ok_def stage_admits_def replay_hit_ledger)
  then show ?thesis using assms(1,2) len ne type_text_hid [OF assms(4)] staged_job_fresh
    by (simp add: core_ok_def stage_admits_def)
qed

text \<open>A successful stage call in the terms of the specification, for a buffer with its length.\<close>

lemma stage_buffer_OK:
  assumes "bridge_core_stage c own ident lay md fl (Some input) (length input) now ttl = (BRIDGE_OK, d)"
  obtains cps ks where "stage_admits c own ident lay md fl (length input) ttl"
    "input = utf8_text cps" "scalar_text cps"
    "type_text lay md fl (fold_newlines (folds_crlf md fl) cps) = Inr ks"
    "d = staged_job c own ident lay md fl now ttl ks"
  using assms unfolding stage_OK_iff [OF order_refl] by auto

lemma core_ok_stage:
  assumes "core_ok c"
    and "bridge_core_stage c own ident lay md fl (Some input) (length input) now ttl = (st, d)"
  shows "core_ok d"
  using assms(2)
proof (cases rule: bridge_core_stage_cases)
  case busy
  then show ?thesis using assms(1) by simp
next
  case rejected
  then show ?thesis using assms(1) by (simp add: core_ok_terminate)
next
  case (staged i e)
  show ?thesis
    using assms(2) unfolding staged(1)
    by (rule stage_buffer_OK) (use assms(1) staged_job_ok in blast)
qed

lemma core_ok_next:
  assumes "core_ok c" and "bridge_core_next c now = (st, d, s)"
  shows "core_ok d"
  using assms(2)
proof (cases rule: bridge_core_next_cases)
  case ok
  have act: "job_active c" using ok(2) by (simp add: job_active_def)
  then have lt: "cursor c < stroke_count c" using assms(1) ok(3) by (simp add: core_ok_def)
  have "set (pending d) \<subseteq> set (pending c)"
    unfolding ok(4) pending_simps [OF lt, of zero_stroke] by auto
  moreover have "\<forall>i<cursor d. strokes d i = zero_stroke" "fresh_cells d"
    using assms(1) act by (auto simp: ok(4) core_ok_def fresh_cells_def less_Suc_eq)
  ultimately show ?thesis using assms(1) act lt ok(2)
    by (simp add: ok(4) core_ok_def) blast
qed (use assms(1) in \<open>simp_all add: core_ok_terminate\<close>)

lemma core_ok_step:
  assumes "core_ok c"
  shows "core_ok (snd (core_step x c))"
proof (cases x)
  case (Op_Stage own ident lay md fl input now ttl)
  then show ?thesis
    using core_ok_stage [OF assms] by (simp split: prod.split)
next
  case (Op_Confirm own ident now)
  obtain st d where e: "bridge_core_confirm c own ident now = (st, d)" by fastforce
  have "core_ok d"
  proof (cases "st = BRIDGE_OK")
    case True
    then show ?thesis using e assms
      by (auto simp: bridge_core_confirm_OK core_ok_def job_active_def fresh_cells_def)
  next
    case False
    then show ?thesis using bridge_core_confirm_error [OF e] assms by (auto simp: core_ok_terminate)
  qed
  then show ?thesis using e Op_Confirm by simp
next
  case (Op_Next now)
  then show ?thesis using core_ok_next [OF assms] by (simp split: prod.split)
next
  case (Op_Tick now)
  then show ?thesis using assms
    by (cases rule: bridge_core_tick_cases [of c now]) (simp_all add: core_ok_terminate)
next
  case (Op_Cancel own ident)
  obtain st d where e: "bridge_core_cancel c own ident = (st, d)" by fastforce
  then have "core_ok d" using assms
    by (cases rule: bridge_core_cancel_cases) (auto simp: core_ok_terminate)
  then show ?thesis using e Op_Cancel by simp
next
  case Op_Abort
  then show ?thesis using assms by (simp add: bridge_core_abort_def core_ok_terminate)
qed

interpretation core: guarded_machine core_step core_ok
  by unfold_locales (rule core_ok_step)

subsection \<open>The abstract protocol\<close>

text \<open>
  What a user of the core may rely on: a ledger of the identifiers ever staged and at most one
  job, which waits for its confirmation or is being typed. Arrays, cursor and wiping are gone.
\<close>

datatype job_spec =
    No_Job bridge_state
  | Waiting u32 u32 u32 u32 "bridge_stroke list"
  | Typing u32 u32 "bridge_stroke list"

type_synonym protocol = "(u32 \<times> u32) list \<times> job_spec"

text \<open>The keys a buffer stands for.\<close>

definition text_keys ::
  "u32 \<Rightarrow> u32 \<Rightarrow> u8 \<Rightarrow> bytes \<Rightarrow> bridge_stroke list \<Rightarrow> bool" where
  "text_keys lay md fl input ks \<longleftrightarrow> (\<exists>cps. input = utf8_text cps \<and> scalar_text cps \<and>
     type_text lay md fl (fold_newlines (folds_crlf md fl) cps) = Inr ks)"

definition request_ok :: "u32 \<Rightarrow> u32 \<Rightarrow> u32 \<Rightarrow> u32 \<Rightarrow> u8 \<Rightarrow> nat \<Rightarrow> u32 \<Rightarrow> bool" where
  "request_ok own ident lay md fl len ttl \<longleftrightarrow>
     0 < len \<and> len \<le> BRIDGE_MAX_INPUT_BYTES \<and> own \<noteq> 0 \<and> ident \<noteq> 0 \<and>
     (lay = BRIDGE_LAYOUT_US \<or> lay = BRIDGE_LAYOUT_DE) \<and>
     (md = BRIDGE_MODE_PASSWORD \<and> fl = 0 \<or>
      md = BRIDGE_MODE_TEXT \<and> fl AND NOT (BRIDGE_FLAG_ALLOW_LF OR BRIDGE_FLAG_ALLOW_TAB) = 0) \<and>
     ttl \<noteq> 0 \<and> ttl \<le> BRIDGE_MAX_TTL_MS"

definition stageable ::
  "(u32 \<times> u32) list \<Rightarrow> u32 \<Rightarrow> u32 \<Rightarrow> u32 \<Rightarrow> u32 \<Rightarrow> u8 \<Rightarrow> bytes \<Rightarrow> u32 \<Rightarrow> bridge_stroke list \<Rightarrow> bool" where
  "stageable l own ident lay md fl input ttl ks \<longleftrightarrow>
     request_ok own ident lay md fl (length input) ttl \<and> (own, ident) \<notin> set l \<and>
     length l < BRIDGE_REPLAY_CAPACITY \<and> text_keys lay md fl input ks"

inductive protocol_step :: "core_op \<Rightarrow> protocol \<Rightarrow> core_result \<Rightarrow> protocol \<Rightarrow> bool" where
  stage_ok: "stageable l own ident lay md fl input ttl ks \<Longrightarrow>
    protocol_step (Op_Stage own ident lay md fl input now ttl) (l, No_Job s)
      (BRIDGE_OK, zero_stroke) (l @ [(own, ident)], Waiting own ident now ttl ks)"
| stage_refused: "\<nexists>ks. stageable l own ident lay md fl input ttl ks \<Longrightarrow>
    st \<noteq> BRIDGE_OK \<Longrightarrow> st \<noteq> BRIDGE_ERR_BUSY \<Longrightarrow>
    protocol_step (Op_Stage own ident lay md fl input now ttl) (l, No_Job s)
      (st, zero_stroke) (l, No_Job BRIDGE_STATE_REJECTED)"
| stage_busy: "\<nexists>s. j = No_Job s \<Longrightarrow>
    protocol_step (Op_Stage own ident lay md fl input now ttl) (l, j)
      (BRIDGE_ERR_BUSY, zero_stroke) (l, j)"
| confirm_ok: "now - since < ttl \<Longrightarrow>
    protocol_step (Op_Confirm own ident now) (l, Waiting own ident since ttl ks)
      (BRIDGE_OK, zero_stroke) (l, Typing own ident ks)"
| confirm_expired: "ttl \<le> now - since \<Longrightarrow>
    protocol_step (Op_Confirm own ident now) (l, Waiting own ident since ttl ks)
      (BRIDGE_ERR_EXPIRED, zero_stroke) (l, No_Job BRIDGE_STATE_EXPIRED)"
| confirm_refused: "\<nexists>since ttl ks. j = Waiting own ident since ttl ks \<Longrightarrow>
    st \<in> {BRIDGE_ERR_STATE, BRIDGE_ERR_OWNER, BRIDGE_ERR_ID} \<Longrightarrow>
    protocol_step (Op_Confirm own ident now) (l, j) (st, zero_stroke) (l, j)"
| next_key: "protocol_step (Op_Next now) (l, Typing own ident (k # ks))
    (BRIDGE_OK, k) (l, Typing own ident ks)"
| next_done: "protocol_step (Op_Next now) (l, Typing own ident [])
    (BRIDGE_DONE, zero_stroke) (l, No_Job BRIDGE_STATE_COMPLETED)"
| next_expired: "ttl \<le> now - since \<Longrightarrow>
    protocol_step (Op_Next now) (l, Waiting own ident since ttl ks)
      (BRIDGE_ERR_EXPIRED, zero_stroke) (l, No_Job BRIDGE_STATE_EXPIRED)"
| next_waiting: "now - since < ttl \<Longrightarrow>
    protocol_step (Op_Next now) (l, Waiting own ident since ttl ks)
      (BRIDGE_ERR_STATE, zero_stroke) (l, Waiting own ident since ttl ks)"
| next_idle: "protocol_step (Op_Next now) (l, No_Job s) (BRIDGE_ERR_STATE, zero_stroke) (l, No_Job s)"
| tick_expired: "ttl \<le> now - since \<Longrightarrow>
    protocol_step (Op_Tick now) (l, Waiting own ident since ttl ks)
      (BRIDGE_ERR_EXPIRED, zero_stroke) (l, No_Job BRIDGE_STATE_EXPIRED)"
| tick_ok: "\<forall>own ident since ttl ks. j = Waiting own ident since ttl ks \<longrightarrow> now - since < ttl \<Longrightarrow>
    protocol_step (Op_Tick now) (l, j) (BRIDGE_OK, zero_stroke) (l, j)"
| cancel_ok: "j = Typing own ident ks \<or> j = Waiting own ident since ttl ks \<Longrightarrow>
    protocol_step (Op_Cancel own ident) (l, j) (BRIDGE_OK, zero_stroke) (l, No_Job BRIDGE_STATE_CANCELLED)"
| cancel_refused: "\<nexists>since ttl ks. j = Typing own ident ks \<or> j = Waiting own ident since ttl ks \<Longrightarrow>
    st \<in> {BRIDGE_ERR_STATE, BRIDGE_ERR_OWNER, BRIDGE_ERR_ID} \<Longrightarrow>
    protocol_step (Op_Cancel own ident) (l, j) (st, zero_stroke) (l, j)"
| abort: "protocol_step Op_Abort (l, j) (BRIDGE_OK, zero_stroke) (l, No_Job BRIDGE_STATE_CANCELLED)"

definition abs_core :: "bridge_core \<Rightarrow> protocol" where
  "abs_core c = (ledger c,
     if core_state c = BRIDGE_STATE_STAGED
     then Waiting (core_owner c) (core_id c) (staged_at_ms c) (ttl_ms c) (pending c)
     else if core_state c = BRIDGE_STATE_EXECUTING
     then Typing (core_owner c) (core_id c) (pending c)
     else No_Job (core_state c))"

subsection \<open>The core implements the protocol\<close>

lemma stage_admits_request:
  "stage_admits c own ident lay md fl len ttl \<longleftrightarrow>
     \<not> job_active c \<and> request_ok own ident lay md fl len ttl \<and> (own, ident) \<notin> set (ledger c) \<and>
     replay_count c \<noteq> BRIDGE_REPLAY_CAPACITY"
  by (auto simp: stage_admits_def request_ok_def replay_hit_ledger)

lemma abs_core_simps [simp]:
  "st \<notin> {BRIDGE_STATE_STAGED, BRIDGE_STATE_EXECUTING} \<Longrightarrow>
     abs_core (core_terminate c st) = (ledger c, No_Job st)"
  "abs_core (staged_job c own ident lay md fl now ttl ks) =
     (ledger c @ [(own, ident)], Waiting own ident now ttl ks)"
  by (auto simp: abs_core_def)

lemma abs_core_state:
  "core_state c = BRIDGE_STATE_STAGED \<Longrightarrow> abs_core c =
     (ledger c, Waiting (core_owner c) (core_id c) (staged_at_ms c) (ttl_ms c) (pending c))"
  "core_state c = BRIDGE_STATE_EXECUTING \<Longrightarrow>
     abs_core c = (ledger c, Typing (core_owner c) (core_id c) (pending c))"
  "\<not> job_active c \<Longrightarrow> abs_core c = (ledger c, No_Job (core_state c))"
  by (auto simp: abs_core_def job_active_def)

lemma stage_OK_stageable:
  assumes "core_ok c" and "\<not> job_active c"
  shows "bridge_core_stage c own ident lay md fl (Some input) (length input) now ttl = (BRIDGE_OK, d) \<longleftrightarrow>
    (\<exists>ks. stageable (ledger c) own ident lay md fl input ttl ks \<and>
      d = staged_job c own ident lay md fl now ttl ks)"
proof -
  have "replay_count c \<noteq> BRIDGE_REPLAY_CAPACITY \<longleftrightarrow> length (ledger c) < BRIDGE_REPLAY_CAPACITY"
    using assms(1) by (auto simp: core_ok_def)
  then show ?thesis
    unfolding stage_OK_iff [OF order_refl] stage_admits_request stageable_def text_keys_def take_all [OF order_refl]
    using assms(2) by blast
qed

lemma refine_stage:
  assumes "core_ok c"
    and e: "bridge_core_stage c own ident lay md fl (Some input) (length input) now ttl = (st, d)"
  shows "protocol_step (Op_Stage own ident lay md fl input now ttl) (abs_core c)
    (st, zero_stroke) (abs_core d)"
  using e
proof (cases rule: bridge_core_stage_cases)
  case busy
  then have "\<nexists>s. snd (abs_core c) = No_Job s" by (auto simp: abs_core_def job_active_def)
  then show ?thesis using busy
    by (cases "abs_core c") (simp add: protocol_step.stage_busy)
next
  case rejected
  have "\<nexists>ks. stageable (ledger c) own ident lay md fl input ttl ks"
    using e rejected(1) stage_OK_stageable [OF assms(1) rejected(3),
        of own ident lay md fl input now ttl "staged_job c own ident lay md fl now ttl ks" for ks]
    by auto
  then show ?thesis using rejected by (simp add: abs_core_state protocol_step.stage_refused)
next
  case (staged i e')
  have na: "\<not> job_active c" using staged(3) by (simp add: stage_admits_def)
  obtain ks where "stageable (ledger c) own ident lay md fl input ttl ks"
      "d = staged_job c own ident lay md fl now ttl ks"
    using stage_OK_stageable [OF assms(1) na] e staged(1) by blast
  then show ?thesis using staged(1) na by (simp add: abs_core_state protocol_step.stage_ok)
qed

lemma refine_next:
  assumes "core_ok c" and "bridge_core_next c now = (st, d, s)"
  shows "protocol_step (Op_Next now) (abs_core c) (st, s) (abs_core d)"
  using assms(2)
proof (cases rule: bridge_core_next_cases)
  case ok
  then have lt: "cursor c < stroke_count c" using assms(1) by (simp add: core_ok_def job_active_def)
  have "abs_core d = (ledger c, Typing (core_owner c) (core_id c) (pending d))"
    using ok(2) by (simp add: ok(4) abs_core_def)
  then show ?thesis
    using ok(1,5) by (simp add: abs_core_state(2) [OF ok(2)] pending_simps [OF lt, of zero_stroke]
        protocol_step.next_key flip: ok(4))
next
  case completed
  then have "pending c = []" by (simp add: pending_def)
  then show ?thesis using completed by (simp add: abs_core_state(2) protocol_step.next_done)
next
  case expired
  then have "ttl_ms c \<le> now - staged_at_ms c"
    using assms(2) by (cases rule: bridge_core_tick_cases [of c now]) (auto simp: bridge_core_next_def)
  then show ?thesis using expired by (simp add: abs_core_state(1) protocol_step.next_expired)
next
  case idle
  show ?thesis
  proof (cases "core_state c = BRIDGE_STATE_STAGED")
    case True
    have "now - staged_at_ms c < ttl_ms c"
      using assms(2) idle True
      by (cases rule: bridge_core_tick_cases [of c now]) (auto simp: bridge_core_next_def)
    then show ?thesis using idle True by (simp add: abs_core_state(1) protocol_step.next_waiting)
  next
    case False
    then have "\<not> job_active c" using idle by (simp add: job_active_def)
    then show ?thesis using idle by (simp add: abs_core_state(3) protocol_step.next_idle)
  qed
qed

lemma refine_confirm:
  assumes "bridge_core_confirm c own ident now = (st, d)"
  shows "protocol_step (Op_Confirm own ident now) (abs_core c) (st, zero_stroke) (abs_core d)"
proof (cases "st = BRIDGE_OK")
  case True
  then have c: "core_state c = BRIDGE_STATE_STAGED" "own = core_owner c" "ident = core_id c"
      "now - staged_at_ms c < ttl_ms c" "d = c\<lparr>core_state := BRIDGE_STATE_EXECUTING\<rparr>"
    using assms by (simp_all add: bridge_core_confirm_OK)
  have "abs_core d = (ledger c, Typing own ident (pending c))" using c by (simp add: abs_core_def)
  then show ?thesis using c True by (simp add: abs_core_state(1) protocol_step.confirm_ok)
next
  case False
  show ?thesis
  proof (cases "st = BRIDGE_ERR_EXPIRED")
    case True
    have c: "core_state c = BRIDGE_STATE_STAGED" "d = core_terminate c BRIDGE_STATE_EXPIRED"
      using bridge_core_confirm_error [OF assms False] True by auto
    moreover have "own = core_owner c" "ident = core_id c" "ttl_ms c \<le> now - staged_at_ms c"
      using assms True by (cases rule: bridge_core_tick_cases [of c now];
          auto simp: bridge_core_confirm_def split: if_splits)+
    ultimately show ?thesis using True by (simp add: abs_core_state(1) protocol_step.confirm_expired)
  next
    case F: False
    have d: "d = c" using bridge_core_confirm_error [OF assms False] F by simp
    have "st \<in> {BRIDGE_ERR_STATE, BRIDGE_ERR_OWNER, BRIDGE_ERR_ID}"
      "\<not> (core_state c = BRIDGE_STATE_STAGED \<and> own = core_owner c \<and> ident = core_id c)"
      using assms False F by (cases rule: bridge_core_tick_cases [of c now];
          auto simp: bridge_core_confirm_def split: if_splits)+
    moreover from this(2) have "\<nexists>since ttl ks. snd (abs_core c) = Waiting own ident since ttl ks"
      by (auto simp: abs_core_def)
    ultimately show ?thesis using d by (cases "abs_core c") (simp add: protocol_step.confirm_refused)
  qed
qed

lemma refine_cancel:
  assumes "bridge_core_cancel c own ident = (st, d)"
  shows "protocol_step (Op_Cancel own ident) (abs_core c) (st, zero_stroke) (abs_core d)"
  using assms
proof (cases rule: bridge_core_cancel_cases)
  case 1
  have "snd (abs_core c) = Typing own ident (pending c) \<or>
      snd (abs_core c) = Waiting own ident (staged_at_ms c) (ttl_ms c) (pending c)"
    using 1(2-4) by (auto simp: abs_core_def job_active_def)
  then show ?thesis using 1 protocol_step.cancel_ok [of "snd (abs_core c)" own ident]
    by (simp add: abs_core_def [of c])
next
  case 2
  have "st \<in> {BRIDGE_ERR_STATE, BRIDGE_ERR_OWNER, BRIDGE_ERR_ID}"
    "\<not> (job_active c \<and> own = core_owner c \<and> ident = core_id c)"
    using assms 2 by (auto simp: bridge_core_cancel_def job_active_def split: if_splits)
  moreover from this(2) have "\<nexists>since ttl ks. snd (abs_core c) = Typing own ident ks \<or>
      snd (abs_core c) = Waiting own ident since ttl ks"
    by (auto simp: abs_core_def job_active_def)
  ultimately show ?thesis using 2 by (cases "abs_core c") (simp add: protocol_step.cancel_refused)
qed

lemma refine_tick:
  "protocol_step (Op_Tick now) (abs_core c) (fst (bridge_core_tick c now), zero_stroke)
     (abs_core (snd (bridge_core_tick c now)))"
proof (cases rule: bridge_core_tick_cases [of c now])
  case expired
  then show ?thesis by (simp add: abs_core_state(1) protocol_step.tick_expired)
next
  case alive
  then have "\<forall>own ident since ttl ks. snd (abs_core c) = Waiting own ident since ttl ks \<longrightarrow> now - since < ttl"
    by (auto simp: abs_core_def)
  then show ?thesis using alive(2) by (cases "abs_core c") (simp add: protocol_step.tick_ok)
qed

lemma core_refines_protocol:
  assumes "core_ok c"
  shows "protocol_step x (abs_core c) (fst (core_step x c)) (abs_core (snd (core_step x c)))"
proof (cases x)
  case (Op_Stage own ident lay md fl input now ttl)
  then show ?thesis using refine_stage [OF assms] by (simp split: prod.split)
next
  case (Op_Confirm own ident now)
  then show ?thesis using refine_confirm by (simp split: prod.split)
next
  case (Op_Next now)
  then show ?thesis using refine_next [OF assms] by (simp split: prod.split)
next
  case (Op_Tick now)
  then show ?thesis using refine_tick [of now c] by (cases "bridge_core_tick c now") simp
next
  case (Op_Cancel own ident)
  then show ?thesis using refine_cancel by (simp split: prod.split)
next
  case Op_Abort
  have "abs_core c = (ledger c, snd (abs_core c))" by (simp add: abs_core_def)
  then show ?thesis using Op_Abort protocol_step.abort [of "ledger c" "snd (abs_core c)"]
    by (simp add: bridge_core_abort_def)
qed

subsection \<open>Histories\<close>

text \<open>A history is the list of calls since power-up with their results.\<close>

type_synonym core_history = "(core_op \<times> core_result) list"

inductive core_trace :: "core_history \<Rightarrow> bridge_core \<Rightarrow> bool" where
  power_up: "core_trace [] bridge_core_init"
| call: "core_trace h c \<Longrightarrow> core_step x c = (r, d) \<Longrightarrow> core_trace (h @ [(x, r)]) d"

inductive_cases core_trace_snocE: "core_trace (h @ [e]) c"

lemma core_trace_ok: "core_trace h c \<Longrightarrow> core_ok c"
proof (induction rule: core_trace.induct)
  case (call h c x r d)
  then show ?case using core.step_keeps [of c x] by simp
qed (rule core_ok_init)

text \<open>Histories are exactly the runs of the machine.\<close>

lemma core_trace_run: "core_trace h c \<longleftrightarrow> run_ops core_step (map fst h) bridge_core_init = (map snd h, c)"
proof (induction h arbitrary: c rule: rev_induct)
  case Nil
  show ?case by (auto intro: core_trace.power_up elim: core_trace.cases)
next
  case (snoc e h)
  obtain x r where e: "e = (x, r)" by (rule prod.exhaust)
  show ?case
  proof
    assume "core_trace (h @ [e]) c"
    then obtain b where "core_trace h b" "core_step x b = (r, c)"
      by (cases rule: core_trace_snocE) (auto simp: e)
    with snoc.IH show "run_ops core_step (map fst (h @ [e])) bridge_core_init = (map snd (h @ [e]), c)"
      by (simp add: run_ops_append e)
  next
    let ?b = "snd (run_ops core_step (map fst h) bridge_core_init)"
    assume "run_ops core_step (map fst (h @ [e])) bridge_core_init = (map snd (h @ [e]), c)"
    then have "core_trace h ?b" "core_step x ?b = (r, c)"
      by (auto simp: run_ops_append e snoc.IH prod_eq_iff)
    then show "core_trace (h @ [e]) c" unfolding e by (rule core_trace.call)
  qed
qed

text \<open>The identifiers staged with success, and the keys handed out, in order.\<close>

fun staged_ids :: "core_history \<Rightarrow> (u32 \<times> u32) list" where
  "staged_ids ((Op_Stage own ident lay md fl input now ttl, BRIDGE_OK, _) # h) =
     (own, ident) # staged_ids h"
| "staged_ids (_ # h) = staged_ids h"
| "staged_ids [] = []"

fun keys_out :: "core_history \<Rightarrow> bridge_stroke list" where
  "keys_out ((Op_Next now, BRIDGE_OK, k) # h) = k # keys_out h"
| "keys_out (_ # h) = keys_out h"
| "keys_out [] = []"

lemma staged_ids_append: "staged_ids (g @ h) = staged_ids g @ staged_ids h"
  by (induction g rule: staged_ids.induct) simp_all

lemma keys_out_append: "keys_out (g @ h) = keys_out g @ keys_out h"
  by (induction g rule: keys_out.induct) simp_all

text \<open>How the history of a protocol state looks: where its job comes from.\<close>

inductive job_origin :: "core_history \<Rightarrow> job_spec \<Rightarrow> bool" where
  none: "job_origin h (No_Job s)"
| waiting: "text_keys lay md fl input ks \<Longrightarrow>
    h = h1 @ (Op_Stage own ident lay md fl input since ttl, BRIDGE_OK, zero_stroke) # h2 \<Longrightarrow>
    job_origin h (Waiting own ident since ttl ks)"
| typing: "text_keys lay md fl input (keys_out h3 @ ks) \<Longrightarrow> now - since < ttl \<Longrightarrow>
    h = h1 @ (Op_Stage own ident lay md fl input since ttl, BRIDGE_OK, zero_stroke) # h2
      @ (Op_Confirm own ident now, BRIDGE_OK, zero_stroke) # h3 \<Longrightarrow>
    job_origin h (Typing own ident ks)"

inductive_cases job_origin_WaitingE: "job_origin h (Waiting own ident since ttl ks)"
inductive_cases job_origin_TypingE: "job_origin h (Typing own ident ks)"

lemma job_origin_snoc:
  assumes "job_origin h j" and "keys_out [e] = []"
  shows "job_origin (h @ [e]) j"
  using assms(1)
proof cases
  case none
  then show ?thesis by (simp add: job_origin.none)
next
  case (waiting lay md fl input ks h1 own ident since ttl h2)
  from waiting(2) have "job_origin (h @ [e]) (Waiting own ident since ttl ks)"
    by (rule job_origin.waiting [where ?h2.0 = "h2 @ [e]"]) (simp add: waiting(3))
  then show ?thesis by (simp add: waiting(1))
next
  case (typing lay md fl input h3 ks now since ttl h1 own ident h2)
  have "job_origin (h @ [e]) (Typing own ident ks)"
    by (rule job_origin.typing [of lay md fl input "h3 @ [e]", OF _ typing(3), where ?h1.0 = h1])
      (use typing(2,4) assms(2) in \<open>simp_all add: keys_out_append\<close>)
  then show ?thesis by (simp add: typing(1))
qed

lemma job_origin_key:
  assumes "job_origin h (Typing own ident (k # ks))"
  shows "job_origin (h @ [(Op_Next now, BRIDGE_OK, k)]) (Typing own ident ks)"
  using assms
proof (rule job_origin_TypingE)
  fix lay md fl input h3 now' since ttl h1 h2
  assume t: "text_keys lay md fl input (keys_out h3 @ k # ks)" "now' - since < ttl"
    and h: "h = h1 @ (Op_Stage own ident lay md fl input since ttl, BRIDGE_OK, zero_stroke) # h2
      @ (Op_Confirm own ident now', BRIDGE_OK, zero_stroke) # h3"
  show ?thesis
    by (rule job_origin.typing [of lay md fl input "h3 @ [(Op_Next now, BRIDGE_OK, k)]", OF _ t(2),
          where ?h1.0 = h1]) (use t(1) in \<open>simp_all add: keys_out_append h\<close>)
qed

lemma protocol_step_origin:
  assumes "protocol_step x (l, j) r (l', j')" and "job_origin h j"
  shows "job_origin (h @ [(x, r)]) j'"
  using assms(1)
proof cases
  case (stage_ok own ident lay md fl input ttl ks now s)
  then show ?thesis
    by (auto simp: stageable_def intro: job_origin.waiting [where ?h1.0 = h and ?h2.0 = "[]"])
next
  case (confirm_ok now since ttl own ident ks)
  have "job_origin h (Waiting own ident since ttl ks)" using assms(2) confirm_ok by simp
  then show ?thesis
  proof (rule job_origin_WaitingE)
    fix lay md fl input h1 h2
    assume "text_keys lay md fl input ks"
      and h: "h = h1 @ (Op_Stage own ident lay md fl input since ttl, BRIDGE_OK, zero_stroke) # h2"
    then have "job_origin (h @ [(Op_Confirm own ident now, BRIDGE_OK, zero_stroke)]) (Typing own ident ks)"
      by (intro job_origin.typing [of lay md fl input "[]" ks, OF _ \<open>now - since < ttl\<close>,
            where ?h1.0 = h1 and ?h2.0 = h2]) simp_all
    then show ?thesis by (simp add: confirm_ok)
  qed
next
  case (next_key now own ident k ks)
  then show ?thesis using assms(2) job_origin_key by simp
qed (use assms(2) in \<open>auto intro: job_origin_snoc job_origin.none\<close>)

lemma protocol_step_ledger:
  assumes "protocol_step x (l, j) r (l', j')"
  shows "l' = l @ staged_ids [(x, r)]"
  using assms
proof cases
  case (stage_refused own ident lay md fl input ttl st now s)
  then show ?thesis by (cases st) auto
qed auto

lemma core_trace_origin:
  "core_trace h c \<Longrightarrow> job_origin h (snd (abs_core c)) \<and> ledger c = staged_ids h"
proof (induction rule: core_trace.induct)
  case power_up
  then show ?case by (simp add: abs_core_def job_origin.none)
next
  case (call h c x r d)
  have s: "protocol_step x (ledger c, snd (abs_core c)) r (ledger d, snd (abs_core d))"
    using core_refines_protocol [OF core_trace_ok [OF call.hyps(1)], of x] call.hyps(2)
    by (simp add: abs_core_def)
  show ?case
    using protocol_step_origin [OF s] protocol_step_ledger [OF s] call.IH
    by (simp add: staged_ids_append)
qed

subsection \<open>Draining a confirmed job\<close>

text \<open>
  While a job is being typed only \<open>Op_Next\<close>, the matching cancel and abort touch it. The
  number of \<open>Op_Next\<close> calls in a sequence decides which keys came out.
\<close>

fun next_calls :: "core_op list \<Rightarrow> nat" where
  "next_calls (Op_Next now # xs) = Suc (next_calls xs)"
| "next_calls (_ # xs) = next_calls xs"
| "next_calls [] = 0"

definition undisturbed :: "u32 \<Rightarrow> u32 \<Rightarrow> core_op list \<Rightarrow> bool" where
  "undisturbed own ident xs \<longleftrightarrow> Op_Abort \<notin> set xs \<and> Op_Cancel own ident \<notin> set xs"

inductive_cases typing_stepE: "protocol_step x (l, Typing own ident ks) r p"

lemma typing_step:
  assumes "protocol_step x (l, Typing own ident ks) r p" and "x \<noteq> Op_Abort"
    and "x \<noteq> Op_Cancel own ident" and "next_calls [x] \<le> length ks"
  shows "p = (l, Typing own ident (drop (next_calls [x]) ks))"
    and "keys_out [(x, r)] = take (next_calls [x]) ks"
  using assms by (auto elim!: typing_stepE)

lemma abs_core_typing:
  "abs_core c = (l, Typing own ident ks) \<longleftrightarrow> core_state c = BRIDGE_STATE_EXECUTING \<and>
     core_owner c = own \<and> core_id c = ident \<and> pending c = ks \<and> ledger c = l"
  by (auto simp: abs_core_def)

lemma next_calls_Cons: "next_calls (x # xs) = next_calls [x] + next_calls xs"
  by (cases x) simp_all

lemma keys_out_Cons: "keys_out (e # h) = keys_out [e] @ keys_out h"
  using keys_out_append [of "[e]" h] by simp

lemma typing_run:
  assumes "core_ok c" and "abs_core c = (l, Typing own ident ks)" and "undisturbed own ident xs"
    and "next_calls xs \<le> length ks"
  shows "abs_core (snd (run_ops core_step xs c)) = (l, Typing own ident (drop (next_calls xs) ks)) \<and>
    keys_out (zip xs (fst (run_ops core_step xs c))) = take (next_calls xs) ks"
  using assms
proof (induction xs arbitrary: c ks)
  case (Cons x xs)
  let ?r = "fst (core_step x c)" and ?d = "snd (core_step x c)" and ?n = "next_calls [x]"
  have s: "protocol_step x (l, Typing own ident ks) ?r (abs_core ?d)"
    using core_refines_protocol [OF Cons.prems(1), of x] Cons.prems(2) by simp
  have u: "x \<noteq> Op_Abort" "x \<noteq> Op_Cancel own ident" "undisturbed own ident xs"
    using Cons.prems(3) by (auto simp: undisturbed_def)
  have n: "?n \<le> length ks" "next_calls xs \<le> length (drop ?n ks)"
    using Cons.prems(4) by (simp_all add: next_calls_Cons [of x xs] del: next_calls.simps)
  note t = typing_step [OF s u(1,2) n(1)]
  have IH: "abs_core (snd (run_ops core_step xs ?d)) =
        (l, Typing own ident (drop (next_calls xs) (drop ?n ks)))"
      "keys_out (zip xs (fst (run_ops core_step xs ?d))) = take (next_calls xs) (drop ?n ks)"
    using Cons.IH [OF core.step_keeps [OF Cons.prems(1), of x] t(1) u(3) n(2)] by simp_all
  have k: "keys_out (zip (x # xs) (fst (run_ops core_step (x # xs) c))) =
      keys_out [(x, ?r)] @ keys_out (zip xs (fst (run_ops core_step xs ?d)))"
    unfolding run_ops_Cons fst_conv zip_Cons_Cons
    by (rule keys_out_Cons)
  show ?case
    unfolding k t(2) IH(2) next_calls_Cons [of x xs] using IH(1)
    by (simp only: take_add drop_drop run_ops_Cons snd_conv add.commute [of "next_calls xs"])
qed simp

subsection \<open>Runs from power-up\<close>

definition after_power_up :: "core_op list \<Rightarrow> bridge_core" where
  "after_power_up xs = snd (run_ops core_step xs bridge_core_init)"

definition history_of :: "core_op list \<Rightarrow> core_history" where
  "history_of xs = zip xs (fst (run_ops core_step xs bridge_core_init))"

lemma after_power_up_trace: "core_trace (history_of xs) (after_power_up xs)"
  by (simp add: core_trace_run after_power_up_def history_of_def)

lemma after_power_up_ok: "core_ok (after_power_up xs)"
  by (rule core_trace_ok [OF after_power_up_trace])

lemma history_of_snoc:
  "history_of (xs @ [x]) = history_of xs @ [(x, fst (core_step x (after_power_up xs)))]"
  by (simp add: history_of_def after_power_up_def run_ops_append)

lemma next_key_typing:
  assumes "core_ok c" and "fst (core_step (Op_Next now) c) = (BRIDGE_OK, k)"
  obtains own ident ks where "snd (abs_core c) = Typing own ident (k # ks)"
proof -
  have "protocol_step (Op_Next now) (fst (abs_core c), snd (abs_core c)) (BRIDGE_OK, k)
      (abs_core (snd (core_step (Op_Next now) c)))"
    using core_refines_protocol [OF assms(1), of "Op_Next now"] assms(2) by simp
  then show ?thesis by cases (auto intro: that)
qed

subsection \<open>Properties\<close>

text \<open>The structure invariant holds after any sequence of calls since power-up, with any
  arguments: at most 64 ledger entries, all different; a job that is staged or executing has a
  nonzero owner and identifier found in the ledger, a lifetime of at most 15 s, between 1 and
  2048 strokes in the range the HID descriptor declares, its sent and its unused cells all
  zero; and in every other state the whole job region is zero, so no text stays in memory after
  completion, cancellation, expiry, rejection or abort.\<close>

lemma core_invariant: "core_ok (snd (run_ops core_step xs bridge_core_init))"
  by (rule core.run_keeps [OF core_ok_init])

text \<open>C7: every call of the core, in every reachable state, is a step of the abstract protocol
  with the same result: the arrays, the cursor and the wiping implement a ledger and a single
  job that waits, is typed key by key, and disappears.\<close>

theorem core_implements_protocol:
  "protocol_step x (abs_core (after_power_up xs)) (fst (core_step x (after_power_up xs)))
     (abs_core (snd (core_step x (after_power_up xs))))"
  by (rule core_refines_protocol [OF after_power_up_ok])

text \<open>C8: replay protection. In any sequence of calls since power-up no pair of owner and
  identifier is staged with success twice, whatever happened to the first job, and at most 64
  jobs are staged in all: a full ledger refuses instead of forgetting.\<close>

theorem no_job_staged_twice:
  "distinct (staged_ids (history_of xs)) \<and> length (staged_ids (history_of xs)) \<le> BRIDGE_REPLAY_CAPACITY"
proof -
  have "staged_ids (history_of xs) = ledger (after_power_up xs)"
    using core_trace_origin [OF after_power_up_trace] by simp
  then show ?thesis using after_power_up_ok [of xs] by (simp add: core_ok_def)
qed

text \<open>C5: no key without authority, and none out of order. Whenever a call hands out a key, the
  history holds a successful stage of a text by some owner and identifier and, after it, a
  successful confirmation by the same owner and identifier within the lifetime; and the key is
  the next one of that text after exactly the keys handed out since the confirmation.\<close>

theorem every_key_was_staged_and_confirmed:
  assumes "fst (core_step (Op_Next t) (after_power_up xs)) = (BRIDGE_OK, k)"
  shows "\<exists>h1 h2 h3 own ident lay md fl input since ttl now ks.
    history_of xs = h1 @ (Op_Stage own ident lay md fl input since ttl, BRIDGE_OK, zero_stroke) # h2
      @ (Op_Confirm own ident now, BRIDGE_OK, zero_stroke) # h3 \<and>
    now - since < ttl \<and> text_keys lay md fl input (keys_out h3 @ k # ks)"
proof -
  obtain own ident ks where "snd (abs_core (after_power_up xs)) = Typing own ident (k # ks)"
    using next_key_typing [OF after_power_up_ok assms] .
  then have "job_origin (history_of xs) (Typing own ident (k # ks))"
    using core_trace_origin [OF after_power_up_trace, of xs] by simp
  then show ?thesis by (rule job_origin_TypingE) blast
qed

definition demo_calls :: "core_op list" where
  "demo_calls = [Op_Stage 1 7 BRIDGE_LAYOUT_US BRIDGE_MODE_TEXT 0 [0x61, 0x41] 5 15000, Op_Confirm 1 7 900]"

lemma demo_text: "text_keys BRIDGE_LAYOUT_US BRIDGE_MODE_TEXT 0 [0x61, 0x41]
  [\<lparr>modifier = 0, usage = 4\<rparr>, \<lparr>modifier = 2, usage = 4\<rparr>]"
proof -
  have f: "fold_newlines on [97, 65] = [97, 65]" for on by simp
  have "code_point_keys BRIDGE_LAYOUT_US BRIDGE_MODE_TEXT 0 97 = Inr [\<lparr>modifier = 0, usage = 4\<rparr>]"
    "code_point_keys BRIDGE_LAYOUT_US BRIDGE_MODE_TEXT 0 65 = Inr [\<lparr>modifier = 2, usage = 4\<rparr>]"
    by (simp_all add: code_point_keys_def map_layout_def map_ascii_def Let_def zero_stroke_def
        consts_def)
  then show ?thesis unfolding text_keys_def
    by (intro exI [of _ "[97, 65]"]) (simp add: f utf8_encode_def scalar_value_def)
qed

lemma demo_typing:
  "abs_core (after_power_up demo_calls) =
     ([(1, 7)], Typing 1 7 [\<lparr>modifier = 0, usage = 4\<rparr>, \<lparr>modifier = 2, usage = 4\<rparr>])"
proof -
  let ?ks = "[\<lparr>modifier = 0, usage = 4\<rparr>, \<lparr>modifier = 2, usage = 4\<rparr>]"
  let ?c = "staged_job bridge_core_init 1 7 BRIDGE_LAYOUT_US BRIDGE_MODE_TEXT 0 5 15000 ?ks"
  have na: "\<not> job_active bridge_core_init" by (simp add: job_active_def)
  have "stageable (ledger bridge_core_init) 1 7 BRIDGE_LAYOUT_US BRIDGE_MODE_TEXT 0 [0x61, 0x41] 15000 ?ks"
    using demo_text by (simp add: stageable_def request_ok_def) (simp add: consts_def)
  then have s: "bridge_core_stage bridge_core_init 1 7 BRIDGE_LAYOUT_US BRIDGE_MODE_TEXT 0
      (Some [0x61, 0x41]) (length [0x61 :: u8, 0x41]) 5 15000 = (BRIDGE_OK, ?c)"
    using stage_OK_stageable [OF core_ok_init na] by blast
  have c: "bridge_core_confirm ?c 1 7 900 = (BRIDGE_OK, ?c\<lparr>core_state := BRIDGE_STATE_EXECUTING\<rparr>)"
    by (simp add: bridge_core_confirm_OK)
  have "after_power_up demo_calls = ?c\<lparr>core_state := BRIDGE_STATE_EXECUTING\<rparr>"
    using s c by (simp add: after_power_up_def demo_calls_def)
  then show ?thesis by (simp add: abs_core_def)
qed

lemma demo_next:
  "fst (core_step (Op_Next 901) (after_power_up demo_calls)) = (BRIDGE_OK, \<lparr>modifier = 0, usage = 4\<rparr>)"
  using core_refines_protocol [OF after_power_up_ok, of "Op_Next 901" demo_calls] unfolding demo_typing
  by (rule typing_stepE) auto

theorem every_key_was_staged_and_confirmed_witness:
  "\<exists>h1 h2 h3 own ident lay md fl input since ttl now ks.
    history_of demo_calls = h1 @ (Op_Stage own ident lay md fl input since ttl, BRIDGE_OK, zero_stroke) # h2
      @ (Op_Confirm own ident now, BRIDGE_OK, zero_stroke) # h3 \<and>
    now - since < ttl \<and> text_keys lay md fl input (keys_out h3 @ \<lparr>modifier = 0, usage = 4\<rparr> # ks)"
  by (rule every_key_was_staged_and_confirmed [OF demo_next])

text \<open>C6: delivery. Once a job executes, any calls without an abort and without the owner's own
  cancel (other stages, confirms, cancels, ticks, at any time) leave it alone: the \<open>n\<close> calls of
  \<open>bridge_core_next\<close> among them hand out exactly the first \<open>n\<close> pending keys in order, the rest
  stays pending, and the ledger does not change.\<close>

theorem confirmed_job_is_delivered:
  assumes "core_state (after_power_up xs) = BRIDGE_STATE_EXECUTING"
    and "undisturbed (core_owner (after_power_up xs)) (core_id (after_power_up xs)) ys"
    and "next_calls ys \<le> length (pending (after_power_up xs))"
  defines "d \<equiv> snd (run_ops core_step ys (after_power_up xs))"
  shows "keys_out (zip ys (fst (run_ops core_step ys (after_power_up xs)))) =
      take (next_calls ys) (pending (after_power_up xs)) \<and>
    pending d = drop (next_calls ys) (pending (after_power_up xs)) \<and>
    core_state d = BRIDGE_STATE_EXECUTING \<and> ledger d = ledger (after_power_up xs)"
  using typing_run [OF after_power_up_ok abs_core_state(2) [OF assms(1)] assms(2,3)]
  unfolding d_def by (simp add: abs_core_typing)

theorem confirmed_job_is_delivered_witness:
  "keys_out (zip [Op_Cancel 2 7, Op_Next 5, Op_Tick 70000, Op_Next 6]
     (fst (run_ops core_step [Op_Cancel 2 7, Op_Next 5, Op_Tick 70000, Op_Next 6] (after_power_up demo_calls)))) =
   [\<lparr>modifier = 0, usage = 4\<rparr>, \<lparr>modifier = 2, usage = 4\<rparr>]"
proof -
  let ?ys = "[Op_Cancel 2 7, Op_Next 5, Op_Tick 70000, Op_Next 6]"
  have t: "core_state (after_power_up demo_calls) = BRIDGE_STATE_EXECUTING"
    "core_owner (after_power_up demo_calls) = 1" "core_id (after_power_up demo_calls) = 7"
    "pending (after_power_up demo_calls) = [\<lparr>modifier = 0, usage = 4\<rparr>, \<lparr>modifier = 2, usage = 4\<rparr>]"
    using demo_typing unfolding abs_core_typing by simp_all
  have "undisturbed (core_owner (after_power_up demo_calls)) (core_id (after_power_up demo_calls)) ?ys"
    "next_calls ?ys \<le> length (pending (after_power_up demo_calls))"
    by (simp_all add: t undisturbed_def)
  from confirmed_job_is_delivered [OF t(1) this] show ?thesis by (simp add: t(4))
qed

text \<open>The lifetime is measured correctly across the wrap of the 32-bit millisecond counter. If
  a job was staged at time \<open>t\<close> (on a clock that does not wrap) and its owner confirms it \<open>e\<close>
  milliseconds later, with \<open>e\<close> below 2^32, then the confirmation succeeds exactly when \<open>e\<close> is
  below the lifetime, and otherwise the job is expired and wiped.\<close>

lemma confirm_window_survives_wrap:
  fixes t e :: nat
  assumes "core_state c = BRIDGE_STATE_STAGED" and "staged_at_ms c = of_nat t" and "e < 2 ^ 32"
  shows "bridge_core_confirm c (core_owner c) (core_id c) (of_nat (t + e)) =
    (if e < unat (ttl_ms c) then (BRIDGE_OK, c\<lparr>core_state := BRIDGE_STATE_EXECUTING\<rparr>)
     else (BRIDGE_ERR_EXPIRED, core_terminate c BRIDGE_STATE_EXPIRED))"
proof -
  have "of_nat (t + e) - staged_at_ms c = (of_nat e :: u32)" using assms(2) by simp
  moreover have "unat (of_nat e :: u32) = e"
    using assms(3) by (simp add: unsigned_of_nat take_bit_nat_eq_self)
  ultimately have "ttl_ms c \<le> of_nat (t + e) - staged_at_ms c \<longleftrightarrow> \<not> e < unat (ttl_ms c)"
    by (simp only: word_le_nat_alt) auto
  then show ?thesis using assms(1) by (simp add: bridge_core_confirm_def bridge_core_tick_def)
qed

end
