(* ===== verification/Controller_Store.thy ===== *)
theory Controller_Store
  imports Bridge_Prelude
begin

section \<open>The controller store (firmware/controller_store.c)\<close>

text \<open>
  Five slots, each a role byte and a 32-byte public key, with a generation number: the device
  decides from them who may open a session and who may enrol or revoke others. The record on
  flash is 188 bytes, little-endian, with the field offsets the C structure has on the target:
  magic 0, schema 4, reserved 6, generation 8, slots 12 (five of 33 bytes), three padding
  bytes, CRC 180, commit word 184. Slot 0 is the recovery administrator. Roles are bytes, as in
  the structure; the enumeration names four of their values.
\<close>

subsection \<open>Types and constants\<close>

record controller_slot =
  slot_role :: u8
  public_key :: bytes

record controller_store =
  generation :: u32
  slots :: "controller_slot list"

datatype store_status =
    CONTROLLER_STORE_OK | CONTROLLER_STORE_ERR_ARGUMENT | CONTROLLER_STORE_ERR_FORMAT
  | CONTROLLER_STORE_ERR_FULL | CONTROLLER_STORE_ERR_DUPLICATE | CONTROLLER_STORE_ERR_ROLE
  | CONTROLLER_STORE_ERR_IMMUTABLE | CONTROLLER_STORE_ERR_NOT_FOUND

definition CONTROLLER_STORE_SLOT_COUNT :: nat where
  [consts_def]: "CONTROLLER_STORE_SLOT_COUNT = 5"
definition CONTROLLER_STORE_KEY_LEN :: nat where
  [consts_def]: "CONTROLLER_STORE_KEY_LEN = 32"
definition CONTROLLER_STORE_SCHEMA :: u16 where
  [consts_def]: "CONTROLLER_STORE_SCHEMA = 1"
definition CONTROLLER_STORE_MAGIC :: u32 where
  [consts_def]: "CONTROLLER_STORE_MAGIC = 0x50424353"
definition CONTROLLER_STORE_COMMIT :: u32 where
  [consts_def]: "CONTROLLER_STORE_COMMIT = 0x43534d54"
definition ROLE_NONE :: u8 where [consts_def]: "ROLE_NONE = 0"
definition ROLE_OPERATOR :: u8 where [consts_def]: "ROLE_OPERATOR = 1"
definition ROLE_ADMIN :: u8 where [consts_def]: "ROLE_ADMIN = 2"
definition ROLE_RECOVERY_ADMIN :: u8 where [consts_def]: "ROLE_RECOVERY_ADMIN = 3"

text \<open>\<open>sizeof(controller_store_record_t)\<close> and the offset of its checksum.\<close>

definition record_size :: nat where [consts_def]: "record_size = 188"
definition crc_offset :: nat where [consts_def]: "crc_offset = 180"

subsection \<open>Helpers\<close>

definition role_valid :: "u8 \<Rightarrow> bool" where
  "role_valid role \<longleftrightarrow> role = ROLE_NONE \<or> role = ROLE_OPERATOR \<or> role = ROLE_ADMIN \<or>
     role = ROLE_RECOVERY_ADMIN"

text \<open>The accumulating loops: no early exit, so the time does not depend on the key.\<close>

fun or_all :: "bytes \<Rightarrow> nat \<Rightarrow> nat \<Rightarrow> u8 \<Rightarrow> u8" where
  "or_all key i 0 value = value"
| "or_all key i (Suc n) value = or_all key (Suc i) n (value OR key ! i)"

definition key_is_zero :: "bytes \<Rightarrow> bool" where
  "key_is_zero key \<longleftrightarrow> or_all key 0 CONTROLLER_STORE_KEY_LEN 0 = 0"

fun xor_all :: "bytes \<Rightarrow> bytes \<Rightarrow> nat \<Rightarrow> nat \<Rightarrow> u8 \<Rightarrow> u8" where
  "xor_all left right i 0 different = different"
| "xor_all left right i (Suc n) different =
     xor_all left right (Suc i) n (different OR (left ! i XOR right ! i))"

definition ct_equal :: "bytes \<Rightarrow> bytes \<Rightarrow> nat \<Rightarrow> bool" where
  "ct_equal left right len \<longleftrightarrow> xor_all left right 0 len 0 = 0"

text \<open>The reflected CRC-32: eight shifts per byte.\<close>

definition crc_bit :: "u32 \<Rightarrow> u32" where
  "crc_bit crc = (let mask = - (crc AND 1) in drop_bit 1 crc XOR (0xedb88320 AND mask))"

definition crc_byte :: "u32 \<Rightarrow> u8 \<Rightarrow> u32" where
  "crc_byte crc b = (crc_bit ^^ 8) (crc XOR ucast b)"

definition crc32 :: "bytes \<Rightarrow> nat \<Rightarrow> u32" where
  "crc32 data len = NOT (foldl crc_byte 0xffffffff (take len data))"

subsection \<open>The record\<close>

definition controller_store_empty :: controller_store where
  "controller_store_empty = \<lparr>generation = 0,
     slots = replicate CONTROLLER_STORE_SLOT_COUNT \<lparr>slot_role = 0, public_key = replicate 32 0\<rparr>\<rparr>"

definition slot_bytes :: "controller_slot \<Rightarrow> bytes" where
  "slot_bytes s = slot_role s # public_key s"

definition slot_at :: "bytes \<Rightarrow> nat \<Rightarrow> controller_slot" where
  "slot_at data off = \<lparr>slot_role = data ! off, public_key = take 32 (drop (off + 1) data)\<rparr>"

text \<open>What \<open>memcpy\<close> into the record makes of its slots.\<close>

definition record_slots :: "bytes \<Rightarrow> controller_slot list" where
  "record_slots data = map (\<lambda>i. slot_at data (12 + 33 * i)) [0..<CONTROLLER_STORE_SLOT_COUNT]"

text \<open>One round of the loop over the slots: role, key, and no earlier slot with the same key.\<close>

definition slot_ok :: "controller_slot list \<Rightarrow> nat \<Rightarrow> bool" where
  "slot_ok ss i \<longleftrightarrow>
     role_valid (slot_role (ss ! i)) \<and>
     (if slot_role (ss ! i) = ROLE_NONE then key_is_zero (public_key (ss ! i))
      else \<not> key_is_zero (public_key (ss ! i))) \<and>
     (\<forall>j \<in> set [0..<i]. \<not> (slot_role (ss ! i) \<noteq> ROLE_NONE \<and> slot_role (ss ! j) \<noteq> ROLE_NONE \<and>
        ct_equal (public_key (ss ! i)) (public_key (ss ! j)) CONTROLLER_STORE_KEY_LEN))"

definition recovery_count :: "controller_slot list \<Rightarrow> nat" where
  "recovery_count ss = length (filter (\<lambda>s. slot_role s = ROLE_RECOVERY_ADMIN) ss)"

text \<open>\<open>record_valid\<close>: the store is the out parameter, written when the record is valid.\<close>

definition record_valid :: "bytes option \<Rightarrow> nat \<Rightarrow> controller_store option" where
  "record_valid data len =
     (case data of None \<Rightarrow> None
      | Some d \<Rightarrow>
          if len < record_size then None
          else if le32_at d 0 \<noteq> CONTROLLER_STORE_MAGIC \<or> le16_at d 4 \<noteq> CONTROLLER_STORE_SCHEMA \<or>
            le16_at d 6 \<noteq> 0 \<or> le32_at d 184 \<noteq> CONTROLLER_STORE_COMMIT \<or>
            le32_at d crc_offset \<noteq> crc32 d crc_offset then None
          else if \<not> (\<forall>i \<in> set [0..<CONTROLLER_STORE_SLOT_COUNT]. slot_ok (record_slots d) i) then None
          else if slot_role (record_slots d ! 0) \<noteq> ROLE_RECOVERY_ADMIN \<or>
            recovery_count (record_slots d) \<noteq> 1 then None
          else Some \<lparr>generation = le32_at d 8, slots = record_slots d\<rparr>)"

definition controller_store_boot ::
  "bytes option \<Rightarrow> nat \<Rightarrow> bytes option \<Rightarrow> nat \<Rightarrow> store_status \<times> controller_store" where
  "controller_store_boot sector_a a_len sector_b b_len =
     (case (record_valid sector_a a_len, record_valid sector_b b_len) of
        (None, None) \<Rightarrow> (CONTROLLER_STORE_ERR_FORMAT, controller_store_empty)
      | (Some a, None) \<Rightarrow> (CONTROLLER_STORE_OK, a)
      | (None, Some b) \<Rightarrow> (CONTROLLER_STORE_OK, b)
      | (Some a, Some b) \<Rightarrow>
          (CONTROLLER_STORE_OK, if generation a \<ge> generation b then a else b))"

definition controller_store_initialise ::
  "controller_store \<Rightarrow> bytes option \<Rightarrow> store_status \<times> controller_store" where
  "controller_store_initialise store key =
     (case key of None \<Rightarrow> (CONTROLLER_STORE_ERR_ARGUMENT, store)
      | Some k \<Rightarrow>
          if key_is_zero k then (CONTROLLER_STORE_ERR_ARGUMENT, store)
          else (CONTROLLER_STORE_OK,
            controller_store_empty\<lparr>generation := 1,
              slots := (slots controller_store_empty)
                [0 := \<lparr>slot_role = ROLE_RECOVERY_ADMIN, public_key = take 32 k\<rparr>]\<rparr>))"

text \<open>The record up to the checksum; the three padding bytes keep the fill value.\<close>

definition record_body :: "controller_store \<Rightarrow> bytes" where
  "record_body store = le32_bytes CONTROLLER_STORE_MAGIC @ le16_bytes CONTROLLER_STORE_SCHEMA @
     le16_bytes 0 @ le32_bytes (generation store) @ concat (map slot_bytes (slots store)) @
     replicate 3 0xff"

definition encode_record :: "controller_store \<Rightarrow> bytes" where
  "encode_record store = record_body store @ le32_bytes (crc32 (record_body store) crc_offset) @
     le32_bytes CONTROLLER_STORE_COMMIT"

text \<open>The output buffer has \<open>out_len\<close> bytes; it is untouched on an error.\<close>

definition controller_store_encode ::
  "controller_store \<Rightarrow> nat \<Rightarrow> store_status \<times> bytes option" where
  "controller_store_encode store out_len =
     (if out_len < record_size then (CONTROLLER_STORE_ERR_ARGUMENT, None)
      else (CONTROLLER_STORE_OK,
        Some (encode_record store @ replicate (out_len - record_size) 0xff)))"

subsection \<open>Lookup and administration\<close>

fun find_slot :: "controller_slot list \<Rightarrow> bytes \<Rightarrow> nat \<Rightarrow> nat \<Rightarrow> (nat \<times> u8) option" where
  "find_slot ss key i 0 = None"
| "find_slot ss key i (Suc n) =
     (if slot_role (ss ! i) \<noteq> ROLE_NONE \<and> ct_equal (public_key (ss ! i)) key CONTROLLER_STORE_KEY_LEN
      then Some (i, slot_role (ss ! i)) else find_slot ss key (Suc i) n)"

text \<open>The out parameters of \<open>controller_store_find\<close> are the second component.\<close>

definition controller_store_find ::
  "controller_store \<Rightarrow> bytes \<Rightarrow> store_status \<times> (nat \<times> u8) option" where
  "controller_store_find store key =
     (case find_slot (slots store) key 0 CONTROLLER_STORE_SLOT_COUNT of
        Some r \<Rightarrow> (CONTROLLER_STORE_OK, Some r)
      | None \<Rightarrow> (CONTROLLER_STORE_ERR_NOT_FOUND, None))"

definition controller_store_is_admin :: "controller_store \<Rightarrow> nat \<Rightarrow> bool" where
  "controller_store_is_admin store slot \<longleftrightarrow> slot < CONTROLLER_STORE_SLOT_COUNT \<and>
     (slot_role (slots store ! slot) = ROLE_ADMIN \<or>
      slot_role (slots store ! slot) = ROLE_RECOVERY_ADMIN)"

fun free_slot :: "controller_slot list \<Rightarrow> nat \<Rightarrow> nat \<Rightarrow> nat option" where
  "free_slot ss i 0 = None"
| "free_slot ss i (Suc n) =
     (if slot_role (ss ! i) = ROLE_NONE then Some i else free_slot ss (Suc i) n)"

text \<open>\<open>controller_store_add\<close>: status, new store, and the slot written through \<open>slot_out\<close>.\<close>

definition controller_store_add ::
  "controller_store \<Rightarrow> nat \<Rightarrow> bytes \<Rightarrow> u8 \<Rightarrow> store_status \<times> controller_store \<times> nat option" where
  "controller_store_add store caller_slot key role =
     (if key_is_zero key \<or> (role \<noteq> ROLE_OPERATOR \<and> role \<noteq> ROLE_ADMIN)
      then (CONTROLLER_STORE_ERR_ARGUMENT, store, None)
      else if \<not> controller_store_is_admin store caller_slot
      then (CONTROLLER_STORE_ERR_ROLE, store, None)
      else if fst (controller_store_find store key) = CONTROLLER_STORE_OK
      then (CONTROLLER_STORE_ERR_DUPLICATE, store, None)
      else case free_slot (slots store) 1 (CONTROLLER_STORE_SLOT_COUNT - 1) of
        Some i \<Rightarrow> (CONTROLLER_STORE_OK,
          store\<lparr>slots := (slots store)[i := \<lparr>slot_role = role, public_key = take 32 key\<rparr>],
                generation := generation store + 1\<rparr>, Some i)
      | None \<Rightarrow> (CONTROLLER_STORE_ERR_FULL, store, None))"

definition controller_store_revoke ::
  "controller_store \<Rightarrow> nat \<Rightarrow> nat \<Rightarrow> store_status \<times> controller_store" where
  "controller_store_revoke store caller_slot target_slot =
     (if caller_slot \<ge> CONTROLLER_STORE_SLOT_COUNT \<or> target_slot \<ge> CONTROLLER_STORE_SLOT_COUNT
      then (CONTROLLER_STORE_ERR_ARGUMENT, store)
      else if \<not> controller_store_is_admin store caller_slot then (CONTROLLER_STORE_ERR_ROLE, store)
      else if target_slot = 0 then (CONTROLLER_STORE_ERR_IMMUTABLE, store)
      else if slot_role (slots store ! target_slot) = ROLE_NONE
      then (CONTROLLER_STORE_ERR_NOT_FOUND, store)
      else (CONTROLLER_STORE_OK,
        store\<lparr>slots := (slots store)[target_slot := \<lparr>slot_role = 0, public_key = replicate 32 0\<rparr>],
              generation := generation store + 1\<rparr>))"

subsection \<open>Entry points with their pointer arguments\<close>

text \<open>
  The null checks of the entry points. The out pointers of \<open>find\<close> and \<open>add\<close> may be null and
  are then not written; the value they would get is part of the result above.
\<close>

definition controller_store_empty_at :: "controller_store option \<Rightarrow> controller_store option" where
  "controller_store_empty_at p = map_option (\<lambda>_. controller_store_empty) p"

definition controller_store_boot_at where
  "controller_store_boot_at p sector_a a_len sector_b b_len =
     (case p of None \<Rightarrow> (CONTROLLER_STORE_ERR_ARGUMENT, None)
      | Some (_ :: controller_store) \<Rightarrow>
          map_prod id Some (controller_store_boot sector_a a_len sector_b b_len))"

definition controller_store_initialise_at where
  "controller_store_initialise_at p key =
     (case p of None \<Rightarrow> (CONTROLLER_STORE_ERR_ARGUMENT, None)
      | Some store \<Rightarrow> map_prod id Some (controller_store_initialise store key))"

definition controller_store_encode_at where
  "controller_store_encode_at p out out_len =
     (case (p, out) of
        (Some store, Some _) \<Rightarrow> (case controller_store_encode store out_len of
            (st, None) \<Rightarrow> (st, out) | (st, Some b) \<Rightarrow> (st, Some (b :: bytes)))
      | _ \<Rightarrow> (CONTROLLER_STORE_ERR_ARGUMENT, out))"

definition controller_store_find_at where
  "controller_store_find_at p key =
     (case (p, key) of (Some store, Some k) \<Rightarrow> controller_store_find store k
      | _ \<Rightarrow> (CONTROLLER_STORE_ERR_ARGUMENT, None))"

definition controller_store_is_admin_at :: "controller_store option \<Rightarrow> nat \<Rightarrow> bool" where
  "controller_store_is_admin_at p slot =
     (case p of None \<Rightarrow> False | Some store \<Rightarrow> controller_store_is_admin store slot)"

definition controller_store_add_at where
  "controller_store_add_at p caller_slot key role =
     (case (p, key) of
        (Some store, Some k) \<Rightarrow> (case controller_store_add store caller_slot k role of
            (st, store, slot) \<Rightarrow> (st, Some store, slot))
      | _ \<Rightarrow> (CONTROLLER_STORE_ERR_ARGUMENT, p, None))"

definition controller_store_revoke_at where
  "controller_store_revoke_at p caller_slot target_slot =
     (case p of None \<Rightarrow> (CONTROLLER_STORE_ERR_ARGUMENT, None)
      | Some store \<Rightarrow> map_prod id Some (controller_store_revoke store caller_slot target_slot))"

subsection \<open>Well-formed stores\<close>

definition zero_key :: bytes where
  "zero_key = replicate 32 0"

definition store_shape :: "controller_store \<Rightarrow> bool" where
  "store_shape s \<longleftrightarrow> length (slots s) = CONTROLLER_STORE_SLOT_COUNT \<and>
     (\<forall>t \<in> set (slots s). length (public_key t) = CONTROLLER_STORE_KEY_LEN)"

text \<open>
  The meaning of a valid record: legal roles, keys exactly in used slots, no key twice, the
  recovery administrator in slot 0 and nowhere else.
\<close>

definition store_wf :: "controller_store \<Rightarrow> bool" where
  "store_wf s \<longleftrightarrow> store_shape s \<and>
     (\<forall>i<5. role_valid (slot_role (slots s ! i)) \<and>
       (slot_role (slots s ! i) = ROLE_NONE \<longleftrightarrow> public_key (slots s ! i) = zero_key) \<and>
       (slot_role (slots s ! i) = ROLE_RECOVERY_ADMIN \<longleftrightarrow> i = 0)) \<and>
     (\<forall>i<5. \<forall>j<i. slot_role (slots s ! i) \<noteq> ROLE_NONE \<longrightarrow>
        public_key (slots s ! i) \<noteq> public_key (slots s ! j))"

subsection \<open>The accumulating comparisons\<close>

lemma word_or_zero_iff: "(a OR b = 0) \<longleftrightarrow> a = 0 \<and> b = (0 :: u8)"
  by (auto simp: u8_eq_bits bit_or_iff)

lemma word_xor_zero_iff: "(a XOR b = 0) \<longleftrightarrow> a = (b :: u8)"
  by (auto simp: u8_eq_bits bit_xor_iff)

lemma or_all_zero:
  "or_all key i n v = 0 \<longleftrightarrow> v = 0 \<and> (\<forall>j. i \<le> j \<and> j < i + n \<longrightarrow> key ! j = 0)"
proof (induction n arbitrary: i v)
  case (Suc n)
  show ?case unfolding or_all.simps Suc.IH word_or_zero_iff range_all_Suc by (rule conj_assoc)
qed simp

lemma xor_all_zero:
  "xor_all l r i n v = 0 \<longleftrightarrow> v = 0 \<and> (\<forall>j. i \<le> j \<and> j < i + n \<longrightarrow> l ! j = r ! j)"
proof (induction n arbitrary: i v)
  case (Suc n)
  show ?case unfolding xor_all.simps Suc.IH word_or_zero_iff word_xor_zero_iff range_all_Suc
    by (rule conj_assoc)
qed simp

lemma length_zero_key [simp]: "length zero_key = 32"
  by (simp add: zero_key_def)

lemma key_is_zero_iff: "length key = 32 \<Longrightarrow> key_is_zero key \<longleftrightarrow> key = zero_key"
  by (auto simp: key_is_zero_def or_all_zero consts_def zero_key_def list_eq_iff_nth_eq)

lemma ct_equal_iff: "length l = n \<Longrightarrow> length r = n \<Longrightarrow> ct_equal l r n \<longleftrightarrow> l = r"
  by (auto simp: ct_equal_def xor_all_zero list_eq_iff_nth_eq)

lemma find_slot_Some:
  "find_slot ss key i n = Some (j, r) \<longleftrightarrow> i \<le> j \<and> j < i + n \<and> r = slot_role (ss ! j) \<and>
     slot_role (ss ! j) \<noteq> ROLE_NONE \<and> ct_equal (public_key (ss ! j)) key CONTROLLER_STORE_KEY_LEN \<and>
     (\<forall>k. i \<le> k \<and> k < j \<longrightarrow> slot_role (ss ! k) = ROLE_NONE \<or>
        \<not> ct_equal (public_key (ss ! k)) key CONTROLLER_STORE_KEY_LEN)"
proof (induction n arbitrary: i)
  case (Suc n)
  let ?hit = "\<lambda>k. slot_role (ss ! k) \<noteq> ROLE_NONE \<and> ct_equal (public_key (ss ! k)) key CONTROLLER_STORE_KEY_LEN"
  show ?case
  proof (cases "?hit i")
    case True
    then have "find_slot ss key i (Suc n) = Some (i, slot_role (ss ! i))" by simp
    moreover have "j = i" if "i \<le> j" "\<forall>k. i \<le> k \<and> k < j \<longrightarrow> \<not> ?hit k"
      using that True by (metis le_neq_implies_less order_refl)
    ultimately show ?thesis using True by (auto simp: less_Suc_eq_le)
  next
    case False
    have "(Suc i \<le> j \<and> (\<forall>k. Suc i \<le> k \<and> k < j \<longrightarrow> \<not> ?hit k) \<and> ?hit j) =
        (i \<le> j \<and> (\<forall>k. i \<le> k \<and> k < j \<longrightarrow> \<not> ?hit k) \<and> ?hit j)"
      using False by (metis Suc_leD Suc_leI le_neq_implies_less)
    then show ?thesis using False by (auto simp: Suc.IH)
  qed
qed simp

lemma find_slot_None:
  "find_slot ss key i n = None \<longleftrightarrow> (\<forall>j. i \<le> j \<and> j < i + n \<longrightarrow> slot_role (ss ! j) = ROLE_NONE \<or>
     \<not> ct_equal (public_key (ss ! j)) key CONTROLLER_STORE_KEY_LEN)"
proof (induction n arbitrary: i)
  case (Suc n)
  show ?case unfolding range_all_Suc by (simp add: Suc.IH)
qed simp

lemma free_slot_Some:
  "free_slot ss i n = Some j \<Longrightarrow> i \<le> j \<and> j < i + n \<and> slot_role (ss ! j) = ROLE_NONE"
  by (induction n arbitrary: i) (fastforce split: if_splits)+

lemma free_slot_None:
  "free_slot ss i n = None \<longleftrightarrow> (\<forall>j. i \<le> j \<and> j < i + n \<longrightarrow> slot_role (ss ! j) \<noteq> ROLE_NONE)"
proof (induction n arbitrary: i)
  case (Suc n)
  show ?case unfolding range_all_Suc by (simp add: Suc.IH)
qed simp

subsection \<open>The checksum\<close>

text \<open>Every step of the CRC is injective, so a change of one byte changes the checksum.\<close>

lemma crc_bit_odd: "crc_bit c = drop_bit 1 c XOR (if odd c then 0xedb88320 else 0)"
proof -
  have "c AND 1 = (if odd c then 1 else 0)" by (simp add: and_one_eq mod_2_eq_odd)
  then show ?thesis by (simp add: crc_bit_def)
qed

lemma crc_bit_top: "bit (crc_bit c) 31 \<longleftrightarrow> odd c"
proof -
  have "\<not> bit (drop_bit 1 c) 31"
    using bit_imp_le_length [of c 32] by (auto simp: bit_drop_bit_eq)
  then show ?thesis by (simp add: crc_bit_odd bit_xor_iff)
qed

lemma crc_bit_inject: "crc_bit a = crc_bit b \<longleftrightarrow> a = b"
proof
  assume e: "crc_bit a = crc_bit b"
  then have o: "odd a = odd b" using crc_bit_top by metis
  have "drop_bit 1 a = drop_bit 1 b"
  proof -
    let ?p = "if odd b then 0xedb88320 else 0 :: u32"
    have "(drop_bit 1 a XOR ?p) XOR ?p = (drop_bit 1 b XOR ?p) XOR ?p"
      using e o by (simp only: crc_bit_odd)
    then show ?thesis by (simp only: xor.assoc xor_self_eq xor.right_neutral)
  qed
  then have "bit (drop_bit 1 a) n = bit (drop_bit 1 b) n" for n by (simp only:)
  then have "bit a (Suc n) = bit b (Suc n)" for n by (simp add: bit_drop_bit_eq)
  moreover have "bit a 0 = bit b 0" using o by (simp add: bit_0)
  ultimately have "bit a n = bit b n" for n by (cases n) simp_all
  then show "a = b" by (simp add: bit_eq_iff)
qed simp

lemma crc_rounds_inject: "(crc_bit ^^ n) a = (crc_bit ^^ n) b \<longleftrightarrow> a = b"
  by (induction n arbitrary: a b) (simp_all add: crc_bit_inject funpow_swap1)

lemma xor_cancel: "(a XOR c = b XOR c) \<longleftrightarrow> a = (b :: u32)"
proof
  assume "a XOR c = b XOR c"
  then have "(a XOR c) XOR c = (b XOR c) XOR c" by (simp only:)
  then show "a = b" by (simp only: xor.assoc xor_self_eq xor.right_neutral)
qed simp

lemma crc_byte_inject: "crc_byte a x = crc_byte b x \<longleftrightarrow> a = b"
  by (simp add: crc_byte_def crc_rounds_inject xor_cancel)

lemma crc_byte_inject_data: "crc_byte a x = crc_byte a y \<longleftrightarrow> x = y"
proof -
  have "(a XOR ucast x = a XOR ucast y) \<longleftrightarrow> ucast x = (ucast y :: u32)"
    using xor_cancel [of "ucast x" a "ucast y"] by (simp only: xor.commute)
  also have "\<dots> \<longleftrightarrow> x = y" unfolding word_unat_eq_iff unat_u8_to_u32 ..
  finally show ?thesis by (simp add: crc_byte_def crc_rounds_inject)
qed

lemma crc_foldl_inject: "foldl crc_byte a xs = foldl crc_byte b xs \<longleftrightarrow> a = b"
  by (induction xs arbitrary: a b) (simp_all add: crc_byte_inject)

lemma crc32_one_byte:
  assumes "i < n" and "n \<le> length xs" and "b \<noteq> xs ! i"
  shows "crc32 (xs[i := b]) n \<noteq> crc32 xs n"
proof -
  have t: "take n xs = take i xs @ xs ! i # take (n - Suc i) (drop (Suc i) xs)"
    using assms(1,2) id_take_nth_drop [of i "take n xs"] by (simp add: drop_take min_def)
  have u: "take n (xs[i := b]) = take i xs @ b # take (n - Suc i) (drop (Suc i) xs)"
    using assms(1,2) upd_conv_take_nth_drop [of i "take n xs" b]
    by (simp add: take_update_swap drop_take min_def)
  have "NOT x = NOT y \<longleftrightarrow> x = y" for x y :: u32 by (rule bit.compl_eq_compl_iff)
  then show ?thesis using assms(3)
    by (simp add: crc32_def t u crc_foldl_inject crc_byte_inject_data)
qed

lemma crc32_take: "n \<le> length xs \<Longrightarrow> crc32 (xs @ ys) n = crc32 xs n"
  by (simp add: crc32_def)

lemma crc32_cong: "\<forall>i<n. xs ! i = ys ! i \<Longrightarrow> n \<le> length xs \<Longrightarrow> n \<le> length ys \<Longrightarrow> crc32 xs n = crc32 ys n"
proof -
  assume "\<forall>i<n. xs ! i = ys ! i" "n \<le> length xs" "n \<le> length ys"
  then have "take n xs = take n ys" by (intro nth_take_lemma) auto
  then show ?thesis by (simp only: crc32_def)
qed

subsection \<open>Encoding and decoding\<close>

lemma slot_at_drop: "off < length d \<Longrightarrow> drop off d = r # rest \<Longrightarrow> slot_at d off = \<lparr>slot_role = r, public_key = take 32 rest\<rparr>"
  by (simp add: slot_at_def hd_drop_conv_nth [symmetric] flip: drop_Suc tl_drop)
    (metis drop_Suc list.sel(3) tl_drop)

lemma length_concat_slots:
  "\<forall>t \<in> set ss. length (public_key t) = 32 \<Longrightarrow> length (concat (map slot_bytes ss)) = 33 * length ss"
  by (induction ss) (simp_all add: slot_bytes_def)

lemma drop_concat_slots:
  assumes "\<forall>t \<in> set ss. length (public_key t) = 32" and "i < length ss"
  shows "drop (33 * i) (concat (map slot_bytes ss) @ r) =
    slot_bytes (ss ! i) @ concat (map slot_bytes (drop (Suc i) ss)) @ r"
  using assms
proof (induction ss arbitrary: i)
  case (Cons t ss)
  show ?case
  proof (cases i)
    case (Suc j)
    have "length (slot_bytes t) = 33" using Cons.prems(1) by (simp add: slot_bytes_def)
    then show ?thesis using Cons.IH [of j] Cons.prems Suc by simp
  qed simp
qed simp

lemma slot_at_record:
  assumes "\<forall>t \<in> set ss. length (public_key t) = 32" and "i < length ss" and "length h = 12"
  shows "slot_at (h @ concat (map slot_bytes ss) @ r) (12 + 33 * i) = ss ! i"
proof -
  let ?d = "h @ concat (map slot_bytes ss) @ r"
  have d: "drop (12 + 33 * i) ?d = slot_bytes (ss ! i) @ concat (map slot_bytes (drop (Suc i) ss)) @ r"
    using drop_concat_slots [OF assms(1,2), of r] assms(3) by simp
  have "33 * i < 33 * length ss" using assms(2) by simp
  then have l: "12 + 33 * i < length ?d" using assms(3) length_concat_slots [OF assms(1)] by simp
  have k: "length (public_key (ss ! i)) = 32" using assms(1,2) by simp
  show ?thesis using slot_at_drop [OF l, of "slot_role (ss ! i)"] d k by (simp add: slot_bytes_def)
qed

lemma store_shape_slots:
  assumes "store_shape s"
  shows "\<forall>t \<in> set (slots s). length (public_key t) = 32" and "length (slots s) = 5"
  using assms by (auto simp: store_shape_def consts_def)

lemma length_record_body: "store_shape s \<Longrightarrow> length (record_body s) = crc_offset"
  using length_concat_slots [OF store_shape_slots(1)] store_shape_slots(2)
  by (simp add: record_body_def consts_def)

lemma length_encode_record: "store_shape s \<Longrightarrow> length (encode_record s) = record_size"
  by (simp add: encode_record_def length_record_body) (simp add: consts_def)

lemma encode_record_fields:
  assumes "store_shape s"
  shows "le32_at (encode_record s @ p) 0 = CONTROLLER_STORE_MAGIC"
    and "le16_at (encode_record s @ p) 4 = CONTROLLER_STORE_SCHEMA"
    and "le16_at (encode_record s @ p) 6 = 0"
    and "le32_at (encode_record s @ p) 8 = generation s"
    and "record_slots (encode_record s @ p) = slots s"
    and "le32_at (encode_record s @ p) 180 = crc32 (encode_record s @ p) crc_offset"
    and "le32_at (encode_record s @ p) 184 = CONTROLLER_STORE_COMMIT"
proof -
  let ?m = "le32_bytes CONTROLLER_STORE_MAGIC" and ?v = "le16_bytes CONTROLLER_STORE_SCHEMA"
  let ?g = "le32_bytes (generation s)" and ?z = "le16_bytes 0"
  let ?ss = "concat (map slot_bytes (slots s))" and ?c = "crc32 (record_body s) crc_offset"
  let ?t = "?ss @ replicate 3 0xff @ le32_bytes ?c @ le32_bytes CONTROLLER_STORE_COMMIT @ p"
  have e: "encode_record s @ p = ?m @ ?v @ ?z @ ?g @ ?t"
    by (simp add: encode_record_def record_body_def)
  have b: "encode_record s @ p = record_body s @ le32_bytes ?c @ le32_bytes CONTROLLER_STORE_COMMIT @ p"
    by (simp add: encode_record_def)
  note l = length_record_body [OF assms]
  show "le32_at (encode_record s @ p) 0 = CONTROLLER_STORE_MAGIC"
    unfolding e using le32_at_bytes [of "[]"] by simp
  show "le16_at (encode_record s @ p) 4 = CONTROLLER_STORE_SCHEMA"
    unfolding e by (rule le16_at_bytes) simp
  show "le16_at (encode_record s @ p) 6 = 0"
    using le16_at_bytes [of "?m @ ?v" 6 0 "?g @ ?t"] unfolding e by simp
  show "le32_at (encode_record s @ p) 8 = generation s"
    using le32_at_bytes [of "?m @ ?v @ ?z" 8 "generation s" ?t] unfolding e by simp
  show "le32_at (encode_record s @ p) 180 = crc32 (encode_record s @ p) crc_offset"
    unfolding b using le32_at_bytes [OF l] l by (simp add: crc32_take) (simp add: consts_def)
  have "length (record_body s @ le32_bytes ?c) = 184" using l by (simp add: consts_def)
  from le32_at_bytes [OF this, of CONTROLLER_STORE_COMMIT p]
  show "le32_at (encode_record s @ p) 184 = CONTROLLER_STORE_COMMIT" unfolding b by simp
  show "record_slots (encode_record s @ p) = slots s"
  proof (rule nth_equalityI)
    show "length (record_slots (encode_record s @ p)) = length (slots s)"
      using store_shape_slots(2) [OF assms] by (simp add: record_slots_def consts_def)
    fix i assume "i < length (record_slots (encode_record s @ p))"
    then have i: "i < length (slots s)" using store_shape_slots(2) [OF assms]
      by (simp add: record_slots_def consts_def)
    have h: "length (?m @ ?v @ ?z @ ?g) = 12" by simp
    show "record_slots (encode_record s @ p) ! i = slots s ! i"
      using slot_at_record [OF store_shape_slots(1) [OF assms] i h] i store_shape_slots(2) [OF assms]
      unfolding e by (simp add: record_slots_def consts_def)
  qed
qed

lemma recovery_once:
  assumes "length ss = 5"
  shows "slot_role (ss ! 0) = ROLE_RECOVERY_ADMIN \<and> recovery_count ss = 1 \<longleftrightarrow>
    (\<forall>i<5. slot_role (ss ! i) = ROLE_RECOVERY_ADMIN \<longleftrightarrow> i = 0)"
proof -
  obtain t ts where ss: "ss = t # ts" using assms by (cases ss) auto
  have l: "length ts = 4" using assms ss by simp
  have z: "filter (\<lambda>s. slot_role s = ROLE_RECOVERY_ADMIN) ts = [] \<longleftrightarrow>
      (\<forall>i<4. slot_role (ts ! i) \<noteq> ROLE_RECOVERY_ADMIN)"
    using l by (auto simp: filter_empty_conv all_set_conv_all_nth)
  have s: "(\<forall>i<5. P i) \<longleftrightarrow> P 0 \<and> (\<forall>i<4. P (Suc i))" for P :: "nat \<Rightarrow> bool"
    using All_less_Suc2 [of 4 P] by simp
  show ?thesis
    unfolding s ss recovery_count_def using z by auto
qed

lemma slot_ok_iff:
  assumes "store_shape s" and "i < 5"
  shows "slot_ok (slots s) i \<longleftrightarrow> role_valid (slot_role (slots s ! i)) \<and>
    (slot_role (slots s ! i) = ROLE_NONE \<longleftrightarrow> public_key (slots s ! i) = zero_key) \<and>
    (\<forall>j<i. slot_role (slots s ! i) \<noteq> ROLE_NONE \<longrightarrow> slot_role (slots s ! j) \<noteq> ROLE_NONE \<longrightarrow>
       public_key (slots s ! i) \<noteq> public_key (slots s ! j))"
proof -
  have l: "length (public_key (slots s ! j)) = 32" if "j \<le> i" for j
    using store_shape_slots [OF assms(1)] assms(2) that by simp
  have e: "ct_equal (public_key (slots s ! i)) (public_key (slots s ! j)) CONTROLLER_STORE_KEY_LEN \<longleftrightarrow>
      public_key (slots s ! i) = public_key (slots s ! j)" if "j < i" for j
    using l [of i] l [of j] that by (intro ct_equal_iff) (simp_all add: consts_def)
  show ?thesis
    unfolding slot_ok_def key_is_zero_iff [OF l [OF order_refl]] using e by auto
qed

lemma all_conj_split:
  "(\<forall>i<n. A i \<and> B i \<and> C i) \<longleftrightarrow> (\<forall>i<n. A i \<and> B i) \<and> (\<forall>i<n. C i)" for n :: nat
  by blast

lemma used_keys_differ:
  fixes k :: "nat \<Rightarrow> bytes"
  assumes "\<forall>i<n. N i \<longleftrightarrow> k i = z"
  shows "(\<forall>i<n. \<forall>j<i. \<not> N i \<longrightarrow> \<not> N j \<longrightarrow> k i \<noteq> k j) \<longleftrightarrow> (\<forall>i<n. \<forall>j<i. \<not> N i \<longrightarrow> k i \<noteq> k j)"
proof -
  have "k i \<noteq> k j" if "i < n" "j < i" "\<not> N i" "N j" for i j
    using that assms by (metis less_trans)
  then show ?thesis by blast
qed

text \<open>The loop over the slots accepts exactly the well-formed stores.\<close>

lemma slots_ok_iff:
  assumes "store_shape s"
  shows "(\<forall>i \<in> set [0..<CONTROLLER_STORE_SLOT_COUNT]. slot_ok (slots s) i) \<and>
      slot_role (slots s ! 0) = ROLE_RECOVERY_ADMIN \<and> recovery_count (slots s) = 1 \<longleftrightarrow> store_wf s"
proof -
  let ?r = "\<lambda>i. slot_role (slots s ! i)" and ?k = "\<lambda>i. public_key (slots s ! i)"
  have "(\<forall>i \<in> set [0..<CONTROLLER_STORE_SLOT_COUNT]. slot_ok (slots s) i) \<longleftrightarrow>
      (\<forall>i<5. role_valid (?r i) \<and> (?r i = ROLE_NONE \<longleftrightarrow> ?k i = zero_key) \<and>
         (\<forall>j<i. ?r i \<noteq> ROLE_NONE \<longrightarrow> ?r j \<noteq> ROLE_NONE \<longrightarrow> ?k i \<noteq> ?k j))"
    using slot_ok_iff [OF assms] by (auto simp: CONTROLLER_STORE_SLOT_COUNT_def)
  also have "\<dots> \<longleftrightarrow> (\<forall>i<5. role_valid (?r i) \<and> (?r i = ROLE_NONE \<longleftrightarrow> ?k i = zero_key)) \<and>
         (\<forall>i<5. \<forall>j<i. ?r i \<noteq> ROLE_NONE \<longrightarrow> ?r j \<noteq> ROLE_NONE \<longrightarrow> ?k i \<noteq> ?k j)"
    by (rule all_conj_split)
  also have "\<dots> \<longleftrightarrow> (\<forall>i<5. role_valid (?r i) \<and> (?r i = ROLE_NONE \<longleftrightarrow> ?k i = zero_key)) \<and>
         (\<forall>i<5. \<forall>j<i. ?r i \<noteq> ROLE_NONE \<longrightarrow> ?k i \<noteq> ?k j)"
  proof (rule conj_cong [OF refl])
    assume "\<forall>i<5. role_valid (?r i) \<and> (?r i = ROLE_NONE \<longleftrightarrow> ?k i = zero_key)"
    then have "\<forall>i<5. ?r i = ROLE_NONE \<longleftrightarrow> ?k i = zero_key" by simp
    from used_keys_differ [OF this] show
      "(\<forall>i<5. \<forall>j<i. ?r i \<noteq> ROLE_NONE \<longrightarrow> ?r j \<noteq> ROLE_NONE \<longrightarrow> ?k i \<noteq> ?k j) \<longleftrightarrow>
       (\<forall>i<5. \<forall>j<i. ?r i \<noteq> ROLE_NONE \<longrightarrow> ?k i \<noteq> ?k j)" .
  qed
  finally show ?thesis
    unfolding recovery_once [OF store_shape_slots(2) [OF assms]] store_wf_def using assms by blast
qed

definition decode_record :: "bytes \<Rightarrow> controller_store option" where
  "decode_record b = record_valid (Some b) (length b)"

lemma record_slots_shape:
  "188 \<le> length d \<Longrightarrow> store_shape \<lparr>generation = g, slots = record_slots d\<rparr>"
  by (auto simp: store_shape_def record_slots_def slot_at_def consts_def)

lemma record_valid_eq:
  assumes "len \<le> length d"
  shows "record_valid (Some d) len = Some s \<longleftrightarrow> 188 \<le> len \<and>
    le32_at d 0 = CONTROLLER_STORE_MAGIC \<and> le16_at d 4 = CONTROLLER_STORE_SCHEMA \<and>
    le16_at d 6 = 0 \<and> le32_at d 184 = CONTROLLER_STORE_COMMIT \<and>
    le32_at d 180 = crc32 d crc_offset \<and> s = \<lparr>generation = le32_at d 8, slots = record_slots d\<rparr> \<and>
    store_wf s"
proof (cases "188 \<le> len")
  case False
  then show ?thesis by (simp add: record_valid_def record_size_def)
next
  case True
  let ?s = "\<lparr>generation = le32_at d 8, slots = record_slots d\<rparr>"
  let ?l = "\<forall>i \<in> set [0..<CONTROLLER_STORE_SLOT_COUNT]. slot_ok (record_slots d) i"
  let ?r = "slot_role (record_slots d ! 0) = ROLE_RECOVERY_ADMIN \<and> recovery_count (record_slots d) = 1"
  have sh: "store_shape ?s" by (rule record_slots_shape) (use assms True in simp)
  have w: "store_wf ?s \<longleftrightarrow> ?l \<and> ?r" using slots_ok_iff [OF sh] by simp
  let ?h = "le32_at d 0 = CONTROLLER_STORE_MAGIC \<and> le16_at d 4 = CONTROLLER_STORE_SCHEMA \<and>
    le16_at d 6 = 0 \<and> le32_at d 184 = CONTROLLER_STORE_COMMIT \<and> le32_at d 180 = crc32 d crc_offset"
  let ?nh = "le32_at d 0 \<noteq> CONTROLLER_STORE_MAGIC \<or> le16_at d 4 \<noteq> CONTROLLER_STORE_SCHEMA \<or>
    le16_at d 6 \<noteq> 0 \<or> le32_at d 184 \<noteq> CONTROLLER_STORE_COMMIT \<or> le32_at d 180 \<noteq> crc32 d crc_offset"
  let ?nr = "slot_role (record_slots d ! 0) \<noteq> ROLE_RECOVERY_ADMIN \<or> recovery_count (record_slots d) \<noteq> 1"
  have n: "(len < 188) = False" using True by simp
  have c: "(if a then None else if \<not> b then None else if r then None else Some x) =
      (if \<not> a \<and> b \<and> \<not> r then Some x else None)" for a b r and x :: controller_store by simp
  have "record_valid (Some d) len =
      (if ?nh then None else if \<not> ?l then None else if ?nr then None else Some ?s)"
    unfolding record_valid_def option.case record_size_def n if_False crc_offset_def ..
  then have "record_valid (Some d) len = (if \<not> ?nh \<and> ?l \<and> \<not> ?nr then Some ?s else None)"
    unfolding c .
  then show ?thesis using True w by auto
qed

lemma decode_record_encode:
  assumes "store_wf s"
  shows "decode_record (encode_record s @ p) = Some s"
proof -
  have sh: "store_shape s" using assms by (simp add: store_wf_def)
  show ?thesis
    using assms encode_record_fields [OF sh, of p] length_encode_record [OF sh]
    unfolding decode_record_def record_valid_eq [OF order_refl] by (simp add: record_size_def)
qed

lemma record_valid_prefix:
  "188 \<le> len \<Longrightarrow> record_valid (Some d) len = record_valid (Some d) 188"
  by (simp add: record_valid_def record_size_def)

lemma decode_record_wf: "decode_record b = Some s \<Longrightarrow> store_wf s"
  unfolding decode_record_def record_valid_eq [OF order_refl] by blast

lemma le_at_update:
  "i < j \<or> j + 3 < i \<Longrightarrow> le32_at (d[i := b]) j = le32_at d j"
  "i < j \<or> j + 1 < i \<Longrightarrow> le16_at (d[i := b]) j = le16_at d j"
  by (auto simp: le32_at_def le16_at_def)

lemma crc32_update_above: "n \<le> i \<Longrightarrow> crc32 (d[i := b]) n = crc32 d n"
  by (simp add: crc32_def)

lemma decode_record_tampered:
  assumes "store_wf s" and "i < length (encode_record s)" and "c \<noteq> encode_record s ! i"
  shows "decode_record ((encode_record s @ p)[i := c]) = None"
proof -
  have sh: "store_shape s" using assms(1) by (simp add: store_wf_def)
  let ?d = "encode_record s @ p"
  note f = encode_record_fields [OF sh, of p]
  have l: "length (encode_record s) = 188" using length_encode_record [OF sh] by (simp add: record_size_def)
  have i: "i < 188" and c: "c \<noteq> ?d ! i" using assms(2,3) l by (simp_all add: nth_append)
  consider "i < 180" | "180 \<le> i" "i < 184" | "184 \<le> i" using i by linarith
  then have "\<not> (le32_at (?d[i := c]) 184 = CONTROLLER_STORE_COMMIT \<and>
      le32_at (?d[i := c]) 180 = crc32 (?d[i := c]) crc_offset)"
  proof cases
    case 1
    then have "crc32 (?d[i := c]) crc_offset \<noteq> crc32 ?d crc_offset"
      using c l by (intro crc32_one_byte) (simp_all add: crc_offset_def)
    then show ?thesis using 1 f(6) by (simp add: le_at_update)
  next
    case 2
    have "i - 180 < 4" using 2 by linarith
    then have "le32_at (?d[i := c]) 180 \<noteq> le32_at ?d 180"
      using le32_at_inject [of "?d[i := c]" 180 ?d "i - 180"] 2 c l by auto
    moreover have "crc32 (?d[i := c]) crc_offset = crc32 ?d crc_offset"
      using 2 by (intro crc32_update_above) (simp add: crc_offset_def)
    ultimately show ?thesis using f(6) by simp
  next
    case 3
    have "i - 184 < 4" using 3 i by linarith
    then have "le32_at (?d[i := c]) 184 \<noteq> le32_at ?d 184"
      using le32_at_inject [of "?d[i := c]" 184 ?d "i - 184"] 3 i c l by auto
    then show ?thesis using f(7) by simp
  qed
  then show ?thesis
    unfolding decode_record_def not_Some_eq [symmetric] record_valid_eq [OF order_refl] by blast
qed

interpretation store_record: sealed_codec encode_record decode_record store_wf
  by unfold_locales (use decode_record_encode decode_record_wf decode_record_tampered in blast)+

subsection \<open>Lookup and administration on well-formed stores\<close>

lemma store_wf_slots:
  assumes "store_wf s"
  shows "length (slots s) = 5" and "i < 5 \<Longrightarrow> length (public_key (slots s ! i)) = 32"
  using assms by (auto simp: store_wf_def store_shape_def consts_def)

lemma store_wf_ct_equal:
  "store_wf s \<Longrightarrow> i < 5 \<Longrightarrow> length k = 32 \<Longrightarrow>
     ct_equal (public_key (slots s ! i)) k CONTROLLER_STORE_KEY_LEN \<longleftrightarrow> public_key (slots s ! i) = k"
  by (rule ct_equal_iff) (simp_all add: store_wf_slots CONTROLLER_STORE_KEY_LEN_def)

lemma used_keys_distinct:
  assumes "store_wf s" and "i < 5" and "j < 5" and "i \<noteq> j" and "slot_role (slots s ! i) \<noteq> ROLE_NONE"
  shows "public_key (slots s ! i) \<noteq> public_key (slots s ! j)"
proof (cases "j < i")
  case True
  then show ?thesis using assms by (simp add: store_wf_def)
next
  case False
  then have "i < j" using assms(4) by simp
  have n: "slot_role (slots s ! x) = ROLE_NONE \<longleftrightarrow> public_key (slots s ! x) = zero_key" if "x < 5" for x
    using assms(1) that by (simp add: store_wf_def)
  have d: "slot_role (slots s ! j) \<noteq> ROLE_NONE \<Longrightarrow> public_key (slots s ! j) \<noteq> public_key (slots s ! i)"
    using assms(1,3) \<open>i < j\<close> by (simp add: store_wf_def)
  show ?thesis using n [OF assms(2)] n [OF assms(3)] d assms(5) by metis
qed

lemma find_iff:
  assumes "store_wf s" and "length k = 32"
  shows "controller_store_find s k = (CONTROLLER_STORE_OK, Some (i, r)) \<longleftrightarrow>
    i < 5 \<and> r \<noteq> ROLE_NONE \<and> slot_role (slots s ! i) = r \<and> public_key (slots s ! i) = k"
proof -
  have "find_slot (slots s) k 0 CONTROLLER_STORE_SLOT_COUNT = Some (i, r) \<longleftrightarrow>
      i < 5 \<and> r \<noteq> ROLE_NONE \<and> slot_role (slots s ! i) = r \<and> public_key (slots s ! i) = k"
  proof -
    have "\<not> ct_equal (public_key (slots s ! j)) k CONTROLLER_STORE_KEY_LEN"
      if "j < i" "i < 5" "public_key (slots s ! i) = k" "slot_role (slots s ! i) \<noteq> ROLE_NONE" for j
      using that used_keys_distinct [OF assms(1), of i j] store_wf_ct_equal [OF assms(1) _ assms(2), of j] by auto
    then show ?thesis
      unfolding find_slot_Some using store_wf_ct_equal [OF assms(1) _ assms(2)]
      by (auto simp: CONTROLLER_STORE_SLOT_COUNT_def)
  qed
  then show ?thesis by (auto simp: controller_store_find_def split: option.splits)
qed

lemma controller_store_find_slot:
  "controller_store_find s k =
     (if find_slot (slots s) k 0 CONTROLLER_STORE_SLOT_COUNT = None then CONTROLLER_STORE_ERR_NOT_FOUND
      else CONTROLLER_STORE_OK, find_slot (slots s) k 0 CONTROLLER_STORE_SLOT_COUNT)"
  by (simp add: controller_store_find_def split: option.split)

lemma find_status:
  "controller_store_find s k = (st, r) \<Longrightarrow>
     (st = CONTROLLER_STORE_OK \<and> r \<noteq> None) \<or> (st = CONTROLLER_STORE_ERR_NOT_FOUND \<and> r = None)"
  unfolding controller_store_find_slot by (auto split: if_splits)

lemma find_none:
  assumes "store_wf s" and "length k = 32" and "fst (controller_store_find s k) \<noteq> CONTROLLER_STORE_OK"
    and "i < 5" and "slot_role (slots s ! i) \<noteq> ROLE_NONE"
  shows "public_key (slots s ! i) \<noteq> k"
  using find_iff [OF assms(1,2), of i "slot_role (slots s ! i)"] assms(3-5) by auto

lemma add_OK:
  assumes "controller_store_add s c k r = (st, t, out)" and "st = CONTROLLER_STORE_OK"
  obtains i where "out = Some i" "1 \<le> i" "i < 5" "slot_role (slots s ! i) = ROLE_NONE"
    "\<not> key_is_zero k" "r = ROLE_OPERATOR \<or> r = ROLE_ADMIN" "controller_store_is_admin s c"
    "fst (controller_store_find s k) \<noteq> CONTROLLER_STORE_OK"
    "t = s\<lparr>slots := (slots s)[i := \<lparr>slot_role = r, public_key = take 32 k\<rparr>], generation := generation s + 1\<rparr>"
proof (cases "free_slot (slots s) 1 (CONTROLLER_STORE_SLOT_COUNT - 1)")
  case None
  then show ?thesis using assms by (simp add: controller_store_add_def split: if_splits)
next
  case (Some i)
  have i: "1 \<le> i" "i < 5" "slot_role (slots s ! i) = ROLE_NONE"
    using free_slot_Some [OF Some] by (simp_all add: CONTROLLER_STORE_SLOT_COUNT_def)
  show ?thesis using assms Some
    by (intro that [OF _ i]) (simp_all add: controller_store_add_def split: if_splits)
qed

lemma add_error: "controller_store_add s c k r = (st, t, out) \<Longrightarrow> st \<noteq> CONTROLLER_STORE_OK \<Longrightarrow> t = s \<and> out = None"
  by (auto simp: controller_store_add_def split: if_splits option.splits)

lemma revoke_OK:
  assumes "controller_store_revoke s c i = (st, t)" and "st = CONTROLLER_STORE_OK"
  shows "c < 5" "i < 5" "i \<noteq> 0" "controller_store_is_admin s c" "slot_role (slots s ! i) \<noteq> ROLE_NONE"
    "t = s\<lparr>slots := (slots s)[i := \<lparr>slot_role = 0, public_key = zero_key\<rparr>], generation := generation s + 1\<rparr>"
  using assms
  by (auto simp: controller_store_revoke_def zero_key_def CONTROLLER_STORE_SLOT_COUNT_def split: if_splits)

lemma revoke_error: "controller_store_revoke s c i = (st, t) \<Longrightarrow> st \<noteq> CONTROLLER_STORE_OK \<Longrightarrow> t = s"
  by (auto simp: controller_store_revoke_def split: if_splits)

text \<open>Writing one slot of a well-formed store.\<close>

lemma store_wf_update:
  assumes "store_wf s" and "0 < i" and "i < 5" and "length k = 32" and "role_valid r"
    and "r \<noteq> ROLE_RECOVERY_ADMIN" and "r = ROLE_NONE \<longleftrightarrow> k = zero_key"
    and new: "r \<noteq> ROLE_NONE \<Longrightarrow> \<forall>j<5. slot_role (slots s ! j) \<noteq> ROLE_NONE \<longrightarrow> public_key (slots s ! j) \<noteq> k"
  shows "store_wf (s\<lparr>slots := (slots s)[i := \<lparr>slot_role = r, public_key = k\<rparr>], generation := g\<rparr>)"
proof -
  note l = store_wf_slots [OF assms(1)]
  have sh: "store_shape (s\<lparr>slots := (slots s)[i := \<lparr>slot_role = r, public_key = k\<rparr>], generation := g\<rparr>)"
    using assms(1,4) set_update_subset_insert [of "slots s" i]
    by (fastforce simp: store_wf_def store_shape_def consts_def)
  let ?s = "(slots s)[i := \<lparr>slot_role = r, public_key = k\<rparr>]"
  have n: "?s ! j = (if j = i then \<lparr>slot_role = r, public_key = k\<rparr> else slots s ! j)" if "j < 5" for j
    using that assms(3) l(1) by simp
  have "public_key (?s ! a) \<noteq> public_key (?s ! b)" if "a < 5" "b < a" "slot_role (?s ! a) \<noteq> ROLE_NONE" for a b
  proof -
    have b: "b < 5" "a \<noteq> b" using that by simp_all
    consider "a = i" "slot_role (slots s ! b) = ROLE_NONE" | "a = i" "slot_role (slots s ! b) \<noteq> ROLE_NONE"
      | "b = i" "r = ROLE_NONE" | "b = i" "r \<noteq> ROLE_NONE" | "a \<noteq> i" "b \<noteq> i" by blast
    then show ?thesis
    proof cases
      case 1
      then have "public_key (slots s ! b) = zero_key" using assms(1) b by (simp add: store_wf_def)
      then show ?thesis using 1 that b assms(7) n by auto
    next
      case 2
      then have "public_key (slots s ! b) \<noteq> k" using new that(3) n [OF that(1)] b(1) by simp
      then show ?thesis using 2 b(2) n [OF that(1)] n [OF b(1)] by simp
    next
      case 3
      then have "public_key (slots s ! a) \<noteq> zero_key" using assms(1) that b n by (auto simp: store_wf_def)
      then show ?thesis using 3 that b assms(7) n by auto
    next
      case 4
      then have "public_key (slots s ! a) \<noteq> k" using new that(1,3) n [OF that(1)] b(2) by simp
      then show ?thesis using 4 b(2) n [OF that(1)] n [OF b(1)] by simp
    next
      case 5
      then show ?thesis using used_keys_distinct [OF assms(1) that(1) b] that b n by auto
    qed
  qed
  moreover have "role_valid (slot_role (?s ! j)) \<and> (slot_role (?s ! j) = ROLE_NONE \<longleftrightarrow> public_key (?s ! j) = zero_key) \<and>
      (slot_role (?s ! j) = ROLE_RECOVERY_ADMIN \<longleftrightarrow> j = 0)" if "j < 5" for j
    using assms(1,2,5-7) that n [OF that] by (auto simp: store_wf_def)
  ultimately show ?thesis using sh by (simp add: store_wf_def)
qed

lemma add_wf:
  assumes "store_wf s" and "length k = 32" and "controller_store_add s c k r = (st, t, out)"
  shows "store_wf t"
proof (cases "st = CONTROLLER_STORE_OK")
  case True
  from assms(3) this show ?thesis
  proof (rule add_OK)
    fix i assume a: "1 \<le> i" "i < 5" "\<not> key_is_zero k" "r = ROLE_OPERATOR \<or> r = ROLE_ADMIN"
      "fst (controller_store_find s k) \<noteq> CONTROLLER_STORE_OK"
      and t: "t = s\<lparr>slots := (slots s)[i := \<lparr>slot_role = r, public_key = take 32 k\<rparr>], generation := generation s + 1\<rparr>"
    show "store_wf t" unfolding t
      using a find_none [OF assms(1,2) a(5)] assms(1,2) key_is_zero_iff [OF assms(2)]
      by (intro store_wf_update) (auto simp: role_valid_def consts_def)
  qed
next
  case False
  then show ?thesis using add_error [OF assms(3)] assms(1) by simp
qed

lemma revoke_wf:
  assumes "store_wf s" and "controller_store_revoke s c i = (st, t)"
  shows "store_wf t"
proof (cases "st = CONTROLLER_STORE_OK")
  case True
  note r = revoke_OK [OF assms(2) True]
  show ?thesis unfolding r(6) using r(2,3) assms(1)
    by (intro store_wf_update) (auto simp: role_valid_def consts_def)
next
  case False
  then show ?thesis using revoke_error [OF assms(2)] assms(1) by simp
qed

subsection \<open>The store as a roster\<close>

definition store_lookup :: "controller_store \<Rightarrow> bytes \<Rightarrow> (nat \<times> u8) option" where
  "store_lookup s k = snd (controller_store_find s k)"

definition store_enrol :: "controller_store \<Rightarrow> nat \<Rightarrow> bytes \<Rightarrow> u8 \<Rightarrow> (controller_store \<times> nat) option" where
  "store_enrol s c k r = (case controller_store_add s c k r of
     (st, t, out) \<Rightarrow> if st = CONTROLLER_STORE_OK then map_option (Pair t) out else None)"

definition store_revoke :: "controller_store \<Rightarrow> nat \<Rightarrow> nat \<Rightarrow> controller_store option" where
  "store_revoke s c i = (case controller_store_revoke s c i of
     (st, t) \<Rightarrow> if st = CONTROLLER_STORE_OK then Some t else None)"

lemma store_lookup_iff:
  assumes "store_wf s" and "length k = 32"
  shows "store_lookup s k = Some (i, r) \<longleftrightarrow>
    i < 5 \<and> r \<noteq> ROLE_NONE \<and> slot_role (slots s ! i) = r \<and> public_key (slots s ! i) = k"
  unfolding store_lookup_def find_iff [OF assms, symmetric]
  by (cases "controller_store_find s k") (auto dest: find_status)

lemma store_enrol_cases:
  assumes "store_enrol s c k r = Some (t, i)"
  shows "controller_store_add s c k r = (CONTROLLER_STORE_OK, t, Some i)"
  using assms by (auto simp: store_enrol_def split: prod.splits if_splits)

lemma store_enrol_slots:
  assumes "store_wf s" and "length k = 32" and "store_enrol s c k r = Some (t, i)"
  shows "controller_store_is_admin s c" and "store_wf t" and "store_lookup s k = None"
    and "0 < i" "i < 5" and "slot_role (slots s ! i) = ROLE_NONE" and "r \<noteq> ROLE_NONE"
    and "slots t = (slots s)[i := \<lparr>slot_role = r, public_key = k\<rparr>]"
proof -
  note a = store_enrol_cases [OF assms(3)]
  show "store_wf t" by (rule add_wf [OF assms(1,2) a])
  from a refl have "controller_store_is_admin s c \<and> store_lookup s k = None \<and> 0 < i \<and> i < 5 \<and>
      slot_role (slots s ! i) = ROLE_NONE \<and> r \<noteq> ROLE_NONE \<and>
      slots t = (slots s)[i := \<lparr>slot_role = r, public_key = k\<rparr>]"
    by (rule add_OK) (use assms(2) in \<open>auto simp: consts_def store_lookup_def controller_store_find_slot
        split: if_splits\<close>)
  then show "controller_store_is_admin s c" "store_lookup s k = None" "0 < i" "i < 5"
    "slot_role (slots s ! i) = ROLE_NONE" "r \<noteq> ROLE_NONE"
    "slots t = (slots s)[i := \<lparr>slot_role = r, public_key = k\<rparr>]" by simp_all
qed

lemma lookup_after_enrol:
  assumes "store_wf s" and "length k = 32" and "length k' = 32" and "store_enrol s c k r = Some (t, i)"
  shows "store_lookup t k' = (if k' = k then Some (i, r) else store_lookup s k')"
proof -
  note e = store_enrol_slots [OF assms(1,2,4)]
  have l: "length (slots s) = 5" by (rule store_wf_slots(1) [OF assms(1)])
  have n: "slots t ! j = (if j = i then \<lparr>slot_role = r, public_key = k\<rparr> else slots s ! j)" if "j < 5" for j
    using that e(8) l by simp
  show ?thesis
  proof (cases "k' = k")
    case True
    have "store_lookup t k' = Some (i, r)"
      unfolding store_lookup_iff [OF e(2) assms(3)] using True e(5,7) n [OF e(5)] by simp
    then show ?thesis using True by simp
  next
    case False
    have "store_lookup t k' = Some (j, r') \<longleftrightarrow> store_lookup s k' = Some (j, r')" for j r'
      unfolding store_lookup_iff [OF e(2) assms(3)] store_lookup_iff [OF assms(1,3)]
      using False e(5,6) n by (cases "j = i") auto
    then show ?thesis using False by (metis not_None_eq surj_pair)
  qed
qed

lemma lookup_after_revoke:
  assumes "store_wf s" and "length k = 32" and "store_revoke s c i = Some t"
  shows "store_lookup t k = (case store_lookup s k of None \<Rightarrow> None
    | Some (j, r) \<Rightarrow> if j = i then None else Some (j, r))"
proof -
  have v: "controller_store_revoke s c i = (CONTROLLER_STORE_OK, t)"
    using assms(3) by (auto simp: store_revoke_def split: prod.splits if_splits)
  note r = revoke_OK [OF v refl] and w = revoke_wf [OF assms(1) v]
  have l: "length (slots s) = 5" by (rule store_wf_slots(1) [OF assms(1)])
  have n: "slots t ! j = (if j = i then \<lparr>slot_role = 0, public_key = zero_key\<rparr> else slots s ! j)" if "j < 5" for j
    using that r(6) l by simp
  have "store_lookup t k = Some (j, r') \<longleftrightarrow> j \<noteq> i \<and> store_lookup s k = Some (j, r')" for j r'
    unfolding store_lookup_iff [OF w assms(2)] store_lookup_iff [OF assms(1,2)]
    using n by (cases "j = i") (auto simp: ROLE_NONE_def)
  then show ?thesis by (auto split: option.split) (metis not_None_eq surj_pair)+
qed

interpretation controllers: roster store_wf controller_store_is_admin "\<lambda>k. length k = 32"
  store_lookup store_enrol store_revoke ROLE_RECOVERY_ADMIN
proof
  fix s t c i j k k' r r'
  show "store_wf s \<Longrightarrow> length k = 32 \<Longrightarrow> store_enrol s c k r = Some (t, i) \<Longrightarrow> store_wf t"
    by (rule store_enrol_slots(2))
  show "store_wf s \<Longrightarrow> store_revoke s c i = Some t \<Longrightarrow> store_wf t"
    by (auto simp: store_revoke_def intro: revoke_wf split: prod.splits if_splits)
  show "store_enrol s c k r = Some (t, i) \<Longrightarrow> controller_store_is_admin s c"
    by (drule store_enrol_cases, erule add_OK) simp_all
  show "store_revoke s c i = Some t \<Longrightarrow> controller_store_is_admin s c"
    by (auto simp: store_revoke_def dest: revoke_OK(4) split: prod.splits if_splits)
  show "store_wf s \<Longrightarrow> length k = 32 \<Longrightarrow> length k' = 32 \<Longrightarrow> store_lookup s k = Some (i, r) \<Longrightarrow>
      store_lookup s k' = Some (i, r') \<Longrightarrow> k' = k"
    by (auto simp: store_lookup_iff)
  show "store_wf s \<Longrightarrow> length k = 32 \<Longrightarrow> store_enrol s c k r = Some (t, i) \<Longrightarrow>
      store_lookup s k = None \<and> (\<forall>k' r'. length k' = 32 \<longrightarrow> store_lookup s k' \<noteq> Some (i, r'))"
    using store_enrol_slots [of s k c r t i] by (auto simp: store_lookup_iff)
  show "store_wf s \<Longrightarrow> length k = 32 \<Longrightarrow> length k' = 32 \<Longrightarrow> store_enrol s c k r = Some (t, i) \<Longrightarrow>
      store_lookup t k' = (if k' = k then Some (i, r) else store_lookup s k')"
    by (rule lookup_after_enrol)
  show "store_wf s \<Longrightarrow> length k = 32 \<Longrightarrow> store_revoke s c i = Some t \<Longrightarrow>
      store_lookup t k = (case store_lookup s k of None \<Rightarrow> None | Some (j, r) \<Rightarrow> if j = i then None else Some (j, r))"
    by (rule lookup_after_revoke)
  show "store_wf s \<Longrightarrow> store_revoke s c 0 = None"
    by (simp add: store_revoke_def controller_store_revoke_def)
qed

subsection \<open>Runs of changes\<close>

datatype store_op = Op_Add nat bytes u8 | Op_Revoke nat nat

text \<open>Keys are arrays of 32 bytes; a caller cannot pass another length.\<close>

fun store_step :: "store_op \<Rightarrow> controller_store \<Rightarrow> store_status \<times> controller_store" where
  "store_step (Op_Add c k r) s =
     (if length k = 32 then (case controller_store_add s c k r of (st, t, _) \<Rightarrow> (st, t))
      else (CONTROLLER_STORE_ERR_ARGUMENT, s))"
| "store_step (Op_Revoke c i) s = controller_store_revoke s c i"

text \<open>What every change keeps: well-formedness and the recovery administrator's slot.\<close>

definition store_keeps :: "controller_slot \<Rightarrow> controller_store \<Rightarrow> bool" where
  "store_keeps root s \<longleftrightarrow> store_wf s \<and> slots s ! 0 = root"

lemma store_step_keeps:
  assumes "store_keeps root s"
  shows "store_keeps root (snd (store_step x s))"
proof (cases x)
  case (Op_Add c k r)
  have w: "store_wf s" and z: "slots s ! 0 = root" using assms by (simp_all add: store_keeps_def)
  obtain st t out where e: "controller_store_add s c k r = (st, t, out)" by (metis prod_cases3)
  have "slots t ! 0 = slots s ! 0"
  proof (cases "st = CONTROLLER_STORE_OK")
    case True
    from e True show ?thesis by (rule add_OK) simp
  qed (use add_error [OF e] in simp)
  then show ?thesis using Op_Add e z w add_wf [OF w _ e] by (simp add: store_keeps_def)
next
  case (Op_Revoke c i)
  have w: "store_wf s" and z: "slots s ! 0 = root" using assms by (simp_all add: store_keeps_def)
  obtain st t where e: "controller_store_revoke s c i = (st, t)" by fastforce
  have "slots t ! 0 = slots s ! 0"
  proof (cases "st = CONTROLLER_STORE_OK")
    case True
    note r = revoke_OK [OF e True]
    show ?thesis unfolding r(6) using r(3) by simp
  qed (use revoke_error [OF e] in simp)
  then show ?thesis using Op_Revoke e z revoke_wf [OF w e] by (simp add: store_keeps_def)
qed

interpretation store: guarded_machine store_step "store_keeps root"
  by unfold_locales (rule store_step_keeps)

definition first_store :: "bytes \<Rightarrow> controller_store" where
  "first_store key = \<lparr>generation = 1, slots = \<lparr>slot_role = ROLE_RECOVERY_ADMIN, public_key = key\<rparr> #
     replicate 4 \<lparr>slot_role = ROLE_NONE, public_key = zero_key\<rparr>\<rparr>"

lemma initialise_first:
  assumes "length key = 32" and "key \<noteq> zero_key"
  shows "controller_store_initialise s (Some key) = (CONTROLLER_STORE_OK, first_store key)"
proof -
  have r: "replicate 5 x = x # replicate 4 x" for x :: controller_slot
    using replicate_Suc [of 4 x] by simp
  show ?thesis
    using assms key_is_zero_iff [OF assms(1)]
    by (simp add: controller_store_initialise_def controller_store_empty_def CONTROLLER_STORE_SLOT_COUNT_def
        r ROLE_NONE_def zero_key_def first_store_def)
qed

lemma first_store_wf:
  assumes "length key = 32" and "key \<noteq> zero_key"
  shows "store_wf (first_store key)"
proof -
  have n: "slots (first_store key) ! i = (if i = 0 then \<lparr>slot_role = ROLE_RECOVERY_ADMIN, public_key = key\<rparr>
      else \<lparr>slot_role = ROLE_NONE, public_key = zero_key\<rparr>)" if "i < 5" for i
    using that by (cases i) (simp_all add: first_store_def)
  have sh: "store_shape (first_store key)"
    using assms(1) by (auto simp: store_shape_def consts_def first_store_def)
  show ?thesis
    unfolding store_wf_def using sh n assms(2) by (auto simp: role_valid_def consts_def)
qed

subsection \<open>Properties\<close>

definition demo_key :: bytes where
  "demo_key = replicate 32 7"

definition demo_store :: controller_store where
  "demo_store = snd (controller_store_initialise controller_store_empty (Some demo_key))"

lemma demo_key_props: "length demo_key = 32" "demo_key \<noteq> zero_key"
proof -
  show "length demo_key = 32" by (simp add: demo_key_def)
  have "demo_key ! 0 \<noteq> zero_key ! 0" by (simp add: demo_key_def zero_key_def)
  then show "demo_key \<noteq> zero_key" by metis
qed

lemma demo_store_wf: "store_wf demo_store" "slots demo_store ! 0 = \<lparr>slot_role = ROLE_RECOVERY_ADMIN, public_key = demo_key\<rparr>"
  "generation demo_store = 1"
  using initialise_first [OF demo_key_props] first_store_wf [OF demo_key_props]
  by (simp_all add: demo_store_def) (simp_all add: first_store_def)

text \<open>The store stays sound. Starting from an initialised store with a nonzero recovery key,
  any sequence of additions and revocations by anyone, with any arguments, leaves a store whose
  used slots hold different nonzero keys and legal roles, whose free slots are zero, and whose
  recovery administrator is still alone in its role, in slot 0, with the same key.\<close>

lemma store_changes_keep_it_sound:
  fixes xs :: "store_op list" and s :: controller_store
  assumes "length key = 32" and "key \<noteq> zero_key"
  defines "t \<equiv> snd (run_ops store_step xs (snd (controller_store_initialise s (Some key))))"
  shows "store_wf t \<and> slots t ! 0 = \<lparr>slot_role = ROLE_RECOVERY_ADMIN, public_key = key\<rparr>"
proof -
  have "store_keeps \<lparr>slot_role = ROLE_RECOVERY_ADMIN, public_key = key\<rparr>
      (snd (controller_store_initialise s (Some key)))"
    using first_store_wf [OF assms(1,2)]
    by (simp add: initialise_first [OF assms(1,2)] store_keeps_def) (simp add: first_store_def)
  from store.run_keeps [OF this, of xs] show ?thesis by (simp add: t_def store_keeps_def)
qed

text \<open>A store survives the flash. Encoding a sound store into a buffer of at least 188 bytes
  and booting from that sector (in either place, next to any sector that is not a newer valid
  record) gives exactly the same store back.\<close>

lemma boot_restores_encoded_store:
  assumes "store_wf s" and "188 \<le> n"
    and "\<forall>z. record_valid other m = Some z \<longrightarrow> generation z < generation s"
  shows "\<exists>b. controller_store_encode s n = (CONTROLLER_STORE_OK, Some b) \<and> length b = n \<and>
    controller_store_boot (Some b) n other m = (CONTROLLER_STORE_OK, s) \<and>
    controller_store_boot other m (Some b) n = (CONTROLLER_STORE_OK, s)"
proof -
  let ?b = "encode_record s @ replicate (n - 188) 0xff"
  have sh: "store_shape s" using assms(1) by (simp add: store_wf_def)
  have l: "length ?b = n" using length_encode_record [OF sh] assms(2) by (simp add: record_size_def)
  have v: "record_valid (Some ?b) n = Some s"
    using decode_record_encode [OF assms(1)] l unfolding decode_record_def by metis
  have "controller_store_encode s n = (CONTROLLER_STORE_OK, Some ?b)"
    using assms(2) by (simp add: controller_store_encode_def record_size_def)
  moreover have "controller_store_boot (Some ?b) n other m = (CONTROLLER_STORE_OK, s)"
    "controller_store_boot other m (Some ?b) n = (CONTROLLER_STORE_OK, s)"
    using v assms(3) by (cases "record_valid other m"; force simp: controller_store_boot_def)+
  ultimately show ?thesis using l by blast
qed

text \<open>Corruption is noticed. If any single byte of the 188 bytes of an encoded record is changed
  to any other value, the record is invalid, and booting from it alone reports a format error with
  an empty store.\<close>

lemma boot_rejects_one_byte_change:
  fixes pad :: bytes
  assumes "store_wf s" and "i < 188" and "c \<noteq> encode_record s ! i"
  defines "b \<equiv> (encode_record s @ pad)[i := c]"
  shows "controller_store_boot (Some b) (length b) None 0 =
    (CONTROLLER_STORE_ERR_FORMAT, controller_store_empty)"
proof -
  have "length (encode_record s) = 188"
    using length_encode_record assms(1) by (simp add: store_wf_def record_size_def)
  then have "decode_record b = None"
    using store_record.tampered [OF assms(1)] assms(2,3) by (simp add: b_def)
  then show ?thesis by (simp add: controller_store_boot_def decode_record_def) (simp add: record_valid_def)
qed

text \<open>A booted store is always sound, whatever the two sectors hold, and it is the newest: boot
  either reports a format error, when neither sector holds a valid record, or returns the record
  of a sector whose generation is not below the other valid one.\<close>

lemma boot_is_sound_and_newest:
  assumes "controller_store_boot (Some a) (length a) (Some b) (length b) = (st, s)"
  shows "(st = CONTROLLER_STORE_ERR_FORMAT \<and> decode_record a = None \<and> decode_record b = None) \<or>
    (st = CONTROLLER_STORE_OK \<and> store_wf s \<and> Some s \<in> {decode_record a, decode_record b} \<and>
     (\<forall>z. Some z \<in> {decode_record a, decode_record b} \<longrightarrow> generation z \<le> generation s))"
  using assms
  by (cases "decode_record a"; cases "decode_record b")
    (auto simp: controller_store_boot_def decode_record_def [symmetric] dest: decode_record_wf split: if_splits)

text \<open>C11: what enrolling and revoking mean for the later lookups of any other party. An addition that
  succeeds was asked for by an administrator, concerns a key that was unknown, and changes the
  lookup of that key only; a revocation that succeeds was asked for by an administrator and makes
  exactly the key of that slot unknown; a refused request changes nothing.\<close>

theorem enrolment_and_revocation:
  assumes "store_wf s" and "length k = 32" and "length k' = 32"
  shows "(case controller_store_add s c k r of (st, t, out) \<Rightarrow>
      if st = CONTROLLER_STORE_OK
      then controller_store_is_admin s c \<and> store_lookup s k = None \<and>
        (\<exists>i. out = Some i \<and> store_lookup t k' = (if k' = k then Some (i, r) else store_lookup s k'))
      else t = s) \<and>
    (case controller_store_revoke s c i of (st, t) \<Rightarrow>
      if st = CONTROLLER_STORE_OK
      then controller_store_is_admin s c \<and> store_lookup t k = (case store_lookup s k of
          None \<Rightarrow> None | Some (j, r) \<Rightarrow> if j = i then None else Some (j, r))
      else t = s)"
proof (rule conjI)
  obtain st t out where a: "controller_store_add s c k r = (st, t, out)" by (metis prod_cases3)
  show "case controller_store_add s c k r of (st, t, out) \<Rightarrow>
      if st = CONTROLLER_STORE_OK
      then controller_store_is_admin s c \<and> store_lookup s k = None \<and>
        (\<exists>i. out = Some i \<and> store_lookup t k' = (if k' = k then Some (i, r) else store_lookup s k'))
      else t = s"
  proof (cases "st = CONTROLLER_STORE_OK")
    case True
    then obtain j where j: "out = Some j" using a by (auto elim: add_OK)
    then have e: "store_enrol s c k r = Some (t, j)" using a True by (simp add: store_enrol_def)
    show ?thesis
      using True j a controllers.enrol_admin [OF e] controllers.enrol_new [OF assms(1,2) e]
        controllers.lookup_enrol [OF assms(1,2,3) e] by simp
  qed (use add_error [OF a] a in simp)
next
  obtain st t where a: "controller_store_revoke s c i = (st, t)" by fastforce
  show "case controller_store_revoke s c i of (st, t) \<Rightarrow>
      if st = CONTROLLER_STORE_OK
      then controller_store_is_admin s c \<and> store_lookup t k = (case store_lookup s k of
          None \<Rightarrow> None | Some (j, r) \<Rightarrow> if j = i then None else Some (j, r))
      else t = s"
  proof (cases "st = CONTROLLER_STORE_OK")
    case True
    then have e: "store_revoke s c i = Some t" using a by (simp add: store_revoke_def)
    show ?thesis using True a controllers.revoke_admin [OF e] controllers.lookup_revoke [OF assms(1,2) e] by simp
  qed (use revoke_error [OF a] a in simp)
qed

theorem enrolment_and_revocation_witness:
  "controller_store_revoke demo_store 0 0 = (CONTROLLER_STORE_ERR_IMMUTABLE, demo_store) \<and>
   (case controller_store_add demo_store 0 (replicate 32 9) ROLE_ADMIN of (st, t, out) \<Rightarrow>
      if st = CONTROLLER_STORE_OK
      then controller_store_is_admin demo_store 0 \<and> store_lookup demo_store (replicate 32 9) = None \<and>
        (\<exists>i. out = Some i \<and> store_lookup t demo_key =
           (if demo_key = replicate 32 9 then Some (i, ROLE_ADMIN) else store_lookup demo_store demo_key))
      else t = demo_store)"
proof -
  have "controller_store_is_admin demo_store 0"
    by (simp add: controller_store_is_admin_def demo_store_wf(2) consts_def)
  then have f: "controller_store_revoke demo_store 0 0 = (CONTROLLER_STORE_ERR_IMMUTABLE, demo_store)"
    by (simp add: controller_store_revoke_def consts_def)
  have l: "length (replicate 32 (9 :: u8)) = 32" by simp
  show ?thesis
    by (rule conjI [OF f conjunct1 [OF enrolment_and_revocation [OF demo_store_wf(1) l demo_key_props(1)]]])
qed

end
