(* ===== verification/Radio_Config.thy ===== *)
theory Radio_Config
  imports Controller_Store
begin

section \<open>Wi-Fi credential records (firmware/radio/radio_config.c)\<close>

text \<open>
  The 4096-byte sector image of the Wi-Fi credentials: the parser shared by both schemas and
  the builder of schema 2. The parsed record holds its two strings in fixed C arrays of 33 and
  64 bytes, zero terminated; its certificate pointers into the sector are offsets, \<open>None\<close>
  for the null pointer. The function result and the out parameter are a pair; a null \<open>out\<close> is
  the argument \<open>False\<close> of the \<open>_at\<close> variants.
\<close>

definition RADIO_SECTOR_SIZE :: nat where [consts_def]: "RADIO_SECTOR_SIZE = 4096"

record radio_config =
  ssid :: bytes
  psk :: bytes
  cert :: "nat option"
  cert_key :: "nat option"
  cert_len :: nat
  key_len :: nat

definition radio_config_zero :: radio_config where
  "radio_config_zero = \<lparr>ssid = replicate 33 0, psk = replicate 64 0, cert = None, cert_key = None,
     cert_len = 0, key_len = 0\<rparr>"

definition radio_le16 :: "bytes \<Rightarrow> nat \<Rightarrow> nat" where
  "radio_le16 s i = unat (le16_at s i)"

text \<open>The counted loops over the sector: printable strings, erased rest, checksum.\<close>

fun all_printable :: "bytes \<Rightarrow> nat \<Rightarrow> nat \<Rightarrow> bool" where
  "all_printable s i 0 \<longleftrightarrow> True"
| "all_printable s i (Suc n) \<longleftrightarrow> (if s ! i < 32 \<or> s ! i > 126 then False else all_printable s (Suc i) n)"

fun all_erased :: "bytes \<Rightarrow> nat \<Rightarrow> nat \<Rightarrow> bool" where
  "all_erased s i 0 \<longleftrightarrow> True"
| "all_erased s i (Suc n) \<longleftrightarrow> (if s ! i \<noteq> 255 then False else all_erased s (Suc i) n)"

fun radio_crc :: "bytes \<Rightarrow> nat \<Rightarrow> nat \<Rightarrow> u32 \<Rightarrow> u32" where
  "radio_crc s i 0 crc = crc"
| "radio_crc s i (Suc n) crc = radio_crc s (Suc i) n (crc_byte crc (s ! i))"

text \<open>\<open>"PBRAD01\0"\<close> and \<open>"PBRAD02\0"\<close>.\<close>

definition magic1 :: bytes where "magic1 = [0x50, 0x42, 0x52, 0x41, 0x44, 0x30, 0x31, 0]"
definition magic2 :: bytes where "magic2 = [0x50, 0x42, 0x52, 0x41, 0x44, 0x30, 0x32, 0]"

text \<open>The checks of the parser, in order, up to the first \<open>return false\<close>.\<close>

definition parse_checks :: "bytes \<Rightarrow> nat \<Rightarrow> bytes \<Rightarrow> nat \<Rightarrow> nat \<Rightarrow> bool \<Rightarrow> bool" where
  "parse_checks s n magic schema psk_min certs_mandatory =
     (if n \<noteq> RADIO_SECTOR_SIZE then False
      else if take 8 s \<noteq> magic \<or> radio_le16 s 8 \<noteq> schema then False
      else let a = radio_le16 s 16; b = radio_le16 s 18; c = radio_le16 s 20; d = radio_le16 s 22 in
      if a < 1 \<or> a > 32 \<or> b < psk_min \<or> b > 63 then False
      else if (if certs_mandatory then c < 1 \<or> c > 2048 \<or> d < 1 \<or> d > 1024
          else c > 2048 \<or> d > 1024 \<or> ((c = 0) \<noteq> (d = 0))) then False
      else if 24 + a + b + c + d > n then False
      else let total = radio_le16 s 10 in
      if total \<noteq> 24 + a + b + c + d \<or> total > n then False
      else if \<not> all_printable s 24 (a + b) then False
      else if \<not> all_erased s total (n - total) then False
      else if radio_crc s 16 (total - 16) 0xffffffff XOR 0xffffffff \<noteq> le32_at s 12 then False
      else True)"

definition parsed_config :: "bytes \<Rightarrow> radio_config" where
  "parsed_config s =
     (let a = radio_le16 s 16; b = radio_le16 s 18; c = radio_le16 s 20; d = radio_le16 s 22 in
      \<lparr>ssid = take a (drop 24 s) @ replicate (33 - a) 0,
       psk = take b (drop (24 + a) s) @ replicate (64 - b) 0,
       cert = Some (24 + a + b), cert_key = Some (24 + a + b + c), cert_len = c, key_len = d\<rparr>)"

definition parse_common ::
  "bytes option \<Rightarrow> nat \<Rightarrow> bytes \<Rightarrow> nat \<Rightarrow> nat \<Rightarrow> bool \<Rightarrow> bool \<times> radio_config" where
  "parse_common sector n magic schema psk_min certs_mandatory =
     (case sector of None \<Rightarrow> (False, radio_config_zero)
      | Some s \<Rightarrow> if parse_checks s n magic schema psk_min certs_mandatory
          then (True, parsed_config s) else (False, radio_config_zero))"

definition radio_config_parse :: "bytes option \<Rightarrow> nat \<Rightarrow> bool \<times> radio_config" where
  "radio_config_parse s n = parse_common s n magic1 1 20 True"

definition radio_config_parse2 :: "bytes option \<Rightarrow> nat \<Rightarrow> bool \<times> radio_config" where
  "radio_config_parse2 s n = parse_common s n magic2 2 8 False"

definition radio_config_parse_at :: "bool \<Rightarrow> bytes option \<Rightarrow> nat \<Rightarrow> bool \<times> radio_config option" where
  "radio_config_parse_at out s n =
     (if \<not> out then (False, None) else (case radio_config_parse s n of (ok, cfg) \<Rightarrow> (ok, Some cfg)))"

definition radio_config_parse2_at :: "bool \<Rightarrow> bytes option \<Rightarrow> nat \<Rightarrow> bool \<times> radio_config option" where
  "radio_config_parse2_at out s n =
     (if \<not> out then (False, None) else (case radio_config_parse2 s n of (ok, cfg) \<Rightarrow> (ok, Some cfg)))"

text \<open>
  The builder. The lengths are the argument lengths, at most the buffers' sizes; the image is
  written only on success. \<open>total\<close> and the lengths are stored by their two low bytes.
\<close>

definition nat_le16 :: "nat \<Rightarrow> bytes" where
  "nat_le16 v = [of_nat v, of_nat (v div 256)]"

definition build2_crc :: "bytes \<Rightarrow> nat \<Rightarrow> bytes \<Rightarrow> nat \<Rightarrow> u32" where
  "build2_crc name ssid_len pass psk_len =
     (let crc = radio_crc (nat_le16 ssid_len @ nat_le16 psk_len @ [0, 0, 0, 0]) 0 8 0xffffffff;
          crc = radio_crc name 0 ssid_len crc;
          crc = radio_crc pass 0 psk_len crc in crc XOR 0xffffffff)"

definition radio_image :: "bytes \<Rightarrow> nat \<Rightarrow> bytes \<Rightarrow> nat \<Rightarrow> bytes" where
  "radio_image name ssid_len pass psk_len =
     (let total = 24 + ssid_len + psk_len in
      magic2 @ [2, 0] @ nat_le16 total @ le32_bytes (build2_crc name ssid_len pass psk_len) @
        nat_le16 ssid_len @ nat_le16 psk_len @ [0, 0, 0, 0] @ take ssid_len name @ take psk_len pass @
        replicate (RADIO_SECTOR_SIZE - total) 0xff)"

definition radio_config_build2 :: "bytes option \<Rightarrow> nat \<Rightarrow> bytes option \<Rightarrow> nat \<Rightarrow> bytes option" where
  "radio_config_build2 ssid_arg ssid_len psk_arg psk_len =
     (case (ssid_arg, psk_arg) of
        (Some name, Some pass) \<Rightarrow>
          if ssid_len < 1 \<or> ssid_len > 32 then None
          else if psk_len < 8 \<or> psk_len > 63 then None
          else if \<not> all_printable name 0 ssid_len then None
          else if \<not> all_printable pass 0 psk_len then None
          else Some (radio_image name ssid_len pass psk_len)
      | _ \<Rightarrow> None)"

subsection \<open>The loops\<close>

lemma all_printable_iff:
  "all_printable s i n \<longleftrightarrow> (\<forall>j. i \<le> j \<and> j < i + n \<longrightarrow> 32 \<le> s ! j \<and> s ! j \<le> 126)"
proof (induction n arbitrary: i)
  case (Suc n)
  show ?case unfolding range_all_Suc all_printable.simps Suc.IH by (auto simp: not_less)
qed simp

lemma all_erased_iff: "all_erased s i n \<longleftrightarrow> (\<forall>j. i \<le> j \<and> j < i + n \<longrightarrow> s ! j = 255)"
proof (induction n arbitrary: i)
  case (Suc n)
  show ?case unfolding range_all_Suc all_erased.simps Suc.IH by auto
qed simp

lemma radio_crc_foldl:
  "i + n \<le> length s \<Longrightarrow> radio_crc s i n crc = foldl crc_byte crc (take n (drop i s))"
proof (induction n arbitrary: i crc)
  case (Suc n)
  then have "drop i s = s ! i # drop (Suc i) s" by (simp add: Cons_nth_drop_Suc)
  then show ?case using Suc by simp
qed simp

lemma xor_all_ones: "(x XOR 0xffffffff) = NOT (x :: u32)"
proof -
  have "(0xffffffff :: u32) = - 1" by simp
  then show ?thesis by (metis bit.xor_one_right)
qed

subsection \<open>Reading the fields of an image\<close>

lemma nat_le16_bytes: "nat_le16 v = le16_bytes (of_nat v)"
proof -
  have d: "v div 256 = drop_bit 8 v" by (simp add: drop_bit_eq_div)
  have "(of_nat (v div 256) :: u8) = ucast (drop_bit 8 (of_nat v :: u16))"
    unfolding d by (rule bit_word_eqI) (simp add: bit_ucast_iff bit_drop_bit_eq bit_of_nat_iff add.commute)
  moreover have "(of_nat v :: u8) = ucast (of_nat v :: u16)"
    by (rule bit_word_eqI) (simp add: bit_ucast_iff bit_of_nat_iff)
  ultimately show ?thesis by (simp only: nat_le16_def le16_bytes_def)
qed

lemma length_nat_le16 [simp]: "length (nat_le16 v) = 2"
  by (simp add: nat_le16_def)

lemma radio_le16_nat:
  "v < 65536 \<Longrightarrow> length xs = i \<Longrightarrow> radio_le16 (xs @ nat_le16 v @ ys) i = v"
  by (simp add: radio_le16_def nat_le16_bytes le16_at_bytes unat_of_nat)

lemma radio_le16_changed:
  assumes "k < 2" and "xs ! (i + k) \<noteq> ys ! (i + k)" and "xs ! (i + (1 - k)) = ys ! (i + (1 - k))"
  shows "radio_le16 xs i \<noteq> radio_le16 ys i"
proof
  assume "radio_le16 xs i = radio_le16 ys i"
  then have e: "le16_at xs i = le16_at ys i" by (simp add: radio_le16_def word_unat_eq_iff)
  have b: "bit (le16_at zs i) (8 * k + n) = bit (zs ! (i + k)) n" if "n < 8" for zs n
  proof -
    have "k = 0 \<or> k = 1" using assms(1) by linarith
    then show ?thesis using that
      by (elim disjE) (auto simp: le16_at_def bit_or_iff bit_push_bit_iff bit_ucast_iff dest: bit_imp_le_length)
  qed
  have "xs ! (i + k) = ys ! (i + k)" by (rule bit_word_eqI) (use b [of _ xs] b [of _ ys] e in simp)
  then show False using assms(2) by simp
qed

text \<open>The parser in one formula.\<close>

definition record_accepted :: "bytes \<Rightarrow> bytes \<Rightarrow> nat \<Rightarrow> nat \<Rightarrow> bool \<Rightarrow> bool" where
  "record_accepted s magic schema psk_min certs \<longleftrightarrow>
     (let a = radio_le16 s 16; b = radio_le16 s 18; c = radio_le16 s 20; d = radio_le16 s 22;
          total = radio_le16 s 10 in
      take 8 s = magic \<and> radio_le16 s 8 = schema \<and> 1 \<le> a \<and> a \<le> 32 \<and> psk_min \<le> b \<and> b \<le> 63 \<and>
      (if certs then 1 \<le> c \<and> c \<le> 2048 \<and> 1 \<le> d \<and> d \<le> 1024
       else c \<le> 2048 \<and> d \<le> 1024 \<and> (c = 0) = (d = 0)) \<and>
      total = 24 + a + b + c + d \<and> total \<le> 4096 \<and>
      (\<forall>j. 24 \<le> j \<and> j < 24 + (a + b) \<longrightarrow> 32 \<le> s ! j \<and> s ! j \<le> 126) \<and>
      (\<forall>j. total \<le> j \<and> j < total + (4096 - total) \<longrightarrow> s ! j = 255) \<and>
      NOT (foldl crc_byte 0xffffffff (take (total - 16) (drop 16 s))) = le32_at s 12)"

lemma checks_logic:
  fixes a b c d total lo n :: nat
  assumes "total = 24 + a + b + c + d \<Longrightarrow> total \<le> n \<Longrightarrow> K = K'"
  shows "(if \<not> M \<or> \<not> S then False
      else if a < 1 \<or> a > 32 \<or> b < lo \<or> b > 63 then False
      else if (if certs then c < 1 \<or> c > 2048 \<or> d < 1 \<or> d > 1024
          else c > 2048 \<or> d > 1024 \<or> ((c = 0) \<noteq> (d = 0))) then False
      else if 24 + a + b + c + d > n then False
      else if total \<noteq> 24 + a + b + c + d \<or> total > n then False
      else if \<not> P then False else if \<not> E then False else if \<not> K then False else True) \<longleftrightarrow>
    (M \<and> S \<and> 1 \<le> a \<and> a \<le> 32 \<and> lo \<le> b \<and> b \<le> 63 \<and>
      (if certs then 1 \<le> c \<and> c \<le> 2048 \<and> 1 \<le> d \<and> d \<le> 1024
       else c \<le> 2048 \<and> d \<le> 1024 \<and> (c = 0) = (d = 0)) \<and>
      total = 24 + a + b + c + d \<and> total \<le> n \<and> P \<and> E \<and> K')"
proof (cases "total = 24 + a + b + c + d \<and> total \<le> n")
  case True
  then have "K = K'" "\<not> 24 + a + b + c + d > n" using assms by auto
  then show ?thesis using True by (cases certs) (auto simp: not_less)
qed auto

lemma parse_checks_accepted:
  assumes "length s = 4096"
  shows "parse_checks s 4096 magic schema psk_min certs \<longleftrightarrow> record_accepted s magic schema psk_min certs"
proof -
  have crc: "(radio_crc s 16 (total - 16) 0xffffffff XOR 0xffffffff = le32_at s 12) =
      (NOT (foldl crc_byte 0xffffffff (take (total - 16) (drop 16 s))) = le32_at s 12)"
    if "total = 24 + a + b + c + d" "total \<le> 4096" for total a b c d
    using assms that by (simp add: radio_crc_foldl xor_all_ones)
  show ?thesis
    unfolding parse_checks_def record_accepted_def RADIO_SECTOR_SIZE_def Let_def
      all_printable_iff all_erased_iff
    by (simp only: refl not_True_eq_False if_False, rule checks_logic, rule crc)
qed

lemma parse_common_accepted:
  assumes "length s = 4096"
  shows "parse_common (Some s) 4096 magic schema psk_min certs =
    (if record_accepted s magic schema psk_min certs then (True, parsed_config s) else (False, radio_config_zero))"
  by (simp add: parse_common_def parse_checks_accepted [OF assms])

subsection \<open>The image built\<close>

definition printable :: "bytes \<Rightarrow> bool" where
  "printable s \<longleftrightarrow> (\<forall>b \<in> set s. 32 \<le> b \<and> b \<le> 126)"

text \<open>Credentials a record can hold.\<close>

definition credentials_ok :: "bytes \<times> bytes \<Rightarrow> bool" where
  "credentials_ok w \<longleftrightarrow> (case w of (name, pass) \<Rightarrow> 1 \<le> length name \<and> length name \<le> 32 \<and>
     8 \<le> length pass \<and> length pass \<le> 63 \<and> printable name \<and> printable pass)"

definition credentials_image :: "bytes \<times> bytes \<Rightarrow> bytes" where
  "credentials_image w = (case w of (name, pass) \<Rightarrow> radio_image name (length name) pass (length pass))"

text \<open>The credentials a stored record gives.\<close>

definition stored_credentials :: "bytes \<Rightarrow> (bytes \<times> bytes) option" where
  "stored_credentials s = (case radio_config_parse2 (Some (take 4096 s)) (length (take 4096 s)) of
     (ok, cfg) \<Rightarrow> if ok then Some (c_string (ssid cfg), c_string (psk cfg)) else None)"

lemma all_printable_printable: "all_printable s 0 (length s) \<longleftrightarrow> printable s"
  by (auto simp: all_printable_iff printable_def all_set_conv_all_nth)

lemma build2_iff:
  "radio_config_build2 (Some name) (length name) (Some pass) (length pass) =
     (if credentials_ok (name, pass) then Some (credentials_image (name, pass)) else None)"
  by (auto simp: radio_config_build2_def credentials_ok_def credentials_image_def all_printable_printable
      Suc_le_eq)

lemma c_string_pad: "printable s \<Longrightarrow> c_string (s @ replicate k 0) = s"
proof -
  assume "printable s"
  then have "\<forall>b \<in> set s. b \<noteq> 0" by (auto simp: printable_def)
  then show ?thesis by (induction s) (auto simp: c_string_def)
qed

lemma build2_crc_eq:
  "build2_crc name (length name) pass (length pass) =
     NOT (foldl crc_byte 0xffffffff (nat_le16 (length name) @ nat_le16 (length pass) @ [0, 0, 0, 0] @ name @ pass))"
  by (simp add: build2_crc_def Let_def radio_crc_foldl xor_all_ones)

lemma image_parts:
  fixes name pass img :: bytes and total :: nat
  assumes total_def: "total = 24 + length name + length pass" and img_def: "img = credentials_image (name, pass)"
    and "total \<le> 4096"
  shows "length img = 4096" and "take 8 img = magic2" and "radio_le16 img 8 = 2" and "radio_le16 img 10 = total"
    and "radio_le16 img 16 = length name" and "radio_le16 img 18 = length pass" and "radio_le16 img 20 = 0"
    and "radio_le16 img 22 = 0" and "le32_at img 12 = build2_crc name (length name) pass (length pass)"
    and "drop 24 img = name @ pass @ replicate (4096 - total) 0xff"
    and "take (total - 16) (drop 16 img) =
      nat_le16 (length name) @ nat_le16 (length pass) @ [0, 0, 0, 0] @ name @ pass"
proof -
  let ?crc = "le32_bytes (build2_crc name (length name) pass (length pass))"
  let ?rest = "name @ pass @ replicate (4096 - total) 0xff"
  have z: "nat_le16 0 = [0, 0]" "nat_le16 2 = [2, 0]" by (simp_all add: nat_le16_def)
  have img: "img = magic2 @ nat_le16 2 @ nat_le16 total @ ?crc @ nat_le16 (length name) @ nat_le16 (length pass) @
      nat_le16 0 @ nat_le16 0 @ ?rest"
    by (simp add: img_def credentials_image_def radio_image_def Let_def total_def RADIO_SECTOR_SIZE_def z)
  have l: "length magic2 = 8" by (simp add: magic2_def)
  show "length img = 4096" "take 8 img = magic2" using assms(3) by (simp_all add: img l total_def)
  show "drop 24 img = ?rest" by (simp add: img l)
  show "take (total - 16) (drop 16 img) =
      nat_le16 (length name) @ nat_le16 (length pass) @ [0, 0, 0, 0] @ name @ pass"
    by (simp add: img l total_def z take_Cons')
  show "radio_le16 img 8 = 2" unfolding img by (rule radio_le16_nat) (simp_all add: l)
  show "radio_le16 img 10 = total"
    using radio_le16_nat [of total "magic2 @ nat_le16 2" 10] assms(3) by (simp add: img l)
  show "radio_le16 img 16 = length name"
    using radio_le16_nat [of "length name" "magic2 @ nat_le16 2 @ nat_le16 total @ ?crc" 16] assms(3)
    by (simp add: img l total_def)
  show "radio_le16 img 18 = length pass"
    using radio_le16_nat [of "length pass" "magic2 @ nat_le16 2 @ nat_le16 total @ ?crc @ nat_le16 (length name)" 18] assms(3)
    by (simp add: img l total_def)
  show "radio_le16 img 20 = 0"
    using radio_le16_nat [of 0 "magic2 @ nat_le16 2 @ nat_le16 total @ ?crc @ nat_le16 (length name) @ nat_le16 (length pass)" 20]
    by (simp add: img l)
  show "radio_le16 img 22 = 0"
    using radio_le16_nat [of 0 "magic2 @ nat_le16 2 @ nat_le16 total @ ?crc @ nat_le16 (length name) @ nat_le16 (length pass) @
      nat_le16 0" 22] by (simp add: img l)
  show "le32_at img 12 = build2_crc name (length name) pass (length pass)"
    using le32_at_bytes [of "magic2 @ nat_le16 2 @ nat_le16 total" 12] by (simp add: img l)
qed

lemma image_accepted:
  assumes "credentials_ok (name, pass)"
  shows "record_accepted (credentials_image (name, pass)) magic2 2 8 False"
proof -
  have o: "1 \<le> length name" "length name \<le> 32" "8 \<le> length pass" "length pass \<le> 63" "printable name" "printable pass"
    using assms by (simp_all add: credentials_ok_def)
  then have t: "24 + length name + length pass \<le> 4096" by simp
  note p = image_parts [OF refl refl t]
  let ?img = "credentials_image (name, pass)"
  have n: "?img ! j = (name @ pass @ replicate (4096 - (24 + length name + length pass)) 0xff) ! (j - 24)"
    if "24 \<le> j" "j < 4096" for j
  proof -
    have "?img ! j = drop 24 ?img ! (j - 24)" using that p(1) by simp
    then show ?thesis by (simp only: p(10))
  qed
  have pr: "32 \<le> ?img ! j \<and> ?img ! j \<le> 126" if j: "24 \<le> j" "j < 24 + (length name + length pass)" for j
  proof -
    have "?img ! j = (name @ pass) ! (j - 24)" using n [of j] j o by (auto simp: nth_append)
    moreover have "(name @ pass) ! (j - 24) \<in> set (name @ pass)" using j by (intro nth_mem) auto
    ultimately show ?thesis using o(5,6) by (auto simp: printable_def)
  qed
  have er: "?img ! j = 255" if j: "24 + length name + length pass \<le> j" "j < 4096" for j
    using n [of j] j by (auto simp: nth_append)
  show ?thesis unfolding record_accepted_def Let_def p(2-9,11)
    using o pr er t by (simp add: build2_crc_eq)
qed

text \<open>The format laws: what is written is read back, and what is read could have been written.\<close>

lemma stored_image:
  assumes "credentials_ok w"
  shows "stored_credentials (credentials_image w @ pad) = Some w"
proof -
  obtain name pass where w: "w = (name, pass)" by fastforce
  have o: "length name \<le> 32" "length pass \<le> 63" "printable name" "printable pass"
    using assms by (simp_all add: credentials_ok_def w)
  then have t: "24 + length name + length pass \<le> 4096" by simp
  note p = image_parts [OF refl refl t]
  have a: "parse_common (Some (credentials_image w)) 4096 magic2 2 8 False = (True, parsed_config (credentials_image w))"
    using parse_common_accepted p(1) image_accepted assms unfolding w by simp
  have s: "ssid (parsed_config (credentials_image w)) = name @ replicate (33 - length name) 0"
    by (simp add: parsed_config_def Let_def w p)
  have "drop (24 + length name) (credentials_image w) = pass @ replicate (4096 - (24 + length name + length pass)) 0xff"
    using p(10) by (simp add: w flip: drop_drop [of "length name" 24, simplified add.commute])
      (simp add: add.commute flip: drop_drop)
  then have k: "psk (parsed_config (credentials_image w)) = pass @ replicate (64 - length pass) 0"
    by (simp add: parsed_config_def Let_def w p)
  show ?thesis
    using p(1) a s k o by (simp add: stored_credentials_def radio_config_parse2_def w c_string_pad)
qed

lemma c_string_shape:
  assumes "printable s"
  shows "printable (c_string (s @ replicate k 0))" and "length (c_string (s @ replicate k 0)) = length s"
  using assms by (simp_all add: c_string_pad)

lemma parse_wrong_length: "n \<noteq> 4096 \<Longrightarrow> parse_common (Some s) n magic schema lo certs = (False, radio_config_zero)"
  by (simp add: parse_common_def parse_checks_def RADIO_SECTOR_SIZE_def)

lemma stored_credentials_ok:
  assumes "stored_credentials b = Some w"
  shows "credentials_ok w"
proof -
  let ?s = "take 4096 b"
  obtain name pass where w: "w = (name, pass)" by fastforce
  have l: "length ?s = 4096"
  proof (rule ccontr)
    assume "length ?s \<noteq> 4096"
    then have "radio_config_parse2 (Some ?s) (length ?s) = (False, radio_config_zero)"
      unfolding radio_config_parse2_def by (rule parse_wrong_length)
    then show False using assms unfolding stored_credentials_def by simp
  qed
  then have acc: "record_accepted ?s magic2 2 8 False"
    and w': "c_string (ssid (parsed_config ?s)) = name" "c_string (psk (parsed_config ?s)) = pass"
    using assms by (simp_all add: stored_credentials_def radio_config_parse2_def parse_common_accepted w split: if_splits)
  define a p where f: "a = radio_le16 ?s 16" "p = radio_le16 ?s 18"
  have r: "1 \<le> a" "a \<le> 32" "8 \<le> p" "p \<le> 63" "\<forall>j. 24 \<le> j \<and> j < 24 + (a + p) \<longrightarrow> 32 \<le> ?s ! j \<and> ?s ! j \<le> 126"
    using acc unfolding record_accepted_def Let_def f by blast+
  have la: "length (take a (drop 24 ?s)) = a" and lp: "length (take p (drop (24 + a) ?s)) = p"
    using r(2,4) l by auto
  have na: "take a (drop 24 ?s) ! j = ?s ! (24 + j)" if "j < a" for j using that r(2) l by simp
  have np: "take p (drop (24 + a) ?s) ! j = ?s ! (24 + a + j)" if "j < p" for j using that r(2,4) l by simp
  have pa: "printable (take a (drop 24 ?s))"
    unfolding printable_def all_set_conv_all_nth la using na r(5) by auto
  have pp: "printable (take p (drop (24 + a) ?s))"
    unfolding printable_def all_set_conv_all_nth lp using np r(5) by auto
  have "name = take a (drop 24 ?s)" "pass = take p (drop (24 + a) ?s)"
    using w' c_string_pad [OF pa] c_string_pad [OF pp] by (simp_all add: parsed_config_def Let_def flip: f)
  then show ?thesis using r(1-4) pa pp la lp by (simp add: credentials_ok_def w)
qed

lemma foldl_crc_changed:
  assumes "i < length xs" and "c \<noteq> xs ! i"
  shows "foldl crc_byte v (xs[i := c]) \<noteq> foldl crc_byte v xs"
proof -
  have x: "xs = take i xs @ xs ! i # drop (Suc i) xs" using assms(1) by (rule id_take_nth_drop)
  have u: "xs[i := c] = take i xs @ c # drop (Suc i) xs" using assms(1) by (rule upd_conv_take_nth_drop)
  have "foldl crc_byte v xs = foldl crc_byte (crc_byte (foldl crc_byte v (take i xs)) (xs ! i)) (drop (Suc i) xs)"
    by (subst x) simp
  then show ?thesis using assms(2) by (simp add: u crc_foldl_inject crc_byte_inject_data)
qed

lemma le16_update_far: "k < i \<or> i + 1 < k \<Longrightarrow> radio_le16 (s[k := c]) i = radio_le16 s i"
  by (auto simp: radio_le16_def le16_at_def)

lemma le16_update_near:
  assumes "k = i \<or> k = i + 1" and "k < length s" and "c \<noteq> s ! k"
  shows "radio_le16 (s[k := c]) i \<noteq> radio_le16 s i"
proof -
  have "(k - i) < 2" "i + (k - i) = k" "i + (1 - (k - i)) \<noteq> k" using assms(1) by auto
  then show ?thesis using radio_le16_changed [of "k - i" "s[k := c]" i s] assms(2,3) by simp
qed

text \<open>One wrong byte anywhere in an accepted record, and it is not accepted any more.\<close>

lemma accepted_tampered:
  assumes "record_accepted s magic2 2 8 False" and "length s = 4096" and "k < 4096" and "c \<noteq> s ! k"
  shows "\<not> record_accepted (s[k := c]) magic2 2 8 False"
proof
  assume t: "record_accepted (s[k := c]) magic2 2 8 False"
  have lens: "length s = 4096" by (rule assms(2))
  define tot where "tot = radio_le16 s 10"
  have eq: "radio_le16 s 10 = 24 + radio_le16 s 16 + radio_le16 s 18 + radio_le16 s 20 + radio_le16 s 22"
      "radio_le16 (s[k := c]) 10 = 24 + radio_le16 (s[k := c]) 16 + radio_le16 (s[k := c]) 18 +
        radio_le16 (s[k := c]) 20 + radio_le16 (s[k := c]) 22"
    and mg: "take 8 s = magic2" "take 8 (s[k := c]) = magic2" "radio_le16 s 8 = 2" "radio_le16 (s[k := c]) 8 = 2"
    and er: "\<forall>j. tot \<le> j \<and> j < tot + (4096 - tot) \<longrightarrow> s ! j = 255"
      "\<forall>j. radio_le16 (s[k := c]) 10 \<le> j \<and> j < radio_le16 (s[k := c]) 10 + (4096 - radio_le16 (s[k := c]) 10) \<longrightarrow> s[k := c] ! j = 255"
    and cr: "NOT (foldl crc_byte 0xffffffff (take (tot - 16) (drop 16 s))) = le32_at s 12"
      "NOT (foldl crc_byte 0xffffffff (take (radio_le16 (s[k := c]) 10 - 16) (drop 16 (s[k := c])))) = le32_at (s[k := c]) 12"
    and tot: "24 \<le> tot" "tot \<le> 4096"
    using assms(1) t unfolding record_accepted_def Let_def tot_def by auto
  have kl: "k < length s" using assms(2,3) by simp
  note near = le16_update_near [OF _ kl assms(4)]
  consider "k < 8" | "k = 8 \<or> k = 9" | "k = 10 \<or> k = 11" | "12 \<le> k" "k < 16" | "16 \<le> k" "k < 24" | "24 \<le> k" "k < tot"
    | "tot \<le> k" by linarith
  then show False
  proof cases
    case 1
    have "take 8 s ! k = take 8 (s[k := c]) ! k" using mg by simp
    then show False using 1 kl assms(4) by simp
  next
    case 2
    then show False using near [of 8] mg by auto
  next
    case 3
    then show False using near [of 10] eq le16_update_far [of k 16 s c] le16_update_far [of k 18 s c]
      le16_update_far [of k 20 s c] le16_update_far [of k 22 s c] by auto
  next
    case 4
    then have "radio_le16 (s[k := c]) 10 = tot" by (simp add: tot_def le16_update_far)
    then have "le32_at (s[k := c]) 12 = le32_at s 12" using cr 4 by simp
    moreover have "k - 12 < 4" "12 + (k - 12) = k" using 4 by auto
    ultimately show False using le32_at_inject [of "s[k := c]" 12 s "k - 12"] kl assms(4) by simp
  next
    case 5
    have same: "radio_le16 (s[k := c]) 10 = radio_le16 s 10" using 5 by (simp add: le16_update_far)
    have d: "radio_le16 (s[k := c]) i = radio_le16 s i" if "k < i \<or> i + 1 < k" for i using that by (rule le16_update_far)
    from 5 consider "k = 16 \<or> k = 17" | "k = 18 \<or> k = 19" | "k = 20 \<or> k = 21" | "k = 22 \<or> k = 23" by linarith
    then show False
    proof cases
      case 1 then show False using near [of 16] d [of 18] d [of 20] d [of 22] eq same by auto
    next
      case 2 then show False using near [of 18] d [of 16] d [of 20] d [of 22] eq same by auto
    next
      case 3 then show False using near [of 20] d [of 16] d [of 18] d [of 22] eq same by auto
    next
      case 4 then show False using near [of 22] d [of 16] d [of 18] d [of 20] eq same by auto
    qed
  next
    case 6
    have r: "radio_le16 (s[k := c]) 10 = tot" using 6 by (simp add: tot_def le16_update_far)
    have v: "le32_at (s[k := c]) 12 = le32_at s 12" using 6 by (simp add: le32_at_def)
    let ?xs = "take (tot - 16) (drop 16 s)"
    have "take (tot - 16) (drop 16 (s[k := c])) = ?xs[k - 16 := c]"
      using 6 by (simp add: drop_update_swap take_update_swap)
    moreover have "k - 16 < length ?xs" "c \<noteq> ?xs ! (k - 16)" using 6 tot lens assms(4) by simp_all
    ultimately have "foldl crc_byte 0xffffffff (take (tot - 16) (drop 16 (s[k := c]))) \<noteq> foldl crc_byte 0xffffffff ?xs"
      using foldl_crc_changed by metis
    then show False using cr r v by (metis bit.double_compl)
  next
    case 7
    have r: "radio_le16 (s[k := c]) 10 = tot" using 7 tot by (simp add: tot_def le16_update_far)
    have "s ! k = 255" "s[k := c] ! k = 255" using er(1) er(2) [unfolded r] 7 assms(3) tot by auto
    then show False using kl assms(4) by simp
  qed
qed

interpretation credentials: sealed_codec credentials_image stored_credentials credentials_ok
proof unfold_locales
  show "stored_credentials (credentials_image w @ pad) = Some w" if "credentials_ok w" for w pad
    by (rule stored_image [OF that])
  show "credentials_ok w" if "stored_credentials b = Some w" for b w
    by (rule stored_credentials_ok [OF that])
  show "stored_credentials ((credentials_image w @ pad)[i := c]) = None"
    if w: "credentials_ok w" and i: "i < length (credentials_image w)" and c: "c \<noteq> credentials_image w ! i" for w i c pad
  proof -
    obtain name pass where nw: "w = (name, pass)" by fastforce
    then have o: "credentials_ok (name, pass)" using w by simp
    then have t: "24 + length name + length pass \<le> 4096" by (simp add: credentials_ok_def)
    have l: "length (credentials_image w) = 4096" unfolding nw by (rule image_parts(1) [OF refl refl t])
    have "\<not> record_accepted ((credentials_image w)[i := c]) magic2 2 8 False"
      using accepted_tampered [OF image_accepted [OF o]] l i c nw by simp
    moreover have "take 4096 ((credentials_image w @ pad)[i := c]) = (credentials_image w)[i := c]"
      using i l by (simp add: list_update_append)
    ultimately show ?thesis
      using l by (simp add: stored_credentials_def radio_config_parse2_def parse_common_accepted)
  qed
qed

subsection \<open>Properties\<close>

text \<open>Credentials survive the record format. The builder accepts exactly the credentials the format
  can hold (1 to 32 and 8 to 63 printable bytes); the image it builds is one sector long and the
  schema 2 parser gives back exactly the same two strings, without certificates.\<close>

lemma built_record_parses_back:
  "case radio_config_build2 (Some name) (length name) (Some pass) (length pass) of
     None \<Rightarrow> \<not> credentials_ok (name, pass)
   | Some img \<Rightarrow> credentials_ok (name, pass) \<and> length img = RADIO_SECTOR_SIZE \<and>
       (case radio_config_parse2 (Some img) RADIO_SECTOR_SIZE of (ok, cfg) \<Rightarrow>
          ok \<and> c_string (ssid cfg) = name \<and> c_string (psk cfg) = pass \<and> cert_len cfg = 0 \<and> key_len cfg = 0)"
proof (cases "credentials_ok (name, pass)")
  case True
  then have t: "24 + length name + length pass \<le> 4096" by (simp add: credentials_ok_def)
  note l = image_parts [OF refl refl t]
  have "stored_credentials (credentials_image (name, pass)) = Some (name, pass)"
    using credentials.dec_enc [OF True, of "[]"] by simp
  moreover have "radio_config_parse2 (Some (credentials_image (name, pass))) 4096 =
      (True, parsed_config (credentials_image (name, pass)))"
    using image_accepted [OF True] by (simp add: radio_config_parse2_def parse_common_accepted l(1))
  ultimately show ?thesis
    using l by (simp add: build2_iff True stored_credentials_def RADIO_SECTOR_SIZE_def)
      (simp add: parsed_config_def Let_def)
qed (simp add: build2_iff)

text \<open>C18: a damaged credential record is never used. If any one byte of a built image is changed, the
  parser of schema 2 rejects the sector; and no sector is accepted by both schemas, whatever it holds.\<close>

theorem damaged_record_is_rejected:
  assumes "credentials_ok w" and "i < RADIO_SECTOR_SIZE" and "c \<noteq> credentials_image w ! i"
  shows "fst (radio_config_parse2 (Some ((credentials_image w)[i := c])) RADIO_SECTOR_SIZE) = False \<and>
    \<not> (fst (radio_config_parse2 (Some s) n) \<and> fst (radio_config_parse (Some s) n))"
proof
  obtain name pass where w: "w = (name, pass)" by fastforce
  then have t: "24 + length name + length pass \<le> 4096" using assms(1) by (simp add: credentials_ok_def)
  have l: "length (credentials_image w) = 4096" unfolding w by (rule image_parts(1) [OF refl refl t])
  have i: "i < length (credentials_image w)" using assms(2) l by (simp add: RADIO_SECTOR_SIZE_def)
  have "stored_credentials ((credentials_image w)[i := c]) = None"
    using credentials.tampered [OF assms(1) i assms(3), of "[]"] by simp
  then show "fst (radio_config_parse2 (Some ((credentials_image w)[i := c])) RADIO_SECTOR_SIZE) = False"
    using l by (simp add: stored_credentials_def RADIO_SECTOR_SIZE_def split: prod.splits if_splits)
  have "magic1 \<noteq> magic2" by (simp add: magic1_def magic2_def)
  then show "\<not> (fst (radio_config_parse2 (Some s) n) \<and> fst (radio_config_parse (Some s) n))"
    by (auto simp: radio_config_parse2_def radio_config_parse_def parse_common_def parse_checks_def Let_def
        split: if_splits)
qed

text \<open>\<^verbatim>\<open>"net"\<close> and \<^verbatim>\<open>"password"\<close>.\<close>

definition demo_credentials :: "bytes \<times> bytes" where
  "demo_credentials = ([0x6e, 0x65, 0x74], [0x70, 0x61, 0x73, 0x73, 0x77, 0x6f, 0x72, 0x64])"

lemma demo_credentials_ok: "credentials_ok demo_credentials"
  by (simp add: credentials_ok_def demo_credentials_def printable_def)

theorem damaged_record_is_rejected_witness:
  "fst (radio_config_parse2 (Some ((credentials_image demo_credentials)[0 := 0x51])) RADIO_SECTOR_SIZE) = False"
proof -
  have "credentials_image demo_credentials ! 0 = 0x50"
    by (simp add: credentials_image_def demo_credentials_def radio_image_def magic2_def Let_def)
  then show ?thesis
    using damaged_record_is_rejected [OF demo_credentials_ok, of 0 "0x51"] by (simp add: RADIO_SECTOR_SIZE_def)
qed

end
