(* ===== verification/Store_Flash.thy ===== *)
theory Store_Flash
  imports Controller_Store
begin

section \<open>Committing the store to flash (firmware/controller_store_flash.c)\<close>

text \<open>
  The store lives in two 4096-byte sectors and every change goes to the sector that does not
  hold the current record. Flash is a map from offsets to bytes; reading it is a memory read
  (XIP). The SDK routines that erase and program are parameters of the model, \<open>er\<close> and
  \<open>pr\<close>, with their documented NOR behaviour as the hypotheses \<open>nor_erase\<close> and
  \<open>nor_program\<close>; \<open>flash_safe_execute\<close> is the Boolean \<open>safe\<close>: whether it obtained
  exclusive access and ran the callback, or returned an error without running it. The offset of
  the first sector comes from the SDK's flash layout and is the parameter \<open>base\<close>. The static
  buffer \<open>flash_op\<close> is refilled before every use and wiped after it, and is not kept in the
  model.

  Power can fail at any moment. \<open>torn\<close> is what an interrupted command may leave: a program
  that has cleared only some of its bits, or an erase that has left the sector in any state.
\<close>

type_synonym flash_mem = "nat \<Rightarrow> u8"
type_synonym flash_erase = "nat \<Rightarrow> nat \<Rightarrow> flash_mem \<Rightarrow> flash_mem"
type_synonym flash_program = "nat \<Rightarrow> bytes \<Rightarrow> flash_mem \<Rightarrow> flash_mem"

definition FLASH_SECTOR_SIZE :: nat where "FLASH_SECTOR_SIZE = 4096"
definition FLASH_PAGE_SIZE :: nat where "FLASH_PAGE_SIZE = 256"
definition commit_offset :: nat where "commit_offset = 184"

subsection \<open>Programming a sector\<close>

datatype flash_cmd = Flash_Erase nat nat | Flash_Program nat bytes

fun flash_exec :: "flash_erase \<Rightarrow> flash_program \<Rightarrow> flash_cmd \<Rightarrow> flash_mem \<Rightarrow> flash_mem" where
  "flash_exec er pr (Flash_Erase off n) m = er off n m"
| "flash_exec er pr (Flash_Program off bs) m = pr off bs m"

text \<open>
  The first page is programmed twice: first with the commit word left erased, at the end in
  full, so that the commit word appears last.
\<close>

definition first_page :: "bytes \<Rightarrow> bytes" where
  "first_page sector = take commit_offset sector @ replicate 4 0xff @
     take (FLASH_PAGE_SIZE - commit_offset - 4) (drop (commit_offset + 4) sector)"

definition page_of :: "bytes \<Rightarrow> nat \<Rightarrow> bytes" where
  "page_of sector page = take FLASH_PAGE_SIZE (drop page sector)"

definition page_cmds :: "nat \<Rightarrow> bytes \<Rightarrow> flash_cmd list" where
  "page_cmds off sector =
     map (\<lambda>k. Flash_Program (off + FLASH_PAGE_SIZE * k) (page_of sector (FLASH_PAGE_SIZE * k)))
       [1..<FLASH_SECTOR_SIZE div FLASH_PAGE_SIZE]"

definition program_sector_cmds :: "nat \<Rightarrow> bytes \<Rightarrow> flash_cmd list" where
  "program_sector_cmds off sector =
     [Flash_Erase off FLASH_SECTOR_SIZE, Flash_Program off (first_page sector)] @
     page_cmds off sector @ [Flash_Program off (page_of sector 0)]"

definition program_sector :: "flash_erase \<Rightarrow> flash_program \<Rightarrow> nat \<Rightarrow> bytes \<Rightarrow> flash_mem \<Rightarrow> flash_mem" where
  "program_sector er pr off sector m = fold (flash_exec er pr) (program_sector_cmds off sector) m"

subsection \<open>Reading, committing, seeding\<close>

definition read_sector :: "flash_mem \<Rightarrow> nat \<Rightarrow> bytes" where
  "read_sector m off = map m [off..<off + FLASH_SECTOR_SIZE]"

definition boot_existing :: "nat \<Rightarrow> flash_mem \<Rightarrow> store_status \<times> controller_store" where
  "boot_existing base m = controller_store_boot
     (Some (read_sector m base)) FLASH_SECTOR_SIZE
     (Some (read_sector m (base + FLASH_SECTOR_SIZE))) FLASH_SECTOR_SIZE"

text \<open>Which sector a commit writes: the second one when the first holds the current record.\<close>

definition commit_target :: "nat \<Rightarrow> flash_mem \<Rightarrow> nat" where
  "commit_target base m =
     (case boot_existing base m of (current_status, current) \<Rightarrow>
        if current_status = CONTROLLER_STORE_OK then
          (case controller_store_boot (Some (read_sector m base)) FLASH_SECTOR_SIZE None 0 of
             (a_status, a_store) \<Rightarrow>
               if a_status = CONTROLLER_STORE_OK \<and> generation a_store = generation current
               then base + FLASH_SECTOR_SIZE else base)
        else base)"

definition controller_store_flash_commit ::
  "flash_erase \<Rightarrow> flash_program \<Rightarrow> bool \<Rightarrow> nat \<Rightarrow> controller_store option \<Rightarrow> flash_mem
     \<Rightarrow> store_status \<times> flash_mem"
where
  "controller_store_flash_commit er pr safe base store m =
     (case store of None \<Rightarrow> (CONTROLLER_STORE_ERR_ARGUMENT, m)
      | Some s \<Rightarrow>
        (case boot_existing base m of (current_status, current) \<Rightarrow>
           if current_status = CONTROLLER_STORE_OK \<and> generation current = generation s
           then (CONTROLLER_STORE_ERR_ARGUMENT, m)
           else (case snd (controller_store_encode s FLASH_SECTOR_SIZE) of
             None \<Rightarrow> (CONTROLLER_STORE_ERR_FORMAT, m)
           | Some sector \<Rightarrow>
               if \<not> safe then (CONTROLLER_STORE_ERR_FORMAT, m)
               else let m = program_sector er pr (commit_target base m) sector m in
                 case boot_existing base m of (status, verified) \<Rightarrow>
                   if status \<noteq> CONTROLLER_STORE_OK \<or> generation verified \<noteq> generation s
                   then (CONTROLLER_STORE_ERR_FORMAT, m) else (CONTROLLER_STORE_OK, m))))"

fun erased_loop :: "bytes \<Rightarrow> bytes \<Rightarrow> nat \<Rightarrow> nat \<Rightarrow> u8 \<Rightarrow> u8" where
  "erased_loop a b i 0 changed = changed"
| "erased_loop a b i (Suc n) changed =
     erased_loop a b (Suc i) n (changed OR ((a ! i XOR 0xff) OR (b ! i XOR 0xff)))"

definition sectors_are_erased :: "nat \<Rightarrow> flash_mem \<Rightarrow> bool" where
  "sectors_are_erased base m \<longleftrightarrow>
     erased_loop (read_sector m base) (read_sector m (base + FLASH_SECTOR_SIZE)) 0 FLASH_SECTOR_SIZE 0 = 0"

text \<open>The boot path: the store written through the pointer is the second component.\<close>

definition controller_store_flash_boot_or_seed ::
  "flash_erase \<Rightarrow> flash_program \<Rightarrow> bool \<Rightarrow> nat \<Rightarrow> bytes option \<Rightarrow> flash_mem
     \<Rightarrow> store_status \<times> controller_store \<times> flash_mem"
where
  "controller_store_flash_boot_or_seed er pr safe base recovery_public_key m =
     (case recovery_public_key of
        None \<Rightarrow> (CONTROLLER_STORE_ERR_ARGUMENT, controller_store_empty, m)
      | Some key \<Rightarrow>
        (case boot_existing base m of (status, store) \<Rightarrow>
           if status = CONTROLLER_STORE_OK then (CONTROLLER_STORE_OK, store, m)
           else if \<not> sectors_are_erased base m then (CONTROLLER_STORE_ERR_FORMAT, store, m)
           else case controller_store_initialise store (Some key) of (status, store) \<Rightarrow>
             if status \<noteq> CONTROLLER_STORE_OK then (status, store, m)
             else case controller_store_flash_commit er pr safe base (Some store) m of
               (status, m) \<Rightarrow> (status, store, m)))"

subsection \<open>The hardware\<close>

definition nor_erase :: "flash_erase \<Rightarrow> bool" where
  "nor_erase er \<longleftrightarrow> (\<forall>off n m a. er off n m a = (if off \<le> a \<and> a < off + n then 0xff else m a))"

definition nor_program :: "flash_program \<Rightarrow> bool" where
  "nor_program pr \<longleftrightarrow> (\<forall>off bs m a. pr off bs m a =
     (if off \<le> a \<and> a < off + length bs then m a AND bs ! (a - off) else m a))"

text \<open>An interrupted command: bits of a program may or may not have been cleared.\<close>

fun torn :: "flash_cmd \<Rightarrow> flash_mem \<Rightarrow> flash_mem \<Rightarrow> bool" where
  "torn (Flash_Erase off n) m m' \<longleftrightarrow> (\<forall>a. \<not> (off \<le> a \<and> a < off + n) \<longrightarrow> m' a = m a)"
| "torn (Flash_Program off bs) m m' \<longleftrightarrow> (\<forall>a. if off \<le> a \<and> a < off + length bs
     then m' a AND m a = m' a \<and> (m a AND bs ! (a - off)) AND m' a = m a AND bs ! (a - off)
     else m' a = m a)"

text \<open>What power loss during command \<open>k\<close> of a sequence can leave.\<close>

definition power_loss ::
  "flash_erase \<Rightarrow> flash_program \<Rightarrow> flash_cmd list \<Rightarrow> nat \<Rightarrow> flash_mem \<Rightarrow> flash_mem \<Rightarrow> bool" where
  "power_loss er pr cmds k m m' \<longleftrightarrow>
     k < length cmds \<and> torn (cmds ! k) (fold (flash_exec er pr) (take k cmds) m) m'"

subsection \<open>What the commands do to the first page and to the other sector\<close>

lemma program_within:
  "nor_program pr \<Longrightarrow> pr off bs m a = (if off \<le> a \<and> a < off + length bs then m a AND bs ! (a - off) else m a)"
  by (simp add: nor_program_def)

lemma erase_within:
  "nor_erase er \<Longrightarrow> er off n m a = (if off \<le> a \<and> a < off + n then 0xff else m a)"
  by (simp add: nor_erase_def)

lemma ff_and [simp]: "(0xff AND x) = (x :: u8)" "(x AND 0xff) = (x :: u8)"
  by (simp_all add: u8_eq_bits bit_and_iff)

lemma torn_same: "torn (Flash_Program off bs) m m' \<Longrightarrow> off \<le> a \<Longrightarrow> a < off + length bs \<Longrightarrow>
   m a AND bs ! (a - off) = m a \<Longrightarrow> m' a = m a"
  by (auto simp: and.commute dest!: spec [of _ a])

lemma torn_outside:
  "torn c m m' \<Longrightarrow> (case c of Flash_Erase off n \<Rightarrow> \<not> (off \<le> a \<and> a < off + n)
     | Flash_Program off bs \<Rightarrow> \<not> (off \<le> a \<and> a < off + length bs)) \<Longrightarrow> m' a = m a"
  by (cases c) (auto dest: spec [of _ a])

lemma exec_outside:
  assumes "nor_erase er" and "nor_program pr"
  shows "(case c of Flash_Erase off n \<Rightarrow> \<not> (off \<le> a \<and> a < off + n)
     | Flash_Program off bs \<Rightarrow> \<not> (off \<le> a \<and> a < off + length bs)) \<Longrightarrow> flash_exec er pr c m a = m a"
  using erase_within [OF assms(1)] program_within [OF assms(2)] by (cases c) auto

definition misses :: "nat \<Rightarrow> flash_cmd \<Rightarrow> bool" where
  "misses a c \<longleftrightarrow> (case c of Flash_Erase off n \<Rightarrow> \<not> (off \<le> a \<and> a < off + n)
     | Flash_Program off bs \<Rightarrow> \<not> (off \<le> a \<and> a < off + length bs))"

lemma fold_misses:
  assumes "nor_erase er" and "nor_program pr" and "\<forall>c \<in> set cs. misses a c"
  shows "fold (flash_exec er pr) cs m a = m a"
  using assms(3)
  by (induction cs arbitrary: m) (simp_all add: misses_def exec_outside [OF assms(1,2)])

lemma torn_misses: "torn c m m' \<Longrightarrow> misses a c \<Longrightarrow> m' a = m a"
  by (simp add: misses_def torn_outside)

lemma length_pages:
  "length sector = 4096 \<Longrightarrow> length (first_page sector) = 256"
  "length sector = 4096 \<Longrightarrow> page \<le> 3840 \<Longrightarrow> length (page_of sector page) = 256"
  by (simp_all add: first_page_def page_of_def FLASH_PAGE_SIZE_def commit_offset_def)

lemma page_cmds_member:
  "c \<in> set (page_cmds off sector) \<longleftrightarrow> (\<exists>k. 1 \<le> k \<and> k < 16 \<and>
     c = Flash_Program (off + 256 * k) (page_of sector (256 * k)))"
  by (auto simp: page_cmds_def FLASH_SECTOR_SIZE_def FLASH_PAGE_SIZE_def)

lemma page_cmds_miss_first: "c \<in> set (page_cmds off sector) \<Longrightarrow> a < off + 256 \<Longrightarrow> misses a c"
  by (auto simp: page_cmds_member misses_def)

text \<open>No command leaves the sector.\<close>

lemma sector_cmds_miss:
  assumes "length sector = 4096" and "c \<in> set (program_sector_cmds off sector)"
    and "a < off \<or> off + 4096 \<le> a"
  shows "misses a c"
proof -
  consider "c = Flash_Erase off 4096" | "c = Flash_Program off (first_page sector)"
    | k where "1 \<le> k" "k < 16" "c = Flash_Program (off + 256 * k) (page_of sector (256 * k))"
    | "c = Flash_Program off (page_of sector 0)"
    using assms(2) by (auto simp: program_sector_cmds_def page_cmds_member FLASH_SECTOR_SIZE_def)
  then show ?thesis
  proof cases
    case 3
    then have "256 * k \<le> 3840" by simp
    with 3 assms(3) show ?thesis by (auto simp: misses_def length_pages(2) [OF assms(1)])
  qed (use assms(3) length_pages [OF assms(1)] in \<open>auto simp: misses_def\<close>)
qed

lemma other_sector_kept:
  assumes "nor_erase er" and "nor_program pr" and "length sector = 4096"
    and "off + 4096 \<le> other \<or> other + 4096 \<le> off"
  shows "power_loss er pr (program_sector_cmds off sector) k m m' \<Longrightarrow> read_sector m' other = read_sector m other"
    and "read_sector (program_sector er pr off sector m) other = read_sector m other"
proof -
  have ms: "misses a c" if "c \<in> set (program_sector_cmds off sector)" "other \<le> a" "a < other + 4096" for a c
    using sector_cmds_miss [OF assms(3) that(1), of a] assms(4) that(2,3) by linarith
  have f: "fold (flash_exec er pr) cs m a = m a"
    if "set cs \<subseteq> set (program_sector_cmds off sector)" "other \<le> a" "a < other + 4096" for cs a
    using fold_misses [OF assms(1,2)] ms that by blast
  show "read_sector m' other = read_sector m other"
    if p: "power_loss er pr (program_sector_cmds off sector) k m m'"
  proof -
    let ?cs = "program_sector_cmds off sector"
    have t: "torn (?cs ! k) (fold (flash_exec er pr) (take k ?cs) m) m'" "k < length ?cs"
      using p by (simp_all add: power_loss_def)
    have "m' a = m a" if "other \<le> a" "a < other + 4096" for a
      using torn_misses [OF t(1)] ms [OF nth_mem [OF t(2)] that] f [OF set_take_subset that] by simp
    then show ?thesis by (simp add: read_sector_def FLASH_SECTOR_SIZE_def)
  qed
  show "read_sector (program_sector er pr off sector m) other = read_sector m other"
    using f [OF order_refl] by (simp add: program_sector_def read_sector_def FLASH_SECTOR_SIZE_def)
qed

lemma first_page_nth:
  assumes "length sector = 4096" and "i < 256"
  shows "first_page sector ! i = (if 184 \<le> i \<and> i < 188 then 0xff else sector ! i)"
    and "page_of sector 0 ! i = sector ! i"
  using assms by (auto simp: first_page_def page_of_def FLASH_PAGE_SIZE_def commit_offset_def nth_append)

lemma program_sector_cmds_split:
  "program_sector_cmds off sector = Flash_Erase off 4096 # Flash_Program off (first_page sector) #
     page_cmds off sector @ [Flash_Program off (page_of sector 0)]"
  "length (page_cmds off sector) = 15"
  by (simp_all add: program_sector_cmds_def page_cmds_def FLASH_SECTOR_SIZE_def FLASH_PAGE_SIZE_def)

lemma after_first_page:
  assumes hw: "nor_erase er" "nor_program pr" and len: "length sector = 4096"
    and "set cs \<subseteq> set (page_cmds off sector)" and "i < 256"
  shows "fold (flash_exec er pr) (Flash_Erase off 4096 # Flash_Program off (first_page sector) # cs) m (off + i) =
    first_page sector ! i"
proof -
  let ?m = "pr off (first_page sector) (er off 4096 m)"
  have "fold (flash_exec er pr) cs ?m (off + i) = ?m (off + i)"
    using assms(4,5) page_cmds_miss_first by (intro fold_misses [OF hw]) auto
  also have "\<dots> = first_page sector ! i"
    using assms(5) by (simp add: program_within [OF hw(2)] erase_within [OF hw(1)] length_pages(1) [OF len])
  finally show ?thesis by simp
qed

lemma programmed_first_page:
  assumes hw: "nor_erase er" "nor_program pr" and len: "length sector = 4096" and "i < 256"
  shows "program_sector er pr off sector m (off + i) = sector ! i"
proof -
  have "program_sector er pr off sector m (off + i) = first_page sector ! i AND page_of sector 0 ! i"
    using assms(4) after_first_page [OF hw len order_refl assms(4), of off m]
    by (simp add: program_sector_def program_sector_cmds_split(1) program_within [OF hw(2)] length_pages(2) [OF len])
  then show ?thesis using first_page_nth [OF len assms(4)] by (simp split: if_splits)
qed

lemma torn_first_page:
  assumes hw: "nor_erase er" "nor_program pr" and len: "length sector = 4096"
    and "power_loss er pr (program_sector_cmds off sector) k m m'" and "1 \<le> k"
  shows "(\<forall>i. 184 \<le> i \<and> i < 188 \<longrightarrow> m' (off + i) = 0xff) \<or>
    (\<forall>i<256. \<not> (184 \<le> i \<and> i < 188) \<longrightarrow> m' (off + i) = sector ! i)"
proof -
  let ?cs = "program_sector_cmds off sector" and ?pc = "page_cmds off sector"
  let ?s = "fold (flash_exec er pr) (take k ?cs) m"
  have t: "torn (?cs ! k) ?s m'" and k: "k < 18"
    using assms(4) by (simp_all add: power_loss_def program_sector_cmds_split)
  have pre: "take k ?cs = Flash_Erase off 4096 # Flash_Program off (first_page sector) # take (k - 2) ?pc"
    if "2 \<le> k"
    using that k by (auto simp: program_sector_cmds_split take_Cons' numeral_2_eq_2)
  have st: "?s (off + i) = first_page sector ! i" if "2 \<le> k" "i < 256" for i
    unfolding pre [OF that(1)] by (rule after_first_page [OF hw len set_take_subset that(2)])
  consider "k = 1" | "2 \<le> k" "k < 17" | "k = 17" using assms(5) k by linarith
  then show ?thesis
  proof cases
    case 1
    have "m' (off + i) = 0xff" if "184 \<le> i" "i < 188" for i
    proof -
      have c: "?cs ! k = Flash_Program off (first_page sector)" "?s = er off 4096 m"
        using 1 by (simp_all add: program_sector_cmds_split)
      have "m' (off + i) = ?s (off + i)"
        using t unfolding c(1) by (rule torn_same)
          (use that first_page_nth(1) [OF len, of i] c(2) length_pages(1) [OF len] in
            \<open>simp_all add: erase_within [OF hw(1)]\<close>)
      then show ?thesis using that by (simp add: c(2) erase_within [OF hw(1)])
    qed
    then show ?thesis by blast
  next
    case 2
    have "?cs ! k = ?pc ! (k - 2)"
      using 2 by (auto simp: program_sector_cmds_split nth_Cons' nth_append numeral_2_eq_2)
    then have "?cs ! k \<in> set ?pc" using 2 by (simp add: program_sector_cmds_split)
    then have "m' (off + i) = first_page sector ! i" if "i < 256" for i
      using torn_misses [OF t] page_cmds_miss_first that st [OF 2(1) that] by simp
    then show ?thesis using first_page_nth(1) [OF len] by simp
  next
    case 3
    have c: "?cs ! k = Flash_Program off (page_of sector 0)"
      using 3 by (simp add: program_sector_cmds_split nth_append)
    have "m' (off + i) = sector ! i" if "i < 256" "\<not> (184 \<le> i \<and> i < 188)" for i
    proof -
      have e: "?s (off + i) = sector ! i" using st [of i] that 3 first_page_nth(1) [OF len that(1)] by simp
      have "m' (off + i) = ?s (off + i)"
        using t unfolding c by (rule torn_same)
          (use that e first_page_nth(2) [OF len that(1)] length_pages(2) [OF len] in simp_all)
      then show ?thesis using e by simp
    qed
    then show ?thesis by blast
  qed
qed

subsection \<open>What the boot sees\<close>

lemma read_sector_nth [simp]: "length (read_sector m off) = 4096" "i < 4096 \<Longrightarrow> read_sector m off ! i = m (off + i)"
  by (simp_all add: read_sector_def FLASH_SECTOR_SIZE_def)

lemma boot_existing_decode:
  "boot_existing base m = (case (decode_record (read_sector m base), decode_record (read_sector m (base + 4096))) of
     (None, None) \<Rightarrow> (CONTROLLER_STORE_ERR_FORMAT, controller_store_empty)
   | (Some a, None) \<Rightarrow> (CONTROLLER_STORE_OK, a)
   | (None, Some b) \<Rightarrow> (CONTROLLER_STORE_OK, b)
   | (Some a, Some b) \<Rightarrow> (CONTROLLER_STORE_OK, if generation a \<ge> generation b then a else b))"
  by (simp add: boot_existing_def controller_store_boot_def decode_record_def FLASH_SECTOR_SIZE_def)

lemma decode_record_cong:
  assumes "store_wf t" and "188 \<le> length d" and "\<forall>i<188. d ! i = encode_record t ! i"
  shows "decode_record d = Some t"
proof -
  have l: "length (encode_record t) = 188"
    using length_encode_record assms(1) by (simp add: store_wf_def record_size_def)
  have "take 188 d = encode_record t"
    using l assms(2,3) by (intro nth_equalityI) simp_all
  then have "d = encode_record t @ drop 188 d" by (metis append_take_drop_id)
  then show ?thesis using decode_record_encode [OF assms(1)] by metis
qed

text \<open>
  A sector whose commit word is not complete is not valid; one that agrees with the new record
  elsewhere is either invalid or the new record.
\<close>

lemma decode_uncommitted:
  assumes "188 \<le> length d" and "k < 4" and "d ! (184 + k) \<noteq> le32_bytes CONTROLLER_STORE_COMMIT ! k"
  shows "decode_record d = None"
proof -
  have "le32_at d 184 \<noteq> CONTROLLER_STORE_COMMIT" using le32_at_nth [OF assms(2), of d 184] assms(3) by auto
  then show ?thesis
    unfolding decode_record_def not_Some_eq [symmetric] record_valid_eq [OF order_refl] by blast
qed

lemma encode_commit_bytes:
  assumes "store_wf t" and "k < 4"
  shows "encode_record t ! (184 + k) = le32_bytes CONTROLLER_STORE_COMMIT ! k"
proof -
  have sh: "store_shape t" using assms(1) by (simp add: store_wf_def)
  show ?thesis
    using encode_record_fields(7) [OF sh, of "[]"] le32_at_nth [OF assms(2), of "encode_record t" 184] by simp
qed

lemma torn_record:
  assumes "store_wf t" and "188 \<le> length d"
    and "(\<forall>i. 184 \<le> i \<and> i < 188 \<longrightarrow> d ! i = 0xff) \<or> (\<forall>i<256. \<not> (184 \<le> i \<and> i < 188) \<longrightarrow> d ! i = (encode_record t @ p) ! i)"
  shows "decode_record d = None \<or> decode_record d = Some t"
proof (cases "\<forall>k<4. d ! (184 + k) = le32_bytes CONTROLLER_STORE_COMMIT ! k")
  case False
  then show ?thesis using decode_uncommitted [OF assms(2)] by blast
next
  case True
  have l: "length (encode_record t) = 188"
    using length_encode_record assms(1) by (simp add: store_wf_def record_size_def)
  have "d ! 184 \<noteq> 0xff" using True [rule_format, of 0] by (simp add: le32_bytes_def CONTROLLER_STORE_COMMIT_def)
  then have e: "\<forall>i<256. \<not> (184 \<le> i \<and> i < 188) \<longrightarrow> d ! i = (encode_record t @ p) ! i" using assms(3) by auto
  have "d ! i = encode_record t ! i" if "i < 188" for i
  proof (cases "184 \<le> i")
    case commit: True
    then have k: "i - 184 < 4" "184 + (i - 184) = i" using that by linarith+
    show ?thesis using True [rule_format, OF k(1)] encode_commit_bytes [OF assms(1) k(1)] unfolding k(2) by simp
  next
    case False
    then show ?thesis using e that l by (simp add: nth_append)
  qed
  then show ?thesis using decode_record_cong [OF assms(1,2)] by blast
qed

text \<open>The sector a commit writes is not the one the current record is in.\<close>

definition other_sector :: "nat \<Rightarrow> nat \<Rightarrow> nat" where
  "other_sector base target = (if target = base then base + 4096 else base)"

lemma commit_target_cases: "commit_target base m = base \<or> commit_target base m = base + 4096"
  by (auto simp: commit_target_def FLASH_SECTOR_SIZE_def split: prod.split)

lemma current_in_other_sector:
  assumes "boot_existing base m = (CONTROLLER_STORE_OK, s)"
  shows "decode_record (read_sector m (other_sector base (commit_target base m))) = Some s"
proof -
  let ?a = "decode_record (read_sector m base)" and ?b = "decode_record (read_sector m (base + 4096))"
  have c: "controller_store_boot (Some (read_sector m base)) 4096 None 0 =
      (case ?a of None \<Rightarrow> (CONTROLLER_STORE_ERR_FORMAT, controller_store_empty) | Some a \<Rightarrow> (CONTROLLER_STORE_OK, a))"
    by (simp add: controller_store_boot_def decode_record_def record_valid_def [of None]
        split: option.split)
  show ?thesis using assms
    by (cases ?a; cases ?b)
      (auto simp: commit_target_def c boot_existing_decode other_sector_def FLASH_SECTOR_SIZE_def split: if_splits)
qed

lemma boot_of_two:
  assumes "target = base \<or> target = base + 4096"
    and "decode_record (read_sector m (other_sector base target)) = Some s"
  shows "decode_record (read_sector m target) = None \<Longrightarrow> boot_existing base m = (CONTROLLER_STORE_OK, s)"
    and "decode_record (read_sector m target) = Some t \<Longrightarrow> generation s < generation t \<Longrightarrow>
      boot_existing base m = (CONTROLLER_STORE_OK, t)"
    and "decode_record (read_sector m target) = Some t \<Longrightarrow> generation t < generation s \<Longrightarrow>
      boot_existing base m = (CONTROLLER_STORE_OK, s)"
    and "\<exists>x. boot_existing base m = (CONTROLLER_STORE_OK, x) \<and> generation s \<le> generation x"
  using assms by (auto simp: boot_existing_decode other_sector_def split: if_splits option.split)

subsection \<open>Properties\<close>

definition sector_image :: "controller_store \<Rightarrow> bytes" where
  "sector_image t = encode_record t @ replicate (FLASH_SECTOR_SIZE - record_size) 0xff"

lemma sector_image_props:
  assumes "store_wf t"
  shows "length (sector_image t) = 4096"
    and "snd (controller_store_encode t FLASH_SECTOR_SIZE) = Some (sector_image t)"
  using length_encode_record assms
  by (simp_all add: sector_image_def controller_store_encode_def store_wf_def FLASH_SECTOR_SIZE_def record_size_def)

lemma programmed_record:
  assumes "nor_erase er" and "nor_program pr" and "store_wf t"
  shows "decode_record (read_sector (program_sector er pr off (sector_image t) m) off) = Some t"
proof (rule decode_record_cong [OF assms(3)])
  have "length (encode_record t) = 188"
    using length_encode_record assms(3) by (simp add: store_wf_def record_size_def)
  then show "\<forall>i<188. read_sector (program_sector er pr off (sector_image t) m) off ! i = encode_record t ! i"
    using programmed_first_page [OF assms(1,2) sector_image_props(1) [OF assms(3)], of _ off m]
    by (simp add: sector_image_def nth_append)
qed simp

lemma commit_result:
  assumes "nor_erase er" and "nor_program pr" and "store_wf t"
    and "\<not> (fst (boot_existing base m) = CONTROLLER_STORE_OK \<and> generation (snd (boot_existing base m)) = generation t)"
  defines "m' \<equiv> program_sector er pr (commit_target base m) (sector_image t) m"
  shows "controller_store_flash_commit er pr True base (Some t) m =
    (if fst (boot_existing base m') \<noteq> CONTROLLER_STORE_OK \<or> generation (snd (boot_existing base m')) \<noteq> generation t
     then CONTROLLER_STORE_ERR_FORMAT else CONTROLLER_STORE_OK, m')"
  using assms(4) sector_image_props(2) [OF assms(3)]
  by (cases "boot_existing base m"; cases "boot_existing base m'")
    (auto simp: controller_store_flash_commit_def m'_def Let_def)

lemma other_sector_disjoint:
  "target = base \<or> target = base + 4096 \<Longrightarrow>
     target + 4096 \<le> other_sector base target \<or> other_sector base target + 4096 \<le> target"
  by (auto simp: other_sector_def)

text \<open>Working hardware, for the witnesses.\<close>

definition demo_erase :: flash_erase where
  "demo_erase off n m = (\<lambda>a. if off \<le> a \<and> a < off + n then 0xff else m a)"

definition demo_program :: flash_program where
  "demo_program off bs m = (\<lambda>a. if off \<le> a \<and> a < off + length bs then m a AND bs ! (a - off) else m a)"

lemma demo_hardware: "nor_erase demo_erase" "nor_program demo_program"
  by (simp_all add: nor_erase_def demo_erase_def nor_program_def demo_program_def)

definition blank_flash :: flash_mem where
  "blank_flash = (\<lambda>_. 0xff)"

definition demo_flash :: flash_mem where
  "demo_flash = program_sector demo_erase demo_program 0 (sector_image demo_store) blank_flash"

definition demo_next :: controller_store where
  "demo_next = demo_store\<lparr>generation := 2\<rparr>"

lemma decode_erased:
  assumes "\<forall>i<4096. m (off + i) = 0xff"
  shows "decode_record (read_sector m off) = None"
  by (rule decode_uncommitted [where k = 0])
    (use assms in \<open>simp_all add: le32_bytes_def CONTROLLER_STORE_COMMIT_def\<close>)

lemma demo_next_wf: "store_wf demo_next"
  using demo_store_wf(1) by (simp add: demo_next_def store_wf_def store_shape_def)

lemma demo_flash_boot: "boot_existing 0 demo_flash = (CONTROLLER_STORE_OK, demo_store)"
proof -
  have "decode_record (read_sector demo_flash 0) = Some demo_store"
    unfolding demo_flash_def by (rule programmed_record [OF demo_hardware demo_store_wf(1)])
  moreover have "read_sector demo_flash 4096 = read_sector blank_flash 4096"
    unfolding demo_flash_def
    by (rule other_sector_kept(2) [OF demo_hardware sector_image_props(1) [OF demo_store_wf(1)]]) simp
  moreover have "decode_record (read_sector blank_flash 4096) = None"
    by (rule decode_erased) (simp add: blank_flash_def)
  ultimately show ?thesis by (simp add: boot_existing_decode)
qed

lemma torn_nothing: "torn c m m"
proof -
  have "(x AND b) AND x = x AND b" for x b :: u8 by (auto simp: u8_eq_bits bit_and_iff)
  then show ?thesis by (cases c) simp_all
qed

lemma power_loss_between:
  "k < length cs \<Longrightarrow> power_loss er pr cs k m (fold (flash_exec er pr) (take k cs) m)"
  by (simp add: power_loss_def torn_nothing)

lemma length_sector_cmds [simp]: "length (program_sector_cmds off sector) = 18"
  by (simp add: program_sector_cmds_split)

text \<open>C12: a commit is atomic under power failure. The flash holds a current store \<open>s\<close> and a sound
  store \<open>t\<close> of a later generation is being committed. If power fails during any command after
  the erase, with any subset of the bits of the interrupted program cleared, the next boot finds
  exactly \<open>s\<close> or exactly \<open>t\<close>; and if it fails during the erase, whatever that leaves in the
  sector, the next boot still finds a store, of a generation not before that of \<open>s\<close>.\<close>

theorem commit_survives_power_loss:
  assumes "nor_erase er" and "nor_program pr" and "store_wf t"
    and "boot_existing base m = (CONTROLLER_STORE_OK, s)" and "generation s < generation t"
    and "power_loss er pr (program_sector_cmds (commit_target base m) (sector_image t)) k m m'"
  shows "(\<exists>x. boot_existing base m' = (CONTROLLER_STORE_OK, x) \<and> generation s \<le> generation x) \<and>
    (0 < k \<longrightarrow> boot_existing base m' \<in> {(CONTROLLER_STORE_OK, s), (CONTROLLER_STORE_OK, t)})"
proof -
  let ?T = "commit_target base m"
  note img = sector_image_props(1) [OF assms(3)]
  have o: "decode_record (read_sector m' (other_sector base ?T)) = Some s"
    using other_sector_kept(1) [OF assms(1,2) img other_sector_disjoint [OF commit_target_cases] assms(6)]
      current_in_other_sector [OF assms(4)] by simp
  note b = boot_of_two [OF commit_target_cases o]
  have "boot_existing base m' \<in> {(CONTROLLER_STORE_OK, s), (CONTROLLER_STORE_OK, t)}" if "0 < k"
  proof -
    have "decode_record (read_sector m' ?T) = None \<or> decode_record (read_sector m' ?T) = Some t"
    proof (rule torn_record [OF assms(3)])
      show "(\<forall>i. 184 \<le> i \<and> i < 188 \<longrightarrow> read_sector m' ?T ! i = 0xff) \<or>
        (\<forall>i<256. \<not> (184 \<le> i \<and> i < 188) \<longrightarrow> read_sector m' ?T ! i =
          (encode_record t @ replicate (FLASH_SECTOR_SIZE - record_size) 0xff) ! i)"
        using torn_first_page [OF assms(1,2) img assms(6)] that by (simp add: sector_image_def)
    qed simp
    then show ?thesis using b(1,2) assms(5) by blast
  qed
  then show ?thesis using b(4) by blast
qed

theorem commit_survives_power_loss_witness:
  "boot_existing 0 (fold (flash_exec demo_erase demo_program)
      (take 17 (program_sector_cmds (commit_target 0 demo_flash) (sector_image demo_next))) demo_flash)
    \<in> {(CONTROLLER_STORE_OK, demo_store), (CONTROLLER_STORE_OK, demo_next)}"
proof -
  have g: "generation demo_store < generation demo_next" by (simp add: demo_next_def demo_store_wf(3))
  have k: "17 < length (program_sector_cmds (commit_target 0 demo_flash) (sector_image demo_next))" by simp
  show ?thesis
    using commit_survives_power_loss [OF demo_hardware demo_next_wf demo_flash_boot g
        power_loss_between [OF k, of demo_erase demo_program demo_flash]] by simp
qed

text \<open>What a commit does, for the device that relies on it: a newer store is installed, a wrapped
  generation or a refused lockout leaves the stored one.\<close>

lemma commit_outcome:
  assumes "nor_erase er" and "nor_program pr" and "store_wf t"
    and "boot_existing base m = (st, s)" and "st = CONTROLLER_STORE_OK \<longrightarrow> generation s \<noteq> generation t"
  shows "\<exists>st' m'. controller_store_flash_commit er pr True base (Some t) m = (st', m') \<and>
    (if st = CONTROLLER_STORE_OK \<and> generation t < generation s
     then st' = CONTROLLER_STORE_ERR_FORMAT \<and> boot_existing base m' = (CONTROLLER_STORE_OK, s)
     else st' = CONTROLLER_STORE_OK \<and> boot_existing base m' = (CONTROLLER_STORE_OK, t))"
    and "controller_store_flash_commit er pr False base (Some t) m = (CONTROLLER_STORE_ERR_FORMAT, m)"
proof -
  let ?T = "commit_target base m" and ?m = "program_sector er pr (commit_target base m) (sector_image t) m"
  note img = sector_image_props [OF assms(3)]
  have new: "decode_record (read_sector ?m ?T) = Some t" by (rule programmed_record [OF assms(1-3)])
  have kept: "read_sector ?m (other_sector base ?T) = read_sector m (other_sector base ?T)"
    by (rule other_sector_kept(2) [OF assms(1,2) img(1) other_sector_disjoint [OF commit_target_cases]])
  have c: "controller_store_flash_commit er pr True base (Some t) m =
      (if fst (boot_existing base ?m) \<noteq> CONTROLLER_STORE_OK \<or> generation (snd (boot_existing base ?m)) \<noteq> generation t
       then CONTROLLER_STORE_ERR_FORMAT else CONTROLLER_STORE_OK, ?m)"
    using assms(4,5) by (intro commit_result [OF assms(1-3)]) auto
  have f: "controller_store_flash_commit er pr False base (Some t) m = (CONTROLLER_STORE_ERR_FORMAT, m)"
    using assms(4,5) img(2) by (simp add: controller_store_flash_commit_def)
  have "boot_existing base ?m = (CONTROLLER_STORE_OK, if st = CONTROLLER_STORE_OK \<and> generation t < generation s then s else t)"
  proof (cases "st = CONTROLLER_STORE_OK")
    case True
    have o: "decode_record (read_sector ?m (other_sector base ?T)) = Some s"
      using current_in_other_sector assms(4) True kept by simp
    note b = boot_of_two [OF commit_target_cases o]
    show ?thesis using b(2,3) [OF new] assms(5) True by (cases "generation t < generation s") auto
  next
    case False
    have n: "decode_record (read_sector m base) = None" "decode_record (read_sector m (base + 4096)) = None"
      using assms(4) False by (auto simp: boot_existing_decode split: option.splits)
    have "?T = base" using assms(4) False by (simp add: commit_target_def)
    then show ?thesis using new kept n False by (simp add: boot_existing_decode other_sector_def)
  qed
  then show "\<exists>st' m'. controller_store_flash_commit er pr True base (Some t) m = (st', m') \<and>
    (if st = CONTROLLER_STORE_OK \<and> generation t < generation s
     then st' = CONTROLLER_STORE_ERR_FORMAT \<and> boot_existing base m' = (CONTROLLER_STORE_OK, s)
     else st' = CONTROLLER_STORE_OK \<and> boot_existing base m' = (CONTROLLER_STORE_OK, t))"
    using assms(5) unfolding c by auto
  show "controller_store_flash_commit er pr False base (Some t) m = (CONTROLLER_STORE_ERR_FORMAT, m)" by (rule f)
qed

text \<open>A commit that is not interrupted. Committing a sound store of a later generation (or the
  first store) over working hardware succeeds, and the next boot finds it. When the generation
  number has wrapped to a smaller one, the commit reports a format error and the next boot
  still finds the old store. If exclusive access is refused, nothing changes.\<close>

lemma commit_then_boot:
  assumes "nor_erase er" and "nor_program pr" and "store_wf t"
    and "boot_existing base m = (st, s)" and "st = CONTROLLER_STORE_OK \<longrightarrow> generation s \<noteq> generation t"
  shows "let (st', m') = controller_store_flash_commit er pr True base (Some t) m in
    (if st = CONTROLLER_STORE_OK \<and> generation t < generation s
     then st' = CONTROLLER_STORE_ERR_FORMAT \<and> boot_existing base m' = (CONTROLLER_STORE_OK, s)
     else st' = CONTROLLER_STORE_OK \<and> boot_existing base m' = (CONTROLLER_STORE_OK, t)) \<and>
    controller_store_flash_commit er pr False base (Some t) m = (CONTROLLER_STORE_ERR_FORMAT, m)"
  using commit_outcome [OF assms] by (auto simp: Let_def split: prod.splits if_splits)

lemma sectors_are_erased_iff:
  "sectors_are_erased base m \<longleftrightarrow> (\<forall>a. base \<le> a \<and> a < base + 8192 \<longrightarrow> m a = 0xff)"
proof -
  have l: "erased_loop a b i n v = 0 \<longleftrightarrow> v = 0 \<and> (\<forall>j. i \<le> j \<and> j < i + n \<longrightarrow> a ! j = 0xff \<and> b ! j = 0xff)"
    for a b i n v
  proof (induction n arbitrary: i v)
    case (Suc n)
    show ?case
      unfolding erased_loop.simps Suc.IH word_or_zero_iff word_xor_zero_iff range_all_Suc by (rule conj_assoc)
  qed simp
  have "sectors_are_erased base m \<longleftrightarrow> (\<forall>j<4096. m (base + j) = 0xff \<and> m (base + 4096 + j) = 0xff)"
    by (simp add: sectors_are_erased_def l FLASH_SECTOR_SIZE_def)
  also have "\<dots> \<longleftrightarrow> (\<forall>a. base \<le> a \<and> a < base + 8192 \<longrightarrow> m a = 0xff)"
  proof (intro iffI allI impI)
    fix a assume h: "\<forall>j<4096. m (base + j) = 0xff \<and> m (base + 4096 + j) = 0xff" and a: "base \<le> a \<and> a < base + 8192"
    show "m a = 0xff"
    proof (cases "a < base + 4096")
      case True
      then have "a - base < 4096" "base + (a - base) = a" using a by linarith+
      with h show ?thesis by metis
    next
      case False
      then have "a - base - 4096 < 4096" "base + 4096 + (a - base - 4096) = a" using a by linarith+
      with h show ?thesis by metis
    qed
  qed simp
  finally show ?thesis .
qed

text \<open>C13: seeding happens once and is not restartable. On erased flash the first boot seeds the store
  from the recovery key and the next boot finds it. But if power fails during that seeding after
  the first page is programmed and before the last command is complete, every later boot reports a
  format error and leaves the flash as it is: the sectors are neither valid nor erased.\<close>

theorem interrupted_seeding_is_final:
  assumes "nor_erase er" and "nor_program pr" and "length key = 32" and "key \<noteq> zero_key"
    and "sectors_are_erased base m" and "2 \<le> k" and "k < 18"
  defines "stopped \<equiv> fold (flash_exec er pr) (take k (program_sector_cmds base (sector_image (first_store key)))) m"
    and "seeded \<equiv> snd (snd (controller_store_flash_boot_or_seed er pr True base (Some key) m))"
  shows "boot_existing base seeded = (CONTROLLER_STORE_OK, first_store key) \<and>
    (\<forall>safe key'. controller_store_flash_boot_or_seed er pr safe base (Some key') stopped =
      (CONTROLLER_STORE_ERR_FORMAT, controller_store_empty, stopped))"
proof (intro conjI allI)
  let ?t = "first_store key"
  note wf = first_store_wf [OF assms(3,4)] and er = assms(5) [unfolded sectors_are_erased_iff]
  note img = sector_image_props [OF wf]
  have no: "decode_record (read_sector m base) = None" "decode_record (read_sector m (base + 4096)) = None"
    using er by (auto intro: decode_erased)
  then have b: "boot_existing base m = (CONTROLLER_STORE_ERR_FORMAT, controller_store_empty)"
    by (simp add: boot_existing_decode)
  have "let (st', m') = controller_store_flash_commit er pr True base (Some ?t) m in
      st' = CONTROLLER_STORE_OK \<and> boot_existing base m' = (CONTROLLER_STORE_OK, ?t)"
    using programmed_record [OF assms(1,2) wf, of base m] commit_result [OF assms(1,2) wf, of base m] b
      other_sector_kept(2) [OF assms(1,2) img(1), of base "base + 4096" m] no
    by (simp add: commit_target_def boot_existing_decode split: prod.split)
  then show "boot_existing base seeded = (CONTROLLER_STORE_OK, ?t)"
    unfolding seeded_def controller_store_flash_boot_or_seed_def
    by (simp add: b assms(5) initialise_first [OF assms(3,4)] split: prod.splits)
next
  fix safe key'
  let ?t = "first_store key" and ?cs = "program_sector_cmds base (sector_image (first_store key))"
  note wf = first_store_wf [OF assms(3,4)] and er = assms(5) [unfolded sectors_are_erased_iff]
  note img = sector_image_props [OF wf]
  have pre: "take k ?cs = Flash_Erase base 4096 # Flash_Program base (first_page (sector_image ?t)) #
      take (k - 2) (page_cmds base (sector_image ?t))"
    using assms(6,7) by (auto simp: program_sector_cmds_split take_Cons' numeral_2_eq_2)
  have page: "stopped (base + i) = first_page (sector_image ?t) ! i" if "i < 256" for i
    unfolding stopped_def pre by (rule after_first_page [OF assms(1,2) img(1) set_take_subset that])
  have "stopped (base + 184) = 0xff" using page [of 184] first_page_nth(1) [OF img(1), of 184] by simp
  then have d: "decode_record (read_sector stopped base) = None"
    by (intro decode_uncommitted [where k = 0])
      (simp_all add: le32_bytes_def CONTROLLER_STORE_COMMIT_def)
  have "read_sector stopped (base + 4096) = read_sector m (base + 4096)"
    unfolding stopped_def
    by (rule other_sector_kept(1) [OF assms(1,2) img(1) _ power_loss_between]) (use assms(7) in simp_all)
  then have "decode_record (read_sector stopped (base + 4096)) = None"
    using er decode_erased [of m "base + 4096"] by simp
  with d have b: "boot_existing base stopped = (CONTROLLER_STORE_ERR_FORMAT, controller_store_empty)"
    by (simp add: boot_existing_decode)
  have "stopped base = 0x53"
    using page [of 0] first_page_nth(1) [OF img(1), of 0]
    by (simp add: sector_image_def encode_record_def record_body_def le32_bytes_def CONTROLLER_STORE_MAGIC_def)
  then have "\<not> sectors_are_erased base stopped" by (auto simp: sectors_are_erased_iff)
  then show "controller_store_flash_boot_or_seed er pr safe base (Some key') stopped =
      (CONTROLLER_STORE_ERR_FORMAT, controller_store_empty, stopped)"
    by (simp add: controller_store_flash_boot_or_seed_def b)
qed

theorem interrupted_seeding_is_final_witness:
  "fst (controller_store_flash_boot_or_seed demo_erase demo_program True 0 (Some demo_key)
     (fold (flash_exec demo_erase demo_program)
       (take 3 (program_sector_cmds 0 (sector_image (first_store demo_key)))) blank_flash)) =
   CONTROLLER_STORE_ERR_FORMAT"
proof -
  have "sectors_are_erased 0 blank_flash" by (simp add: sectors_are_erased_iff blank_flash_def)
  from interrupted_seeding_is_final [OF demo_hardware demo_key_props this, of 3] show ?thesis by simp
qed

end
