(* ===== verification/Radio_Flash.thy ===== *)
theory Radio_Flash
  imports Radio_Config Store_Flash
begin

section \<open>Storing the credentials (firmware/radio/radio_provision_flash.c)\<close>

text \<open>
  The credential record has one sector of its own. Flash, its commands, the parameters \<open>er\<close>,
  \<open>pr\<close>, \<open>safe\<close> and the power-loss model are those of \<^verbatim>\<open>Store_Flash\<close>; the offset of the sector comes
  from the SDK's layout and is the parameter \<open>off\<close>. The static buffer of the flash operation
  is filled before and wiped after every use and is not kept.
\<close>

definition radio_program_cmds :: "nat \<Rightarrow> bytes \<Rightarrow> flash_cmd list" where
  "radio_program_cmds off sector = Flash_Erase off RADIO_SECTOR_SIZE #
     map (\<lambda>k. Flash_Program (off + FLASH_PAGE_SIZE * k) (page_of sector (FLASH_PAGE_SIZE * k)))
       [0..<RADIO_SECTOR_SIZE div FLASH_PAGE_SIZE]"

definition radio_program_sector :: "flash_erase \<Rightarrow> flash_program \<Rightarrow> nat \<Rightarrow> bytes \<Rightarrow> flash_mem \<Rightarrow> flash_mem" where
  "radio_program_sector er pr off sector m = fold (flash_exec er pr) (radio_program_cmds off sector) m"

definition radio_erase_sector :: "flash_erase \<Rightarrow> nat \<Rightarrow> flash_mem \<Rightarrow> flash_mem" where
  "radio_erase_sector er off m = er off RADIO_SECTOR_SIZE m"

text \<open>\<open>strncmp(..., n) == 0\<close> on two arrays of \<open>n\<close> bytes.\<close>

fun strncmp_eq :: "bytes \<Rightarrow> bytes \<Rightarrow> nat \<Rightarrow> nat \<Rightarrow> bool" where
  "strncmp_eq a b i 0 \<longleftrightarrow> True"
| "strncmp_eq a b i (Suc n) \<longleftrightarrow>
     (if a ! i \<noteq> b ! i then False else if a ! i = 0 then True else strncmp_eq a b (Suc i) n)"

definition radio_provision_flash_write_and_verify ::
  "flash_erase \<Rightarrow> flash_program \<Rightarrow> bool \<Rightarrow> nat \<Rightarrow> bytes option \<Rightarrow> flash_mem \<Rightarrow> bool \<times> flash_mem" where
  "radio_provision_flash_write_and_verify er pr safe off img_arg m =
     (case img_arg of None \<Rightarrow> (False, m)
      | Some img \<Rightarrow>
        (case radio_config_parse2 (Some img) RADIO_SECTOR_SIZE of (ok, candidate) \<Rightarrow>
          if \<not> ok then (False, m)
          else if \<not> safe then (False, m)
          else let m = radio_program_sector er pr off img m; readback = read_sector m off in
            if readback \<noteq> img then (False, m)
            else (case radio_config_parse2 (Some readback) RADIO_SECTOR_SIZE of (ok, persisted) \<Rightarrow>
              if \<not> ok then (False, m)
              else (strncmp_eq (ssid persisted) (ssid candidate) 0 33 \<and>
                    strncmp_eq (psk persisted) (psk candidate) 0 64, m))))"

definition radio_provision_flash_read :: "nat \<Rightarrow> flash_mem \<Rightarrow> bool \<times> radio_config" where
  "radio_provision_flash_read off m = radio_config_parse2 (Some (read_sector m off)) RADIO_SECTOR_SIZE"

definition radio_provision_flash_clear ::
  "flash_erase \<Rightarrow> bool \<Rightarrow> nat \<Rightarrow> flash_mem \<Rightarrow> bool \<times> flash_mem" where
  "radio_provision_flash_clear er safe off m =
     (if \<not> safe then (False, m)
      else let m = radio_erase_sector er off m in
        (all_erased (read_sector m off) 0 RADIO_SECTOR_SIZE, m))"

subsection \<open>Writing and clearing\<close>

lemma strncmp_same: "strncmp_eq a a i n"
  by (induction n arbitrary: i) simp_all

lemma page_nth: "length s = 4096 \<Longrightarrow> p + i < 4096 \<Longrightarrow> i < 256 \<Longrightarrow> page_of s p ! i = s ! (p + i)"
  by (simp add: page_of_def FLASH_PAGE_SIZE_def)

text \<open>After the first \<open>k\<close> pages the sector holds them, and the rest is erased.\<close>

lemma pages_programmed:
  assumes "nor_program pr" and "length img = 4096" and "k \<le> 16"
    and "\<forall>i<4096. m (off + i) = 0xff" and "i < 4096"
  shows "fold (flash_exec er pr)
    (map (\<lambda>k. Flash_Program (off + 256 * k) (page_of img (256 * k))) [0..<k]) m (off + i) =
    (if i < 256 * k then img ! i else 0xff)"
  using assms(3,5)
proof (induction k arbitrary: i)
  case 0
  then show ?case using assms(4) by simp
next
  case (Suc k)
  have l: "length (page_of img (256 * k)) = 256"
    using length_pages(2) [OF assms(2), of "256 * k"] Suc.prems(1) by simp
  have n: "page_of img (256 * k) ! (i - 256 * k) = img ! i" if "256 * k \<le> i" "i < 256 * k + 256"
    using page_nth [OF assms(2), of "256 * k" "i - 256 * k"] that Suc.prems by simp
  have IH: "fold (flash_exec er pr)
    (map (\<lambda>k. Flash_Program (off + 256 * k) (page_of img (256 * k))) [0..<k]) m (off + i) =
    (if i < 256 * k then img ! i else 0xff)" using Suc by simp
  let ?m = "fold (flash_exec er pr) (map (\<lambda>k. Flash_Program (off + 256 * k) (page_of img (256 * k))) [0..<k]) m"
  have "pr (off + 256 * k) (page_of img (256 * k)) ?m (off + i) =
      (if i < 256 * Suc k then img ! i else 0xff)"
    using IH n by (subst program_within [OF assms(1)]) (auto simp: l)
  then show ?case by simp
qed

lemma radio_programmed:
  assumes "nor_erase er" and "nor_program pr" and "length img = 4096"
  shows "read_sector (radio_program_sector er pr off img m) off = img"
proof (rule nth_equalityI)
  fix i assume "i < length (read_sector (radio_program_sector er pr off img m) off)"
  then have i: "i < 4096" by simp
  have e: "\<forall>i<4096. er off 4096 m (off + i) = 0xff" by (simp add: erase_within [OF assms(1)])
  have "radio_program_sector er pr off img m (off + i) = img ! i"
    using pages_programmed [OF assms(2,3) _ e i, of 16 er] i
    by (simp add: radio_program_sector_def radio_program_cmds_def RADIO_SECTOR_SIZE_def FLASH_PAGE_SIZE_def)
  then show "read_sector (radio_program_sector er pr off img m) off ! i = img ! i" using i by simp
qed (simp add: assms(3))

lemma radio_cmds_miss:
  assumes "length img = 4096" and "c \<in> set (radio_program_cmds off img)" and "a < off \<or> off + 4096 \<le> a"
  shows "misses a c"
proof -
  consider "c = Flash_Erase off 4096"
    | k where "k < 16" "c = Flash_Program (off + 256 * k) (page_of img (256 * k))"
    using assms(2) by (auto simp: radio_program_cmds_def RADIO_SECTOR_SIZE_def FLASH_PAGE_SIZE_def)
  then show ?thesis
  proof cases
    case 2
    then have "256 * k \<le> 3840" by simp
    with 2 assms(3) show ?thesis by (auto simp: misses_def length_pages(2) [OF assms(1)])
  qed (use assms(3) in \<open>auto simp: misses_def\<close>)
qed

text \<open>C19: provisioning is exact and cannot destroy a working record by a bad request. Writing an image the
  parser rejects, or failing to get the flash, changes nothing and reports failure; otherwise the write succeeds,
  the next read finds exactly the credentials of the image, no byte outside the sector changes,
  and clearing it makes the next read fail.\<close>

theorem provisioning_is_exact:
  assumes "nor_erase er" and "nor_program pr" and "length img = RADIO_SECTOR_SIZE"
  shows "(case radio_provision_flash_write_and_verify er pr safe off (Some img) m of (ok, m') \<Rightarrow>
      (if safe \<and> fst (radio_config_parse2 (Some img) RADIO_SECTOR_SIZE)
       then ok \<and> radio_provision_flash_read off m' = radio_config_parse2 (Some img) RADIO_SECTOR_SIZE \<and>
         (\<forall>a. a < off \<or> off + RADIO_SECTOR_SIZE \<le> a \<longrightarrow> m' a = m a)
       else \<not> ok \<and> m' = m)) \<and>
    (case radio_provision_flash_clear er safe off m of (ok, m') \<Rightarrow>
      if safe then ok \<and> \<not> fst (radio_provision_flash_read off m') else \<not> ok \<and> m' = m)"
proof
  have l: "length img = 4096" using assms(3) by (simp add: RADIO_SECTOR_SIZE_def)
  note r = radio_programmed [OF assms(1,2) l, of off m]
  have "radio_program_sector er pr off img m a = m a" if "a < off \<or> off + 4096 \<le> a" for a
    using fold_misses [OF assms(1,2), of "radio_program_cmds off img" a m] radio_cmds_miss [OF l _ that]
    by (simp add: radio_program_sector_def)
  then show "case radio_provision_flash_write_and_verify er pr safe off (Some img) m of (ok, m') \<Rightarrow>
      (if safe \<and> fst (radio_config_parse2 (Some img) RADIO_SECTOR_SIZE)
       then ok \<and> radio_provision_flash_read off m' = radio_config_parse2 (Some img) RADIO_SECTOR_SIZE \<and>
         (\<forall>a. a < off \<or> off + RADIO_SECTOR_SIZE \<le> a \<longrightarrow> m' a = m a)
       else \<not> ok \<and> m' = m)"
    by (cases "radio_config_parse2 (Some img) RADIO_SECTOR_SIZE")
      (simp add: radio_provision_flash_write_and_verify_def Let_def r strncmp_same radio_provision_flash_read_def
        RADIO_SECTOR_SIZE_def)
next
  have e: "read_sector (er off 4096 m) off = replicate 4096 0xff"
    by (rule nth_equalityI) (simp_all add: erase_within [OF assms(1)])
  have "all_erased (replicate 4096 0xff) 0 4096" by (simp add: all_erased_iff)
  moreover have "\<not> fst (radio_config_parse2 (Some (replicate 4096 0xff)) 4096)"
  proof -
    have "take 8 (replicate 4096 (0xff :: u8)) ! 0 \<noteq> magic2 ! 0" by (simp add: magic2_def)
    then have "take 8 (replicate 4096 (0xff :: u8)) \<noteq> magic2" by metis
    then show ?thesis by (simp add: radio_config_parse2_def parse_common_def parse_checks_def)
  qed
  ultimately show "case radio_provision_flash_clear er safe off m of (ok, m') \<Rightarrow>
      if safe then ok \<and> \<not> fst (radio_provision_flash_read off m') else \<not> ok \<and> m' = m"
    by (simp add: radio_provision_flash_clear_def radio_erase_sector_def radio_provision_flash_read_def Let_def e
        RADIO_SECTOR_SIZE_def)
qed

theorem provisioning_is_exact_witness:
  "fst (radio_provision_flash_write_and_verify demo_erase demo_program True 0
     (Some (credentials_image demo_credentials)) (\<lambda>a. 0)) = True \<and>
   fst (radio_provision_flash_clear demo_erase True 0 (\<lambda>a. 0)) = True"
proof -
  obtain name pass where w: "demo_credentials = (name, pass)" by fastforce
  have o: "credentials_ok (name, pass)" using demo_credentials_ok w by simp
  then have t: "24 + length name + length pass \<le> 4096" by (simp add: credentials_ok_def)
  have l: "length (credentials_image demo_credentials) = RADIO_SECTOR_SIZE"
    using image_parts(1) [OF refl refl t] by (simp add: w RADIO_SECTOR_SIZE_def)
  have "fst (radio_config_parse2 (Some (credentials_image demo_credentials)) RADIO_SECTOR_SIZE)"
    using image_accepted [OF o] l
    by (simp add: radio_config_parse2_def parse_common_accepted RADIO_SECTOR_SIZE_def w)
  then show ?thesis
    using provisioning_is_exact [OF demo_hardware l, of True 0 "\<lambda>a. 0"] by (simp split: prod.splits)
qed

end
