(* ===== verification/Noise_IK.thy ===== *)
theory Noise_IK
  imports Controller_Store "HOL-Library.Monad_Syntax"
begin

section \<open>The Noise IK responder (firmware/noise_ik.c)\<close>

text \<open>
  The responder of the Noise_IK_25519_ChaChaPoly_SHA256 handshake and the encrypted transport
  after it. The cryptographic primitives are mbedTLS and are parameters: one record of
  functions, each returning \<open>None\<close> where the C function returns an error code. The random
  ephemeral key pair of a handshake is an argument (\<open>None\<close> when its generation fails, else the
  private key and the encoding of the public one). The
  state \<open>nctx\<close> is a record passed through every function; the controller store it points
  to is the argument \<open>store\<close>, the device's current one. Buffers that are only scratch space
  and are wiped before the return are not kept. Functions that return 0 or an error code return
  a Boolean here, \<open>True\<close> for 0.
\<close>

definition NOISE_IK_KEY_LEN :: nat where [consts_def]: "NOISE_IK_KEY_LEN = 32"
definition NOISE_IK_TAG_LEN :: nat where [consts_def]: "NOISE_IK_TAG_LEN = 16"
definition NOISE_IK_INIT_MESSAGE_LEN :: nat where [consts_def]: "NOISE_IK_INIT_MESSAGE_LEN = 80"
definition NOISE_IK_RESPONSE_LEN :: nat where [consts_def]: "NOISE_IK_RESPONSE_LEN = 53"
definition NOISE_IK_TRANSPORT_NONCE_LEN :: nat where [consts_def]: "NOISE_IK_TRANSPORT_NONCE_LEN = 8"
definition NOISE_IK_TRANSPORT_OVERHEAD :: nat where
  [consts_def]: "NOISE_IK_TRANSPORT_OVERHEAD = NOISE_IK_TRANSPORT_NONCE_LEN + NOISE_IK_TAG_LEN"
definition NOISE_IK_TRANSPORT_ACK_LEN :: nat where [consts_def]: "NOISE_IK_TRANSPORT_ACK_LEN = 6"
definition NOISE_IK_TRANSPORT_RESPONSE_LEN :: nat where
  [consts_def]: "NOISE_IK_TRANSPORT_RESPONSE_LEN = NOISE_IK_TRANSPORT_OVERHEAD + NOISE_IK_TRANSPORT_ACK_LEN"
definition NOISE_IK_MAX_PLAINTEXT :: nat where [consts_def]: "NOISE_IK_MAX_PLAINTEXT = 1038"
definition UINT64_MAX :: u64 where "UINT64_MAX = 0xffffffffffffffff"

text \<open>\<^verbatim>\<open>"Noise_IK_25519_ChaChaPoly_SHA256"\<close> and \<^verbatim>\<open>{'P','B','I','K','1'}\<close>.\<close>

definition ik_protocol_name :: bytes where
  "ik_protocol_name = [0x4e, 0x6f, 0x69, 0x73, 0x65, 0x5f, 0x49, 0x4b, 0x5f, 0x32, 0x35, 0x35, 0x31,
     0x39, 0x5f, 0x43, 0x68, 0x61, 0x43, 0x68, 0x61, 0x50, 0x6f, 0x6c, 0x79, 0x5f, 0x53, 0x48, 0x41,
     0x32, 0x35, 0x36]"

definition ik_ack :: bytes where
  "ik_ack = [0x50, 0x42, 0x49, 0x4b, 0x31]"

subsection \<open>Primitives and state\<close>

text \<open>
  \<open>hkdf ck input\<close> gives 64 bytes; \<open>dh scalar point\<close> is the X25519 function on a clamped
  scalar; \<open>seal key nonce ad plaintext\<close> gives ciphertext and tag, \<open>unseal\<close> checks them.
\<close>

record noise_crypto =
  sha256 :: "bytes \<Rightarrow> bytes option"
  hkdf :: "bytes \<Rightarrow> bytes \<Rightarrow> bytes option"
  dh :: "bytes \<Rightarrow> bytes \<Rightarrow> bytes option"
  seal :: "bytes \<Rightarrow> bytes \<Rightarrow> bytes \<Rightarrow> bytes \<Rightarrow> (bytes \<times> bytes) option"
  unseal :: "bytes \<Rightarrow> bytes \<Rightarrow> bytes \<Rightarrow> bytes \<Rightarrow> bytes \<Rightarrow> bytes option"

record noise_ctx =
  device_static_priv :: bytes
  device_static_pub :: bytes
  controllers_set :: bool
  authenticated_slot :: nat
  authenticated_role :: u8
  cipher_key :: bytes
  receive_key :: bytes
  send_key :: bytes
  chain_key :: bytes
  transcript :: bytes
  nonce_counter :: u64
  receive_nonce :: u64
  send_nonce :: u64
  ready :: bool

definition zero_ctx :: noise_ctx where
  "zero_ctx = \<lparr>device_static_priv = zero_key, device_static_pub = zero_key, controllers_set = False,
     authenticated_slot = 0, authenticated_role = 0, cipher_key = zero_key, receive_key = zero_key,
     send_key = zero_key, chain_key = zero_key, transcript = zero_key, nonce_counter = 0,
     receive_nonce = 0, send_nonce = 0, ready = False\<rparr>"

subsection \<open>The symmetric state\<close>

definition mix_hash :: "noise_crypto \<Rightarrow> bytes \<Rightarrow> noise_ctx \<Rightarrow> bool \<times> noise_ctx" where
  "mix_hash C data n =
     (if length data > NOISE_IK_INIT_MESSAGE_LEN then (False, n)
      else case sha256 C (transcript n @ data) of
        None \<Rightarrow> (False, n) | Some h \<Rightarrow> (True, n\<lparr>transcript := h\<rparr>))"

definition mix_key :: "noise_crypto \<Rightarrow> bytes \<Rightarrow> noise_ctx \<Rightarrow> bool \<times> noise_ctx" where
  "mix_key C data n =
     (case hkdf C (chain_key n) data of
        None \<Rightarrow> (False, n)
      | Some tmp \<Rightarrow> (True, n\<lparr>chain_key := take 32 tmp, cipher_key := take 32 (drop 32 tmp), nonce_counter := 0\<rparr>))"

definition noise_nonce :: "u64 \<Rightarrow> bytes" where
  "noise_nonce counter = replicate 4 0 @ map (\<lambda>i. ucast (drop_bit (8 * i) counter)) [0..<8]"

text \<open>The clamping in front of every Diffie-Hellman operation.\<close>

definition clamp :: "bytes \<Rightarrow> bytes" where
  "clamp priv = priv[0 := priv ! 0 AND 0xf8, 31 := (priv ! 31 AND 0x7f) OR 0x40]"

definition x25519_dh :: "noise_crypto \<Rightarrow> bytes \<Rightarrow> bytes \<Rightarrow> bytes option" where
  "x25519_dh C priv pub = dh C (clamp priv) pub"

text \<open>The generated key pair, whose public key must be encoded in exactly 32 bytes.\<close>

definition x25519_keypair :: "(bytes \<times> bytes) option \<Rightarrow> (bytes \<times> bytes) option" where
  "x25519_keypair gen = (case gen of None \<Rightarrow> None
     | Some (priv, pub_bin) \<Rightarrow> if length pub_bin = NOISE_IK_KEY_LEN then Some (priv, pub_bin) else None)"

text \<open>
  \<open>rng_callback\<close>: the random source of mbedTLS, four bytes at a time from the successive
  results of \<open>get_rand_32\<close>.
\<close>

function rng_callback :: "(nat \<Rightarrow> u32) \<Rightarrow> nat \<Rightarrow> nat \<Rightarrow> bytes" where
  "rng_callback rand k len =
     (if len = 0 then []
      else let n = (if len < 4 then len else 4) in
        take n (le32_bytes (rand k)) @ rng_callback rand (Suc k) (len - n))"
  by pat_completeness auto
termination by (relation "measure (\<lambda>(rand, k, len). len)") auto

declare rng_callback.simps [simp del]

lemma rng_callback_fills: "length (rng_callback rand k len) = len"
  by (induction rand k len rule: rng_callback.induct) (subst rng_callback.simps, simp add: Let_def min_def)

definition cipher_encrypt_and_hash ::
  "noise_crypto \<Rightarrow> bytes \<Rightarrow> noise_ctx \<Rightarrow> (bool \<times> bytes) \<times> noise_ctx" where
  "cipher_encrypt_and_hash C plaintext n =
     (if nonce_counter n = UINT64_MAX then ((False, []), n)
      else case seal C (cipher_key n) (noise_nonce (nonce_counter n)) (transcript n) plaintext of
        None \<Rightarrow> ((False, []), n)
      | Some (c, tag) \<Rightarrow>
          (case mix_hash C (c @ tag) (n\<lparr>nonce_counter := nonce_counter n + 1\<rparr>) of
             (ok, n) \<Rightarrow> ((ok, c @ tag), n)))"

definition cipher_decrypt_and_hash ::
  "noise_crypto \<Rightarrow> bytes \<Rightarrow> noise_ctx \<Rightarrow> (bool \<times> bytes) \<times> noise_ctx" where
  "cipher_decrypt_and_hash C encrypted n =
     (if length encrypted < NOISE_IK_TAG_LEN \<or> nonce_counter n = UINT64_MAX then ((False, []), n)
      else let ciphertext_len = length encrypted - NOISE_IK_TAG_LEN in
        case unseal C (cipher_key n) (noise_nonce (nonce_counter n)) (transcript n)
          (take ciphertext_len encrypted) (drop ciphertext_len encrypted) of
          None \<Rightarrow> ((False, []), n)
        | Some p \<Rightarrow>
            (case mix_hash C encrypted (n\<lparr>nonce_counter := nonce_counter n + 1\<rparr>) of
               (ok, n) \<Rightarrow> ((ok, p), n)))"

definition split_transport :: "noise_crypto \<Rightarrow> noise_ctx \<Rightarrow> bool \<times> noise_ctx" where
  "split_transport C n =
     (case hkdf C (chain_key n) [] of
        None \<Rightarrow> (False, n)
      | Some tmp \<Rightarrow> (True, n\<lparr>receive_key := take 32 tmp, send_key := take 32 (drop 32 tmp),
          receive_nonce := 0, send_nonce := 0, cipher_key := zero_key\<rparr>))"

definition reset_handshake_state :: "noise_crypto \<Rightarrow> noise_ctx \<Rightarrow> bool \<times> noise_ctx" where
  "reset_handshake_state C n =
     (let n = n\<lparr>ready := False, authenticated_slot := CONTROLLER_STORE_SLOT_COUNT,
          authenticated_role := ROLE_NONE, nonce_counter := 0, receive_nonce := 0, send_nonce := 0,
          cipher_key := zero_key, receive_key := zero_key, send_key := zero_key\<rparr> in
      case sha256 C ik_protocol_name of
        None \<Rightarrow> (False, n)
      | Some h \<Rightarrow> mix_hash C (device_static_pub n) (n\<lparr>transcript := h, chain_key := h\<rparr>))"

text \<open>The device key is generated offline and compiled in: the argument \<open>priv\<close>.\<close>

definition basepoint :: bytes where
  "basepoint = 9 # replicate 31 0"

definition noise_ik_init ::
  "noise_crypto \<Rightarrow> bytes \<Rightarrow> bool \<Rightarrow> noise_ctx \<Rightarrow> bool \<times> noise_ctx" where
  "noise_ik_init C priv controllers n =
     (if \<not> controllers then (False, n)
      else let n = zero_ctx\<lparr>controllers_set := True, device_static_priv := priv\<rparr> in
        case x25519_dh C (device_static_priv n) basepoint of
          None \<Rightarrow> (False, n)
        | Some pub \<Rightarrow> reset_handshake_state C (n\<lparr>device_static_pub := pub\<rparr>))"

subsection \<open>The handshake\<close>

text \<open>The loop over the slots keeps the first match and always looks at all five.\<close>

fun match_slot :: "controller_slot list \<Rightarrow> bytes \<Rightarrow> nat \<Rightarrow> nat \<Rightarrow> nat \<times> u8 \<Rightarrow> nat \<times> u8" where
  "match_slot ss key i 0 m = m"
| "match_slot ss key i (Suc k) m =
     match_slot ss key (Suc i) k
       (if slot_role (ss ! i) \<noteq> ROLE_NONE \<and> ct_equal key (public_key (ss ! i)) NOISE_IK_KEY_LEN \<and>
           fst m = CONTROLLER_STORE_SLOT_COUNT
        then (i, slot_role (ss ! i)) else m)"

text \<open>A DH result mixed into the key: \<open>x25519_dh(...) != 0 || mix_key(...) != 0\<close>.\<close>

definition mix_dh :: "noise_crypto \<Rightarrow> bytes \<Rightarrow> bytes \<Rightarrow> noise_ctx \<Rightarrow> bool \<times> noise_ctx" where
  "mix_dh C priv pub n =
     (case x25519_dh C priv pub of None \<Rightarrow> (False, n) | Some shared \<Rightarrow> mix_key C shared n)"

text \<open>
  The steps up to the label \<open>done\<close>, in order: each continues only when the one before it
  succeeded (\<open>or_done\<close>). The result is the response and the context with the session open.
\<close>

definition or_done :: "bool \<times> noise_ctx \<Rightarrow> (noise_ctx \<Rightarrow> 'a option \<times> noise_ctx) \<Rightarrow> 'a option \<times> noise_ctx" where
  "or_done r f = (if fst r then f (snd r) else (None, snd r))"

definition handshake_match ::
  "noise_crypto \<Rightarrow> controller_store \<Rightarrow> bytes \<Rightarrow> noise_ctx \<Rightarrow> (bytes \<times> nat \<times> u8) option \<times> noise_ctx" where
  "handshake_match C store msg n =
     (let initiator_eph = take 32 msg; encrypted_static = take 48 (drop 32 msg) in
      or_done (reset_handshake_state C n) (\<lambda>n.
      or_done (mix_hash C initiator_eph n) (\<lambda>n.
      or_done (mix_dh C (device_static_priv n) initiator_eph n) (\<lambda>n.
      (case cipher_decrypt_and_hash C encrypted_static n of ((ok, initiator_static), n) \<Rightarrow>
        if \<not> ok \<or> length initiator_static \<noteq> NOISE_IK_KEY_LEN \<or> \<not> controllers_set n then (None, n)
        else (case match_slot (slots store) initiator_static 0 CONTROLLER_STORE_SLOT_COUNT
            (CONTROLLER_STORE_SLOT_COUNT, ROLE_NONE) of (matched_slot, matched_role) \<Rightarrow>
          if matched_slot = CONTROLLER_STORE_SLOT_COUNT then (None, n)
          else (Some (initiator_static, matched_slot, matched_role), n)))))))"

definition handshake_answer ::
  "noise_crypto \<Rightarrow> (bytes \<times> bytes) option \<Rightarrow> bytes \<Rightarrow> bytes \<times> nat \<times> u8 \<Rightarrow> noise_ctx \<Rightarrow> bytes option \<times> noise_ctx" where
  "handshake_answer C gen msg matched n =
     (let initiator_eph = take 32 msg in
      case matched of (initiator_static, matched_slot, matched_role) \<Rightarrow>
      or_done (mix_dh C (device_static_priv n) initiator_static n) (\<lambda>n.
      (case x25519_keypair gen of None \<Rightarrow> (None, n) | Some (eph_priv, eph_pub) \<Rightarrow>
      or_done (mix_hash C eph_pub n) (\<lambda>n.
      or_done (mix_dh C eph_priv initiator_eph n) (\<lambda>n.
      or_done (mix_dh C eph_priv initiator_static n) (\<lambda>n.
      (case cipher_encrypt_and_hash C ik_ack n of ((ok, sealed_ack), n) \<Rightarrow>
        if \<not> ok \<or> length sealed_ack \<noteq> NOISE_IK_RESPONSE_LEN - NOISE_IK_KEY_LEN then (None, n)
        else or_done (split_transport C n) (\<lambda>n.
          (Some (eph_pub @ sealed_ack),
           n\<lparr>authenticated_slot := matched_slot, authenticated_role := matched_role, ready := True\<rparr>)))))))))"

definition handshake_steps ::
  "noise_crypto \<Rightarrow> controller_store \<Rightarrow> (bytes \<times> bytes) option \<Rightarrow> bytes \<Rightarrow> noise_ctx
     \<Rightarrow> bytes option \<times> noise_ctx"
where
  "handshake_steps C store gen msg n =
     (case handshake_match C store msg n of
        (None, n) \<Rightarrow> (None, n) | (Some matched, n) \<Rightarrow> handshake_answer C gen msg matched n)"

text \<open>
  \<open>noise_ik_handshake_respond\<close>: the result is the return code and the response bytes
  (\<open>response_len\<close> of them); \<open>out\<close> says whether both output pointers are given. A failure
  after the argument checks clears the handshake state again.
\<close>

definition noise_ik_handshake_respond ::
  "noise_crypto \<Rightarrow> controller_store \<Rightarrow> (bytes \<times> bytes) option \<Rightarrow> bytes option \<Rightarrow> bool \<Rightarrow> nat \<Rightarrow> noise_ctx
     \<Rightarrow> (bool \<times> bytes) \<times> noise_ctx"
where
  "noise_ik_handshake_respond C store gen initiator_message out response_cap n =
     (case initiator_message of None \<Rightarrow> ((False, []), n)
      | Some msg \<Rightarrow>
          if \<not> out \<or> length msg \<noteq> NOISE_IK_INIT_MESSAGE_LEN \<or> response_cap < NOISE_IK_RESPONSE_LEN
          then ((False, []), n)
          else (case handshake_steps C store gen msg n of
             (Some response, n) \<Rightarrow> ((True, response), n)
           | (None, n) \<Rightarrow> ((False, []), snd (reset_handshake_state C n))))"

subsection \<open>The transport\<close>

text \<open>The little-endian counter in front of a packet.\<close>

fun packet_nonce :: "bytes \<Rightarrow> nat \<Rightarrow> nat \<Rightarrow> u64 \<Rightarrow> u64" where
  "packet_nonce packet i 0 v = v"
| "packet_nonce packet i (Suc k) v =
     packet_nonce packet (Suc i) k (v OR push_bit (8 * i) (ucast (packet ! i)))"

definition noise_decrypt_packet ::
  "noise_crypto \<Rightarrow> bytes option \<Rightarrow> bool \<Rightarrow> nat \<Rightarrow> noise_ctx \<Rightarrow> (bool \<times> bytes) \<times> noise_ctx" where
  "noise_decrypt_packet C packet out plaintext_cap n =
     (case packet of None \<Rightarrow> ((False, []), n)
      | Some p \<Rightarrow>
        if \<not> ready n \<or> \<not> out \<or> length p < NOISE_IK_TRANSPORT_OVERHEAD \<or> receive_nonce n = UINT64_MAX
        then ((False, []), n)
        else let ciphertext_len = length p - NOISE_IK_TRANSPORT_NONCE_LEN - NOISE_IK_TAG_LEN in
        if ciphertext_len > plaintext_cap \<or> ciphertext_len > NOISE_IK_MAX_PLAINTEXT then ((False, []), n)
        else if packet_nonce p 0 NOISE_IK_TRANSPORT_NONCE_LEN 0 \<noteq> receive_nonce n then ((False, []), n)
        else (case unseal C (receive_key n) (noise_nonce (receive_nonce n)) []
            (take ciphertext_len (drop NOISE_IK_TRANSPORT_NONCE_LEN p))
            (drop (NOISE_IK_TRANSPORT_NONCE_LEN + ciphertext_len) p) of
            None \<Rightarrow> ((False, []), n)
          | Some plaintext \<Rightarrow> ((True, plaintext), n\<lparr>receive_nonce := receive_nonce n + 1\<rparr>)))"

definition receipt_of :: "u8 \<Rightarrow> bytes" where
  "receipt_of command_status = [0x50, 0x42, 0x4f, 0x4b, 0x31, command_status]"

definition noise_encrypt_transport_ack ::
  "noise_crypto \<Rightarrow> u8 \<Rightarrow> bool \<Rightarrow> nat \<Rightarrow> noise_ctx \<Rightarrow> (bool \<times> bytes) \<times> noise_ctx" where
  "noise_encrypt_transport_ack C command_status out packet_cap n =
     (if \<not> ready n \<or> \<not> out \<or> packet_cap < NOISE_IK_TRANSPORT_RESPONSE_LEN \<or> send_nonce n = UINT64_MAX
      then ((False, []), n)
      else case seal C (send_key n) (noise_nonce (send_nonce n)) [] (receipt_of command_status) of
        None \<Rightarrow> ((False, []), n)
      | Some (c, tag) \<Rightarrow>
          ((True, le64_bytes (send_nonce n) @ c @ tag), n\<lparr>send_nonce := send_nonce n + 1\<rparr>))"

definition noise_is_ready :: "noise_ctx \<Rightarrow> bool" where
  "noise_is_ready n = ready n"

definition noise_authenticated_slot :: "noise_ctx \<Rightarrow> nat" where
  "noise_authenticated_slot n = (if ready n then authenticated_slot n else CONTROLLER_STORE_SLOT_COUNT)"

definition noise_authenticated_role :: "noise_ctx \<Rightarrow> u8" where
  "noise_authenticated_role n = (if ready n then authenticated_role n else ROLE_NONE)"

subsection \<open>The symmetric state, step by step\<close>

lemmas session_defs = noise_is_ready_def noise_authenticated_slot_def noise_authenticated_role_def

lemma or_done_Some: "or_done r f = (Some x, m) \<longleftrightarrow> fst r \<and> f (snd r) = (Some x, m)"
  by (simp add: or_done_def)

lemma mix_hash_ok: "fst (mix_hash C d n) \<longleftrightarrow> length d \<le> 80 \<and> (\<exists>h. sha256 C (transcript n @ d) = Some h)"
  by (auto simp: mix_hash_def consts_def split: option.split)

lemma mix_hash_state:
  "snd (mix_hash C d n) = (case sha256 C (transcript n @ d) of
     None \<Rightarrow> n | Some h \<Rightarrow> if length d \<le> 80 then n\<lparr>transcript := h\<rparr> else n)"
  by (auto simp: mix_hash_def consts_def split: option.split)

lemma mix_key_ok: "fst (mix_key C d n) \<longleftrightarrow> (\<exists>t. hkdf C (chain_key n) d = Some t)"
  by (auto simp: mix_key_def split: option.split)

lemma mix_key_state:
  "snd (mix_key C d n) = (case hkdf C (chain_key n) d of None \<Rightarrow> n
     | Some t \<Rightarrow> n\<lparr>chain_key := take 32 t, cipher_key := take 32 (drop 32 t), nonce_counter := 0\<rparr>)"
  by (auto simp: mix_key_def split: option.split)

lemma mix_dh_ok:
  "fst (mix_dh C priv pub n) \<longleftrightarrow> (\<exists>s t. x25519_dh C priv pub = Some s \<and> hkdf C (chain_key n) s = Some t)"
  by (auto simp: mix_dh_def mix_key_ok split: option.split)

lemma mix_dh_state:
  "snd (mix_dh C priv pub n) = (case x25519_dh C priv pub of None \<Rightarrow> n | Some s \<Rightarrow> snd (mix_key C s n))"
  by (auto simp: mix_dh_def split: option.split)

lemmas symmetric_steps =
  mix_hash_ok mix_hash_state mix_key_ok mix_key_state mix_dh_ok mix_dh_state

lemma reset_state:
  "snd (reset_handshake_state C n) = (let n = n\<lparr>ready := False, authenticated_slot := 5,
      authenticated_role := ROLE_NONE, nonce_counter := 0, receive_nonce := 0, send_nonce := 0,
      cipher_key := zero_key, receive_key := zero_key, send_key := zero_key\<rparr> in
    case sha256 C ik_protocol_name of None \<Rightarrow> n
    | Some h \<Rightarrow> snd (mix_hash C (device_static_pub n) (n\<lparr>transcript := h, chain_key := h\<rparr>)))"
  by (simp add: reset_handshake_state_def CONTROLLER_STORE_SLOT_COUNT_def Let_def split: option.split)

lemma reset_closes:
  "\<not> ready (snd (reset_handshake_state C n))"
  "controllers_set (snd (reset_handshake_state C n)) = controllers_set n"
  "device_static_priv (snd (reset_handshake_state C n)) = device_static_priv n"
  "device_static_pub (snd (reset_handshake_state C n)) = device_static_pub n"
  by (simp_all add: reset_state Let_def mix_hash_state split: option.splits)

lemma reset_ok:
  "fst (reset_handshake_state C n) \<longleftrightarrow>
     (\<exists>h. sha256 C ik_protocol_name = Some h \<and> length (device_static_pub n) \<le> 80 \<and>
        sha256 C (h @ device_static_pub n) \<noteq> None)"
  by (auto simp: reset_handshake_state_def mix_hash_ok Let_def split: option.split)

subsection \<open>Who may open a session\<close>

text \<open>
  The static key an initiation message claims, as the protocol defines it: the 48 bytes after
  the ephemeral key, opened under the key of the first Diffie-Hellman result with the
  transcript of everything before them as associated data.
\<close>

definition claimed_static :: "noise_crypto \<Rightarrow> bytes \<Rightarrow> bytes \<Rightarrow> bytes \<Rightarrow> bytes option" where
  "claimed_static C priv pub msg = do {
     h0 \<leftarrow> sha256 C ik_protocol_name;
     h1 \<leftarrow> sha256 C (h0 @ pub);
     h2 \<leftarrow> sha256 C (h1 @ take 32 msg);
     es \<leftarrow> x25519_dh C priv (take 32 msg);
     keys \<leftarrow> hkdf C h0 es;
     unseal C (take 32 (drop 32 keys)) (noise_nonce 0) h2 (take 32 (drop 32 msg)) (take 16 (drop 64 msg))
   }"

lemma match_slot_done: "fst m \<noteq> 5 \<Longrightarrow> match_slot ss key i k m = m"
  by (induction k arbitrary: i) (simp_all add: CONTROLLER_STORE_SLOT_COUNT_def)

lemma ct_equal_sym: "length a = n \<Longrightarrow> length b = n \<Longrightarrow> ct_equal a b n = ct_equal b a n"
  by (simp add: ct_equal_iff eq_commute)

text \<open>The handshake loop finds what the lookup of the store finds.\<close>

lemma match_slot_find:
  assumes "length key = 32" and "\<forall>j. i \<le> j \<and> j < i + k \<longrightarrow> length (public_key (ss ! j)) = 32"
    and "i + k \<le> 5"
  shows "match_slot ss key i k (5, r) = (case find_slot ss key i k of None \<Rightarrow> (5, r) | Some p \<Rightarrow> p)"
  using assms(2,3)
proof (induction k arbitrary: i)
  case (Suc k)
  have l: "length (public_key (ss ! i)) = 32" and
    rest: "\<forall>j. Suc i \<le> j \<and> j < Suc i + k \<longrightarrow> length (public_key (ss ! j)) = 32"
    using Suc.prems(1) unfolding range_all_Suc by blast+
  have "match_slot ss key (Suc i) k (i, slot_role (ss ! i)) = (i, slot_role (ss ! i))"
    using Suc.prems(2) by (intro match_slot_done) simp
  then show ?case
    using Suc.IH [OF rest] Suc.prems(2) ct_equal_sym [OF assms(1) l]
    by (simp add: NOISE_IK_KEY_LEN_def CONTROLLER_STORE_KEY_LEN_def CONTROLLER_STORE_SLOT_COUNT_def)
qed simp

lemma match_slot_lookup:
  assumes "store_wf s" and "length key = 32"
    and "match_slot (slots s) key 0 CONTROLLER_STORE_SLOT_COUNT (CONTROLLER_STORE_SLOT_COUNT, ROLE_NONE) = (i, r)"
    and "i \<noteq> 5"
  shows "store_lookup s key = Some (i, r)"
proof -
  have "match_slot (slots s) key 0 5 (5, ROLE_NONE) =
      (case find_slot (slots s) key 0 5 of None \<Rightarrow> (5, ROLE_NONE) | Some p \<Rightarrow> p)"
    by (rule match_slot_find [OF assms(2)]) (simp_all add: store_wf_slots [OF assms(1)])
  then have "find_slot (slots s) key 0 5 = Some (i, r)"
    using assms(3,4) by (simp add: CONTROLLER_STORE_SLOT_COUNT_def split: option.splits)
  then show ?thesis
    by (simp add: store_lookup_def controller_store_find_slot CONTROLLER_STORE_SLOT_COUNT_def)
qed

lemma decrypt_and_hash_ok:
  assumes "cipher_decrypt_and_hash C e n = ((True, p), m)"
  shows "16 \<le> length e" and "unseal C (cipher_key n) (noise_nonce (nonce_counter n)) (transcript n)
      (take (length e - 16) e) (drop (length e - 16) e) = Some p"
    and "\<exists>h. m = n\<lparr>nonce_counter := nonce_counter n + 1, transcript := h\<rparr>"
  using assms by (auto simp: cipher_decrypt_and_hash_def Let_def NOISE_IK_TAG_LEN_def mix_hash_def
      split: if_splits option.splits)

text \<open>The session keeps its identity: the handshake never changes the static part of the state.\<close>

definition same_device :: "noise_ctx \<Rightarrow> noise_ctx \<Rightarrow> bool" where
  "same_device m n \<longleftrightarrow> device_static_priv m = device_static_priv n \<and>
     device_static_pub m = device_static_pub n \<and> controllers_set m = controllers_set n"

lemma handshake_match_ok:
  assumes "handshake_match C store msg n = (Some (k, i, r), m)" and "length msg = 80"
  shows "claimed_static C (device_static_priv n) (device_static_pub n) msg = Some k" and "length k = 32"
    and "match_slot (slots store) k 0 CONTROLLER_STORE_SLOT_COUNT (CONTROLLER_STORE_SLOT_COUNT, ROLE_NONE) = (i, r)"
    and "i \<noteq> 5" and "controllers_set n" and "\<not> ready m" and "same_device m n"
proof -
  define a where "a = snd (reset_handshake_state C n)"
  define b where "b = snd (mix_hash C (take 32 msg) a)"
  define c where "c = snd (mix_dh C (device_static_priv b) (take 32 msg) b)"
  have st: "fst (reset_handshake_state C n)" "fst (mix_hash C (take 32 msg) a)"
    "fst (mix_dh C (device_static_priv b) (take 32 msg) b)"
    and "\<exists>d. cipher_decrypt_and_hash C (take 48 (drop 32 msg)) c = ((True, k), d) \<and> length k = 32 \<and>
      controllers_set d \<and> match_slot (slots store) k 0 CONTROLLER_STORE_SLOT_COUNT
        (CONTROLLER_STORE_SLOT_COUNT, ROLE_NONE) = (i, r) \<and> i \<noteq> 5 \<and> m = d"
    using assms(1)
    by (auto simp: handshake_match_def Let_def or_done_Some a_def b_def c_def NOISE_IK_KEY_LEN_def
        CONTROLLER_STORE_SLOT_COUNT_def split: prod.splits if_splits)
  then obtain d where d: "cipher_decrypt_and_hash C (take 48 (drop 32 msg)) c = ((True, k), d)" "length k = 32"
    "controllers_set d" "match_slot (slots store) k 0 CONTROLLER_STORE_SLOT_COUNT
        (CONTROLLER_STORE_SLOT_COUNT, ROLE_NONE) = (i, r)" "i \<noteq> 5" "m = d" by blast
  obtain h0 h1 where h: "sha256 C ik_protocol_name = Some h0" "sha256 C (h0 @ device_static_pub n) = Some h1"
    "transcript a = h1" "chain_key a = h0"
    using st(1) by (auto simp: a_def reset_ok reset_state mix_hash_state)
  obtain h2 where h2: "sha256 C (h1 @ take 32 msg) = Some h2" "b = a\<lparr>transcript := h2\<rparr>"
    using st(2) h(3) by (auto simp: b_def mix_hash_ok mix_hash_state)
  have dev: "device_static_priv b = device_static_priv n" "same_device b n" "\<not> ready b"
    by (simp_all add: h2 a_def reset_closes same_device_def)
  obtain es t where es: "x25519_dh C (device_static_priv n) (take 32 msg) = Some es" "hkdf C h0 es = Some t"
    "c = b\<lparr>chain_key := take 32 t, cipher_key := take 32 (drop 32 t), nonce_counter := 0\<rparr>"
    using st(3) dev(1) h(4) h2(2) by (auto simp: c_def mix_dh_ok mix_dh_state mix_key_state)
  note o = decrypt_and_hash_ok [OF d(1)]
  show "claimed_static C (device_static_priv n) (device_static_pub n) msg = Some k"
    using o(2) assms(2) by (simp add: claimed_static_def h h2 es take_drop)
  show "length k = 32" "match_slot (slots store) k 0 CONTROLLER_STORE_SLOT_COUNT
        (CONTROLLER_STORE_SLOT_COUNT, ROLE_NONE) = (i, r)" "i \<noteq> 5" by (rule d(2) d(4) d(5))+
  show "same_device m n" "\<not> ready m" "controllers_set n"
    using o(3) d(3,6) dev(2,3) es(3) by (auto simp: same_device_def)
qed

text \<open>The symmetric operations keep the device part, and so does a chain of them.\<close>

lemma same_trans: "same_device m n \<Longrightarrow> same_device k m \<Longrightarrow> same_device k n"
  by (simp add: same_device_def)

lemma same_steps [simp]:
  "same_device n n" "same_device (snd (mix_hash C d n)) n" "same_device (snd (mix_key C d n)) n"
  "same_device (snd (mix_dh C p q n)) n" "same_device (snd (reset_handshake_state C n)) n"
  "same_device (snd (split_transport C n)) n"
  by (auto simp: same_device_def mix_hash_state mix_key_state mix_dh_state reset_closes split_transport_def
      split: option.split)

lemma same_cipher:
  "same_device (snd (cipher_decrypt_and_hash C e n)) n" "same_device (snd (cipher_encrypt_and_hash C e n)) n"
  by (auto simp: same_device_def cipher_decrypt_and_hash_def cipher_encrypt_and_hash_def mix_hash_def Let_def
      split: option.split if_split)

lemma same_or_done:
  assumes "same_device (snd r) n" and "\<And>m. same_device m n \<Longrightarrow> same_device (snd (f m)) n"
  shows "same_device (snd (or_done r f)) n"
  using assms by (simp add: or_done_def)

lemma same_from: "same_device m n \<Longrightarrow> same_device (snd (mix_hash C d m)) n"
  "same_device m n \<Longrightarrow> same_device (snd (mix_dh C p q m)) n"
  "same_device m n \<Longrightarrow> same_device (snd (split_transport C m)) n"
  by (rule same_trans, assumption, rule same_steps)+

lemma handshake_match_same: "same_device (snd (handshake_match C store msg n)) n"
proof -
  have e: "same_device (snd (case cipher_decrypt_and_hash C e m of ((ok, k), d) \<Rightarrow>
      if \<not> ok \<or> length k \<noteq> NOISE_IK_KEY_LEN \<or> \<not> controllers_set d then (None, d)
      else (case match_slot (slots store) k 0 CONTROLLER_STORE_SLOT_COUNT
            (CONTROLLER_STORE_SLOT_COUNT, ROLE_NONE) of (i, r) \<Rightarrow>
          if i = CONTROLLER_STORE_SLOT_COUNT then (None, d) else (Some (k, i, r), d)))) n"
    if "same_device m n" for m e
    using same_trans [OF that same_cipher(1) [of C e m]] by (auto split: prod.split)
  show ?thesis unfolding handshake_match_def Let_def
    by (intro same_or_done same_steps same_from e)
qed

lemma handshake_answer_same: "same_device (snd (handshake_answer C gen msg w n)) n"
proof -
  obtain k i r where w: "w = (k, i, r)" by (cases w)
  have s: "same_device (snd (or_done (split_transport C m) (\<lambda>n. (Some x, n\<lparr>authenticated_slot := i,
      authenticated_role := r, ready := True\<rparr>)))) n" if "same_device m n" for m and x :: bytes
    using same_from(3) [OF that] by (simp add: or_done_def same_device_def)
  have e: "same_device (snd (case cipher_encrypt_and_hash C ik_ack m of ((ok, y), d) \<Rightarrow>
        if \<not> ok \<or> length y \<noteq> NOISE_IK_RESPONSE_LEN - NOISE_IK_KEY_LEN then (None, d)
        else or_done (split_transport C d) (\<lambda>n. (Some (z @ y), n\<lparr>authenticated_slot := i,
          authenticated_role := r, ready := True\<rparr>)))) n" if "same_device m n" for m z
    using same_trans [OF that same_cipher(2) [of C ik_ack m]] by (auto simp: s split: prod.split)
  show ?thesis unfolding handshake_answer_def Let_def w prod.case
  proof (rule same_or_done [OF same_steps(4)])
    fix m assume m: "same_device m n"
    show "same_device (snd (case x25519_keypair gen of None \<Rightarrow> (None, m) | Some (eph_priv, eph_pub) \<Rightarrow>
      or_done (mix_hash C eph_pub m) (\<lambda>n.
      or_done (mix_dh C eph_priv (take 32 msg) n) (\<lambda>n.
      or_done (mix_dh C eph_priv k n) (\<lambda>n.
      (case cipher_encrypt_and_hash C ik_ack n of ((ok, sealed_ack), n) \<Rightarrow>
        if \<not> ok \<or> length sealed_ack \<noteq> NOISE_IK_RESPONSE_LEN - NOISE_IK_KEY_LEN then (None, n)
        else or_done (split_transport C n) (\<lambda>n.
          (Some (eph_pub @ sealed_ack), n\<lparr>authenticated_slot := i, authenticated_role := r, ready := True\<rparr>)))))))) n"
    proof (cases "x25519_keypair gen")
      case (Some kp)
      then show ?thesis
        by (cases kp) (simp only: option.case prod.case, intro same_or_done same_from e m)
    qed (use m in simp)
  qed
qed

lemma handshake_answer_ok:
  assumes "handshake_answer C gen msg (k, i, r) n = (Some response, m)"
  shows "ready m" and "authenticated_slot m = i" and "authenticated_role m = r"
    and "receive_nonce m = 0" and "send_nonce m = 0"
    and "\<exists>priv pub. x25519_keypair gen = Some (priv, pub) \<and> take 32 response = pub \<and> length response = 53"
  using assms
  by (auto simp: handshake_answer_def Let_def or_done_Some split_transport_def x25519_keypair_def
      NOISE_IK_KEY_LEN_def NOISE_IK_RESPONSE_LEN_def split: prod.splits if_splits option.splits)

lemma respond_cases:
  assumes "noise_ik_handshake_respond C store gen (Some msg) out cap n = ((ok, response), m)"
  obtains (refused) "\<not> out \<or> length msg \<noteq> 80 \<or> cap < 53" "\<not> ok" "response = []" "m = n"
  | (failed) n' where "out" "length msg = 80" "53 \<le> cap" "\<not> ok" "response = []"
      "handshake_steps C store gen msg n = (None, n')" "m = snd (reset_handshake_state C n')"
  | (opened) "out" "length msg = 80" "53 \<le> cap" "ok"
      "handshake_steps C store gen msg n = (Some response, m)"
  using assms
  by (auto simp: noise_ik_handshake_respond_def NOISE_IK_INIT_MESSAGE_LEN_def NOISE_IK_RESPONSE_LEN_def
      split: if_splits prod.splits option.splits)

lemma handshake_steps_same: "same_device (snd (handshake_steps C store gen msg n)) n"
proof (cases "handshake_match C store msg n")
  case (Pair x m)
  then have m: "same_device m n" using handshake_match_same [of C store msg n] by simp
  show ?thesis
    using m same_trans [OF m handshake_answer_same] Pair
    by (cases x) (auto simp: handshake_steps_def)
qed

lemma handshake_steps_ok:
  assumes "handshake_steps C store gen msg n = (Some response, m)"
  obtains k i r n' where "handshake_match C store msg n = (Some (k, i, r), n')"
    and "handshake_answer C gen msg (k, i, r) n' = (Some response, m)"
  using assms by (auto simp: handshake_steps_def split: prod.splits option.splits)

lemma closed_session:
  "\<not> ready n \<Longrightarrow> noise_authenticated_slot n = 5"
  "\<not> ready n \<Longrightarrow> noise_authenticated_role n = ROLE_NONE"
  by (simp_all add: session_defs CONTROLLER_STORE_SLOT_COUNT_def)

lemma opened_session:
  assumes "store_wf store" and "length msg = 80" and "handshake_steps C store gen msg n = (Some response, m)"
  obtains k i r where "claimed_static C (device_static_priv n) (device_static_pub n) msg = Some k"
    and "store_lookup store k = Some (i, r)" and "ready m" and "authenticated_slot m = i"
    and "authenticated_role m = r" and "receive_nonce m = 0" and "send_nonce m = 0"
    and "length response = 53" and "i < 5" and "r \<noteq> ROLE_NONE" and "slot_role (slots store ! i) = r"
proof -
  obtain k i r n' where s: "handshake_match C store msg n = (Some (k, i, r), n')"
    "handshake_answer C gen msg (k, i, r) n' = (Some response, m)"
    using assms(3) by (rule handshake_steps_ok)
  note a = handshake_match_ok [OF s(1) assms(2)]
  note b = handshake_answer_ok [OF s(2)]
  have l: "store_lookup store k = Some (i, r)" by (rule match_slot_lookup [OF assms(1) a(2,3,4)])
  then have "i < 5 \<and> r \<noteq> ROLE_NONE \<and> slot_role (slots store ! i) = r"
    using store_lookup_iff [OF assms(1) a(2), of i r] by blast
  then show ?thesis using that [OF a(1) l b(1-5)] b(6) by blast
qed

text \<open>C14: only an enrolled controller gets a session. A handshake that succeeds decrypted, from the first
  message, a static key that the store knows; the session is open with exactly that controller's
  slot and role, and both transport counters start at 0. A handshake that fails after the argument checks leaves no
  session open, whatever was open before; a call with wrong arguments changes nothing.\<close>

theorem handshake_admits_only_enrolled:
  assumes "store_wf store" and "noise_ik_handshake_respond C store gen (Some msg) out cap n = ((ok, response), m)"
  shows "(if ok then length msg = 80 \<and> length response = 53 \<and> noise_is_ready m \<and>
        receive_nonce m = 0 \<and> send_nonce m = 0 \<and>
        (\<exists>k. claimed_static C (device_static_priv n) (device_static_pub n) msg = Some k \<and>
           store_lookup store k = Some (noise_authenticated_slot m, noise_authenticated_role m))
      else response = [] \<and> (if out \<and> length msg = 80 \<and> 53 \<le> cap
        then \<not> noise_is_ready m \<and> noise_authenticated_slot m = 5 \<and> noise_authenticated_role m = ROLE_NONE
        else m = n))"
  using assms(2)
proof (cases rule: respond_cases)
  case (failed n')
  then show ?thesis using reset_closes(1) [of C n'] by (simp add: closed_session) (simp add: session_defs)
next
  case opened
  from assms(1) opened(2,5) show ?thesis
    by (rule opened_session) (use opened in \<open>simp add: session_defs\<close>)
qed auto

subsection \<open>The transport counters\<close>

lemma packet_nonce_unfold:
  "packet_nonce p 0 8 0 = (ucast (p ! 0) OR push_bit 8 (ucast (p ! 1)) OR push_bit 16 (ucast (p ! 2)) OR
     push_bit 24 (ucast (p ! 3)) OR push_bit 32 (ucast (p ! 4)) OR push_bit 40 (ucast (p ! 5)) OR
     push_bit 48 (ucast (p ! 6)) OR push_bit 56 (ucast (p ! 7)))"
  by (simp add: numeral_eq_Suc or.assoc)

lemma u64_bit_cases: "m < 64 \<Longrightarrow> \<exists>k<8. 8 * k \<le> m \<and> m < 8 * k + (8::nat)"
  by (rule exI [of _ "m div 8"]) auto

lemma bit_packet_nonce:
  assumes "k < 8" and "j < 8"
  shows "bit (packet_nonce p 0 8 0) (8 * k + j) = bit (p ! k) j"
proof -
  have "k = 0 \<or> k = 1 \<or> k = 2 \<or> k = 3 \<or> k = 4 \<or> k = 5 \<or> k = 6 \<or> k = 7" using assms(1) by linarith
  then show ?thesis using assms(2) unfolding packet_nonce_unfold
    by (elim disjE) (auto simp: bit_or_iff bit_push_bit_iff bit_ucast_iff dest: bit_imp_le_length)
qed

lemma le64_bytes_nth: "k < 8 \<Longrightarrow> le64_bytes v ! k = ucast (drop_bit (8 * k) v)"
  by (simp add: le64_bytes_def)

text \<open>The counter field is exactly the eight little-endian bytes.\<close>

lemma packet_nonce_le64:
  assumes "8 \<le> length p"
  shows "packet_nonce p 0 8 0 = v \<longleftrightarrow> take 8 p = le64_bytes v"
proof
  assume v: "packet_nonce p 0 8 0 = v"
  show "take 8 p = le64_bytes v"
  proof (rule nth_equalityI)
    fix k assume "k < length (take 8 p)"
    then have k: "k < 8" by simp
    have "p ! k = ucast (drop_bit (8 * k) v)"
      by (rule bit_word_eqI)
        (use k v bit_packet_nonce [OF k, of _ p] in \<open>auto simp: bit_ucast_iff bit_drop_bit_eq add.commute\<close>)
    then show "take 8 p ! k = le64_bytes v ! k" using k by (simp add: le64_bytes_nth)
  qed (use assms in simp)
next
  assume t: "take 8 p = le64_bytes v"
  show "packet_nonce p 0 8 0 = v"
  proof (rule bit_word_eqI)
    fix m assume "m < LENGTH(64)"
    then obtain k where k: "k < 8" "8 * k \<le> m" "m < 8 * k + 8" using u64_bit_cases [of m] by auto
    have "p ! k = ucast (drop_bit (8 * k) v)"
      using k(1) t le64_bytes_nth [OF k(1), of v] by (metis nth_take)
    then have "bit (packet_nonce p 0 8 0) (8 * k + (m - 8 * k)) = bit v m"
      using k by (subst bit_packet_nonce) (auto simp: bit_ucast_iff bit_drop_bit_eq)
    then show "bit (packet_nonce p 0 8 0) m = bit v m" using k(2) by simp
  qed
qed

text \<open>What a peer can do with an open session: send packets and ask for receipts.\<close>

datatype transport_op =
    Receive "bytes option" bool nat
  | Receipt u8 bool nat

fun transport_step :: "noise_crypto \<Rightarrow> transport_op \<Rightarrow> noise_ctx \<Rightarrow> (bool \<times> bytes) \<times> noise_ctx" where
  "transport_step C (Receive packet out cap) n = noise_decrypt_packet C packet out cap n"
| "transport_step C (Receipt status out cap) n = noise_encrypt_transport_ack C status out cap n"

fun accepted_packets :: "transport_op list \<Rightarrow> (bool \<times> bytes) list \<Rightarrow> bytes list" where
  "accepted_packets (Receive (Some p) out cap # ops) ((True, x) # rs) = p # accepted_packets ops rs"
| "accepted_packets (_ # ops) (_ # rs) = accepted_packets ops rs"
| "accepted_packets _ _ = []"

fun sent_receipts :: "transport_op list \<Rightarrow> (bool \<times> bytes) list \<Rightarrow> bytes list" where
  "sent_receipts (Receipt status out cap # ops) ((True, x) # rs) = x # sent_receipts ops rs"
| "sent_receipts (_ # ops) (_ # rs) = sent_receipts ops rs"
| "sent_receipts _ _ = []"

lemma unat_u64_Suc: "v \<noteq> UINT64_MAX \<Longrightarrow> unat (v + 1) = Suc (unat v)"
proof -
  assume v: "v \<noteq> UINT64_MAX"
  have "unat v \<noteq> 2 ^ 64 - 1"
  proof
    assume "unat v = 2 ^ 64 - 1"
    then have "v = of_nat (2 ^ 64 - 1)" by (metis of_nat_unat ucast_id)
    then show False using v by (simp add: UINT64_MAX_def)
  qed
  moreover have "unat v < 2 ^ 64" using unsigned_less [of v, where ?'a = nat] by simp
  ultimately have "unat v + 1 < 2 ^ LENGTH(64)" by simp
  then show "unat (v + 1) = Suc (unat v)" by (simp add: unat_word_ariths)
qed

lemma decrypt_cases:
  assumes "noise_decrypt_packet C packet out cap n = ((ok, x), m)"
  obtains (refused) "\<not> ok" "m = n" "x = []"
  | (accepted) p where "ok" "packet = Some p" "ready n" "24 \<le> length p" "receive_nonce n \<noteq> UINT64_MAX"
      "length p - 24 \<le> cap" "length p - 24 \<le> 1038"
      "take 8 p = le64_bytes (receive_nonce n)" "m = n\<lparr>receive_nonce := receive_nonce n + 1\<rparr>"
      "unseal C (receive_key n) (noise_nonce (receive_nonce n)) []
         (take (length p - 24) (drop 8 p)) (drop (length p - 16) p) = Some x"
proof (cases packet)
  case None
  then show ?thesis using assms refused by (simp add: noise_decrypt_packet_def)
next
  case (Some p)
  show ?thesis
  proof (cases ok)
    case False
    then show ?thesis using assms refused Some
      by (auto simp: noise_decrypt_packet_def Let_def split: if_splits option.splits)
  next
    case True
    then have r: "ready n" "24 \<le> length p" "receive_nonce n \<noteq> UINT64_MAX" "length p - 24 \<le> cap"
      "length p - 24 \<le> 1038" "packet_nonce p 0 8 0 = receive_nonce n" "m = n\<lparr>receive_nonce := receive_nonce n + 1\<rparr>"
      "unseal C (receive_key n) (noise_nonce (receive_nonce n)) []
         (take (length p - 24) (drop 8 p)) (drop (8 + (length p - 24)) p) = Some x"
      using assms Some
      by (auto simp: noise_decrypt_packet_def Let_def NOISE_IK_TRANSPORT_OVERHEAD_def NOISE_IK_TAG_LEN_def
          NOISE_IK_TRANSPORT_NONCE_LEN_def NOISE_IK_MAX_PLAINTEXT_def split: if_splits option.splits)
    have "take 8 p = le64_bytes (receive_nonce n)" using packet_nonce_le64 [of p] r(2,6) by auto
    moreover have "8 + (length p - 24) = length p - 16" using r(2) by simp
    ultimately show ?thesis using accepted [OF True Some r(1-5) _ r(7)] r(8) by simp
  qed
qed

lemma encrypt_ack_cases:
  assumes "noise_encrypt_transport_ack C status out cap n = ((ok, x), m)"
  obtains (refused) "\<not> ok" "m = n" "x = []"
  | (sent) c tag where "ok" "ready n" "out" "30 \<le> cap" "send_nonce n \<noteq> UINT64_MAX"
      "seal C (send_key n) (noise_nonce (send_nonce n)) [] (receipt_of status) = Some (c, tag)"
      "x = le64_bytes (send_nonce n) @ c @ tag" "m = n\<lparr>send_nonce := send_nonce n + 1\<rparr>"
proof -
  have cap: "NOISE_IK_TRANSPORT_RESPONSE_LEN = 30"
    by (simp add: NOISE_IK_TRANSPORT_RESPONSE_LEN_def NOISE_IK_TAG_LEN_def
      NOISE_IK_TRANSPORT_OVERHEAD_def NOISE_IK_TRANSPORT_NONCE_LEN_def NOISE_IK_TRANSPORT_ACK_LEN_def)
  note e = assms [unfolded noise_encrypt_transport_ack_def cap]
  show ?thesis
  proof (cases "\<not> ready n \<or> \<not> out \<or> cap < 30 \<or> send_nonce n = UINT64_MAX")
    case True
    then show ?thesis using e refused by simp
  next
    case False
    then show ?thesis
    proof (cases "seal C (send_key n) (noise_nonce (send_nonce n)) [] (receipt_of status)")
      case None
      then show ?thesis using e False refused by simp
    next
      case (Some ct)
      then show ?thesis using e False sent by (cases ct) auto
    qed
  qed
qed

lemma counter_field: "(\<lambda>i. le64_bytes (of_nat i)) (unat v) = le64_bytes v"
  by simp

lemma upt_from: "a < b \<Longrightarrow> [a ..< b] = a # [Suc a ..< b]"
  by (rule upt_conv_Cons)

lemma transport_counters:
  assumes "run_ops (transport_step C) ops n = (rs, m)"
  shows "unat (receive_nonce n) \<le> unat (receive_nonce m) \<and> unat (send_nonce n) \<le> unat (send_nonce m) \<and>
    map (take 8) (accepted_packets ops rs) =
      map (\<lambda>i. le64_bytes (of_nat i)) [unat (receive_nonce n) ..< unat (receive_nonce m)] \<and>
    map (take 8) (sent_receipts ops rs) =
      map (\<lambda>i. le64_bytes (of_nat i)) [unat (send_nonce n) ..< unat (send_nonce m)]"
  using assms
proof (induction ops arbitrary: n rs)
  case (Cons x ops)
  obtain r n' where s: "transport_step C x n = (r, n')" by fastforce
  obtain ok b where r: "r = (ok, b)" by fastforce
  obtain rs' where t: "run_ops (transport_step C) ops n' = (rs', m)" and rs: "rs = r # rs'"
    using Cons.prems s by (cases "run_ops (transport_step C) ops n'") auto
  note IH = Cons.IH [OF t]
  show ?case
  proof (cases x)
    case (Receive packet out cap)
    with s r have d: "noise_decrypt_packet C packet out cap n = ((ok, b), n')" by simp
    show ?thesis using d
    proof (cases rule: decrypt_cases)
      case refused
      then show ?thesis using IH Receive rs r by (cases packet) auto
    next
      case (accepted p)
      then have "unat (receive_nonce n') = Suc (unat (receive_nonce n))" "send_nonce n' = send_nonce n"
        by (simp_all add: unat_u64_Suc)
      then show ?thesis using IH Receive rs r accepted(1,2,8) upt_from [of "unat (receive_nonce n)" "unat (receive_nonce m)"]
        by simp
    qed
  next
    case (Receipt status out cap)
    with s r have d: "noise_encrypt_transport_ack C status out cap n = ((ok, b), n')" by simp
    show ?thesis using d
    proof (cases rule: encrypt_ack_cases)
      case refused
      then show ?thesis using IH Receipt rs r by auto
    next
      case (sent c tag)
      then have "unat (send_nonce n') = Suc (unat (send_nonce n))" "receive_nonce n' = receive_nonce n"
        by (simp_all add: unat_u64_Suc)
      then show ?thesis using IH Receipt rs r sent(1,7) upt_from [of "unat (send_nonce n)" "unat (send_nonce m)"]
        by simp
    qed
  qed
qed simp

lemma le64_bytes_inject: "le64_bytes v = le64_bytes w \<longleftrightarrow> v = w"
  using packet_nonce_le64 [of "le64_bytes v" v] packet_nonce_le64 [of "le64_bytes v" w] by auto

lemma counters_distinct:
  assumes "map (take 8) ps = map (\<lambda>i. le64_bytes (of_nat i)) [unat (v :: u64) ..< unat (w :: u64)]"
  shows "distinct ps"
proof -
  have "inj_on (\<lambda>i. le64_bytes (of_nat i)) (set [unat v ..< unat w])"
  proof (rule inj_onI)
    fix i j assume ij: "i \<in> set [unat v ..< unat w]" "j \<in> set [unat v ..< unat w]"
      and "le64_bytes (of_nat i) = le64_bytes (of_nat j)"
    then have e: "(of_nat i :: u64) = of_nat j" by (simp add: le64_bytes_inject)
    have "i < 2 ^ LENGTH(64)" "j < 2 ^ LENGTH(64)"
      using ij unsigned_less [of w, where ?'a = nat] by auto
    then show "i = j" using arg_cong [OF e, of unat] by (simp add: unat_of_nat)
  qed
  then have "distinct (map (take 8) ps)" unfolding assms by (simp add: distinct_map)
  then show ?thesis by (simp add: distinct_map)
qed

text \<open>C15: the transport is exactly-once and never reuses a nonce. Whatever packets arrive and whatever
  receipts are asked for, in any order: the counters of the accepted packets are consecutive from
  the session's receive counter on, so no packet is ever accepted a second time and none is
  skipped; and the receipts sent carry consecutive counters too, without a wrap-around, so no nonce is used twice
  with one key.\<close>

theorem transport_accepts_each_counter_once:
  assumes "run_ops (transport_step C) ops n = (rs, m)"
  shows "map (take 8) (accepted_packets ops rs) =
      map (\<lambda>i. le64_bytes (of_nat i)) [unat (receive_nonce n) ..< unat (receive_nonce m)] \<and>
    distinct (accepted_packets ops rs) \<and>
    map (take 8) (sent_receipts ops rs) =
      map (\<lambda>i. le64_bytes (of_nat i)) [unat (send_nonce n) ..< unat (send_nonce m)] \<and>
    distinct (sent_receipts ops rs)"
  using transport_counters [OF assms] counters_distinct by blast

text \<open>A concrete suite and session: the tag is the nonce, the Diffie-Hellman result the sum of its arguments.\<close>

definition demo_tag :: "bytes \<Rightarrow> bytes" where
  "demo_tag v = take 16 (v @ replicate 16 0)"

definition demo_add :: "bytes \<Rightarrow> bytes \<Rightarrow> bytes" where
  "demo_add a b = map (\<lambda>i. a ! i + b ! i) [0..<32]"

definition demo_crypto :: noise_crypto where
  "demo_crypto = \<lparr>sha256 = (\<lambda>d. Some zero_key), hkdf = (\<lambda>k d. Some (zero_key @ zero_key)),
     dh = (\<lambda>a b. Some (demo_add a b)), seal = (\<lambda>k n ad p. Some (p, demo_tag n)),
     unseal = (\<lambda>k n ad c t. if t = demo_tag n then Some c else None)\<rparr>"

definition demo_session :: noise_ctx where
  "demo_session = zero_ctx\<lparr>controllers_set := True, ready := True\<rparr>"

definition demo_packet :: bytes where
  "demo_packet = replicate 8 0 @ [4] @ replicate 16 0"

lemma zero_nonce: "noise_nonce 0 = replicate 12 0"
  by (simp add: noise_nonce_def numeral_eq_Suc upt_conv_Cons)

definition demo_ops :: "transport_op list" where
  "demo_ops = [Receive (Some demo_packet) True 64, Receive (Some demo_packet) True 64, Receipt 0 True 64]"

lemma demo_packet_nonce: "packet_nonce demo_packet 0 8 0 = 0"
  by (simp add: packet_nonce_unfold demo_packet_def numeral_eq_Suc)

lemma demo_packet_parts: "length demo_packet = 25" "take (Suc 0) (drop 8 demo_packet) = [4]"
  "drop 9 demo_packet = replicate 16 0"
  by (simp_all add: demo_packet_def)

lemma zero_tag: "demo_tag (replicate 12 0) = replicate 16 0"
  by (simp add: demo_tag_def flip: replicate_add)

lemma demo_receive:
  "noise_decrypt_packet demo_crypto (Some demo_packet) True 64 demo_session = ((True, [4]), demo_session\<lparr>receive_nonce := 1\<rparr>)"
  "noise_decrypt_packet demo_crypto (Some demo_packet) True 64 (demo_session\<lparr>receive_nonce := 1\<rparr>) =
     ((False, []), demo_session\<lparr>receive_nonce := 1\<rparr>)"
  using demo_packet_nonce
  by (simp_all add: noise_decrypt_packet_def demo_session_def demo_crypto_def demo_packet_parts zero_ctx_def
      UINT64_MAX_def zero_nonce zero_tag consts_def)

lemma demo_accepted: "accepted_packets demo_ops (fst (run_ops (transport_step demo_crypto) demo_ops demo_session)) = [demo_packet]"
  by (simp add: demo_ops_def demo_receive)

theorem transport_accepts_each_counter_once_witness:
  "accepted_packets demo_ops (fst (run_ops (transport_step demo_crypto) demo_ops demo_session)) = [demo_packet] \<and>
   distinct (sent_receipts demo_ops (fst (run_ops (transport_step demo_crypto) demo_ops demo_session)))"
  using transport_accepts_each_counter_once [OF prod.collapse [symmetric], where C = demo_crypto and ops = demo_ops and n = demo_session]
    demo_accepted by blast

definition demo_ctx :: noise_ctx where
  "demo_ctx = zero_ctx\<lparr>controllers_set := True\<rparr>"

definition demo_hello :: bytes where
  "demo_hello = replicate 32 3 @ demo_key @ replicate 16 0"

definition demo_handshake :: "(bool \<times> bytes) \<times> noise_ctx" where
  "demo_handshake = noise_ik_handshake_respond demo_crypto demo_store
     (Some (replicate 32 7, replicate 32 8)) (Some demo_hello) True 53 demo_ctx"

lemma demo_dh: "x25519_dh demo_crypto a b = Some (demo_add (clamp a) b)"
  by (simp add: x25519_dh_def demo_crypto_def)

lemma demo_hello_parts: "take 32 demo_hello = replicate 32 3" "take 48 (drop 32 demo_hello) = demo_key @ replicate 16 0"
  "length demo_hello = 80"
  by (simp_all add: demo_hello_def demo_key_def)

lemma demo_slot:
  assumes "store_wf s" and "store_lookup s demo_key = Some (0, r)"
  shows "match_slot (slots s) demo_key 0 5 (5, ROLE_NONE) = (0, r)"
proof -
  have "find_slot (slots s) demo_key 0 5 = Some (0, r)"
    using assms(2) by (simp add: store_lookup_def controller_store_find_slot CONTROLLER_STORE_SLOT_COUNT_def)
  then show ?thesis
    by (subst match_slot_find) (simp_all add: demo_key_props store_wf_slots [OF assms(1)])
qed

lemma demo_store_lookup: "store_lookup demo_store demo_key = Some (0, ROLE_RECOVERY_ADMIN)"
  unfolding store_lookup_iff [OF demo_store_wf(1) demo_key_props(1)]
  by (simp add: demo_store_wf(2) ROLE_NONE_def ROLE_RECOVERY_ADMIN_def)

lemma zero_key_split: "take 32 zero_key = zero_key" "drop 32 zero_key = []"
  by (simp_all add: zero_key_def)

lemma demo_suite [simp]:
  "sha256 demo_crypto d = Some zero_key" "hkdf demo_crypto k d = Some (zero_key @ zero_key)"
  "seal demo_crypto k v a p = Some (p, demo_tag v)"
  "unseal demo_crypto k v a p t = (if t = demo_tag v then Some p else None)"
  by (simp_all add: demo_crypto_def)

lemma demo_mix:
  "length d \<le> 80 \<Longrightarrow> mix_hash demo_crypto d n = (True, n\<lparr>transcript := zero_key\<rparr>)"
  "mix_dh demo_crypto p q n = (True, n\<lparr>chain_key := zero_key, cipher_key := zero_key, nonce_counter := 0\<rparr>)"
  by (simp_all add: mix_hash_def mix_dh_def mix_key_def demo_dh NOISE_IK_INIT_MESSAGE_LEN_def zero_key_split(1,2))

lemma demo_match:
  assumes "store_wf s" and "store_lookup s demo_key = Some (0, r)" and "controllers_set n" and "length (device_static_pub n) \<le> 80"
  shows "\<exists>m. handshake_match demo_crypto s demo_hello n = (Some (demo_key, 0, r), m)"
  by (simp add: handshake_match_def Let_def or_done_def demo_mix reset_handshake_state_def demo_hello_parts assms(3,4)
      zero_key_split(1,2) cipher_decrypt_and_hash_def UINT64_MAX_def zero_nonce zero_tag
      demo_key_props demo_slot [OF assms(1,2)] CONTROLLER_STORE_SLOT_COUNT_def NOISE_IK_KEY_LEN_def NOISE_IK_TAG_LEN_def)

lemma demo_opens:
  assumes "store_wf s" and "store_lookup s demo_key = Some (0, r)" and "controllers_set n" and "length (device_static_pub n) \<le> 80"
  shows "\<exists>x m. noise_ik_handshake_respond demo_crypto s (Some (replicate 32 7, replicate 32 8)) (Some demo_hello) True 53 n =
    ((True, x), m)"
proof -
  obtain m where m: "handshake_match demo_crypto s demo_hello n = (Some (demo_key, 0, r), m)"
    using demo_match [OF assms] by blast
  then have "\<exists>x k. handshake_steps demo_crypto s (Some (replicate 32 7, replicate 32 8)) demo_hello n = (Some x, k)"
    by (simp add: handshake_steps_def handshake_answer_def Let_def or_done_def demo_mix x25519_keypair_def
      cipher_encrypt_and_hash_def UINT64_MAX_def zero_nonce zero_tag ik_ack_def split_transport_def
      NOISE_IK_KEY_LEN_def NOISE_IK_RESPONSE_LEN_def)
  then show ?thesis
    by (auto simp: noise_ik_handshake_respond_def demo_hello_parts NOISE_IK_INIT_MESSAGE_LEN_def NOISE_IK_RESPONSE_LEN_def)
qed

text \<open>What the concrete suite makes of a packet with the expected counter.\<close>

definition demo_sealed :: "u64 \<Rightarrow> bytes \<Rightarrow> bytes" where
  "demo_sealed v p = le64_bytes v @ p @ demo_tag (noise_nonce v)"

lemma demo_unseals:
  assumes "ready n" and "receive_nonce n = v" and "v \<noteq> UINT64_MAX" and "length p \<le> 1038"
  shows "noise_decrypt_packet demo_crypto (Some (demo_sealed v p)) True NOISE_IK_MAX_PLAINTEXT n =
    ((True, p), n\<lparr>receive_nonce := v + 1\<rparr>)"
proof -
  have t: "length (demo_tag (noise_nonce v)) = 16" by (simp add: demo_tag_def)
  have "packet_nonce (demo_sealed v p) 0 8 0 = v" unfolding demo_sealed_def by (subst packet_nonce_le64) simp_all
  then show ?thesis
    using assms t by (simp add: noise_decrypt_packet_def Let_def demo_sealed_def NOISE_IK_TRANSPORT_OVERHEAD_def
      NOISE_IK_TAG_LEN_def NOISE_IK_TRANSPORT_NONCE_LEN_def NOISE_IK_MAX_PLAINTEXT_def)
qed

theorem handshake_admits_only_enrolled_witness:
  "noise_is_ready (snd demo_handshake) \<and> store_lookup demo_store demo_key \<noteq> None"
proof -
  obtain ok x m where d: "demo_handshake = ((ok, x), m)" by (metis prod.collapse)
  have "controllers_set demo_ctx" "length (device_static_pub demo_ctx) \<le> 80"
    by (simp_all add: demo_ctx_def zero_ctx_def zero_key_def)
  from demo_opens [OF demo_store_wf(1) demo_store_lookup this] have "ok" using d by (auto simp: demo_handshake_def)
  then show ?thesis unfolding d
    using handshake_admits_only_enrolled [OF demo_store_wf(1) d [unfolded demo_handshake_def]] demo_store_lookup by simp
qed

end
