(* ===== verification/Device_Commands.thy ===== *)
theory Device_Commands
  imports Core_Protocol Radio_Flash Noise_IK
begin

section \<open>Commands (firmware/bridge_main.c)\<close>

text \<open>
  The globals of the firmware that a command can reach, the handlers of the commands, and
  \<open>command_process_frame\<close>, the one entry point both transports use. Two argument records
  stand for what is not under the firmware's control: \<open>hardware\<close> for the fixed part (flash
  routines, flash layout, crypto library) and \<open>call_env\<close> for what the SDK answers during one call.
  A packet is the list of its bytes, \<open>len\<close> its length, which the callers keep below 65536.
\<close>

definition BLE_CMD_STAGE :: u8 where "BLE_CMD_STAGE = 1"
definition BLE_CMD_CONFIRM :: u8 where "BLE_CMD_CONFIRM = 2"
definition BLE_CMD_CANCEL :: u8 where "BLE_CMD_CANCEL = 3"
definition BLE_CMD_TICK :: u8 where "BLE_CMD_TICK = 4"
definition BLE_CMD_NOISE :: u8 where "BLE_CMD_NOISE = 5"
definition BLE_CMD_ENCRYPTED :: u8 where "BLE_CMD_ENCRYPTED = 6"
definition BLE_CMD_CONTROLLER_ADD :: u8 where "BLE_CMD_CONTROLLER_ADD = 7"
definition BLE_CMD_CONTROLLER_REVOKE :: u8 where "BLE_CMD_CONTROLLER_REVOKE = 8"
definition BLE_CMD_SET_RADIO :: u8 where "BLE_CMD_SET_RADIO = 9"
definition BLE_CMD_CLEAR_RADIO :: u8 where "BLE_CMD_CLEAR_RADIO = 10"
definition BLE_CMD_NET_STATUS :: u8 where "BLE_CMD_NET_STATUS = 11"
definition BLE_CMD_NET_DEBUG :: u8 where "BLE_CMD_NET_DEBUG = 12"
definition BLE_CMD_NET_RAW :: u8 where "BLE_CMD_NET_RAW = 13"
definition BLE_CMD_NET_DHCP :: u8 where "BLE_CMD_NET_DHCP = 14"
definition BLE_CMD_NET_PROBE :: u8 where "BLE_CMD_NET_PROBE = 15"
definition BLE_CMD_NET_IP :: u8 where "BLE_CMD_NET_IP = 16"
definition BLE_CMD_NET_SCAN_START :: u8 where "BLE_CMD_NET_SCAN_START = 17"
definition BLE_CMD_NET_SCAN_TOTAL :: u8 where "BLE_CMD_NET_SCAN_TOTAL = 18"
definition BLE_CMD_NET_SCAN_MATCH :: u8 where "BLE_CMD_NET_SCAN_MATCH = 19"
definition BLE_CMD_NET_SCAN_RSSI :: u8 where "BLE_CMD_NET_SCAN_RSSI = 20"
definition BRIDGE_TTL_MS :: u32 where "BRIDGE_TTL_MS = BRIDGE_MAX_TTL_MS"
definition BRIDGE_TRANSPORT_RESPONSE_MAX :: nat where
  "BRIDGE_TRANSPORT_RESPONSE_MAX = 1 + NOISE_IK_RESPONSE_LEN"

lemmas cmd_codes =
  BLE_CMD_STAGE_def BLE_CMD_CONFIRM_def BLE_CMD_CANCEL_def BLE_CMD_TICK_def BLE_CMD_NOISE_def
  BLE_CMD_ENCRYPTED_def BLE_CMD_CONTROLLER_ADD_def BLE_CMD_CONTROLLER_REVOKE_def BLE_CMD_SET_RADIO_def
  BLE_CMD_CLEAR_RADIO_def BLE_CMD_NET_STATUS_def BLE_CMD_NET_DEBUG_def BLE_CMD_NET_RAW_def
  BLE_CMD_NET_DHCP_def BLE_CMD_NET_PROBE_def BLE_CMD_NET_IP_def BLE_CMD_NET_SCAN_START_def
  BLE_CMD_NET_SCAN_TOTAL_def BLE_CMD_NET_SCAN_MATCH_def BLE_CMD_NET_SCAN_RSSI_def

subsection \<open>State and surroundings\<close>

record device =
  core :: bridge_core
  controllers :: controller_store
  flash :: flash_mem
  session :: noise_ctx
  cmd_ack_status :: u8
  ble_now_ms :: u32

record hardware =
  hw_erase :: flash_erase
  hw_program :: flash_program
  hw_store_base :: nat
  hw_radio_off :: nat
  hw_crypto :: noise_crypto

text \<open>
  The answers of the network diagnostics, present when the firmware is built with
  \<open>BRIDGE_ENABLE_NET\<close>: the link status is a signed byte.
\<close>

record net_diag =
  diag_state :: u8
  diag_link :: "8 word"
  diag_raw :: u16
  diag_dhcp :: u8
  diag_ip_octet :: "u8 \<Rightarrow> u8"
  diag_scan_start :: bool
  diag_scan_total :: u8
  diag_scan_match :: u8
  diag_scan_rssi :: "8 word"
  diag_probe :: u8

record call_env =
  env_flash_safe :: bool
  env_mounted :: bool
  env_keypair :: "(bytes \<times> bytes) option"
  env_net :: "net_diag option"

subsection \<open>The handlers\<close>

text \<open>The bridge commands. \<open>(uint16_t)(14 + ulen)\<close> is computed at 16 bits.\<close>

definition ble_handle_stage :: "bytes \<Rightarrow> device \<Rightarrow> bridge_status \<times> device" where
  "ble_handle_stage p d =
     (if length p < 14 then (BRIDGE_ERR_ARGUMENT, d)
      else let own = le32_at p 1; ident = le32_at p 5;
          lay = (if p ! 9 = 2 then BRIDGE_LAYOUT_DE else BRIDGE_LAYOUT_US);
          md = (if p ! 10 = 2 then BRIDGE_MODE_TEXT else BRIDGE_MODE_PASSWORD);
          fl = p ! 11; ulen = le16_at p 12 in
        if length p < unat (14 + ulen) then (BRIDGE_ERR_ARGUMENT, d)
        else (case bridge_core_stage (core d) own ident lay md fl (Some (drop 14 p)) (unat ulen)
            (ble_now_ms d) BRIDGE_TTL_MS of (st, c) \<Rightarrow> (st, d\<lparr>core := c\<rparr>)))"

definition ble_handle_confirm :: "bytes \<Rightarrow> device \<Rightarrow> bridge_status \<times> device" where
  "ble_handle_confirm p d =
     (if length p < 9 then (BRIDGE_ERR_ARGUMENT, d)
      else case bridge_core_confirm (core d) (le32_at p 1) (le32_at p 5) (ble_now_ms d) of
        (st, c) \<Rightarrow> (st, d\<lparr>core := c\<rparr>))"

definition ble_handle_cancel :: "bytes \<Rightarrow> device \<Rightarrow> bridge_status \<times> device" where
  "ble_handle_cancel p d =
     (if length p < 9 then (BRIDGE_ERR_ARGUMENT, d)
      else case bridge_core_cancel (core d) (le32_at p 1) (le32_at p 5) of
        (st, c) \<Rightarrow> (st, d\<lparr>core := c\<rparr>))"

definition ble_handle_tick :: "bytes \<Rightarrow> device \<Rightarrow> bridge_status \<times> device" where
  "ble_handle_tick p d =
     (if length p < 5 then (BRIDGE_ERR_ARGUMENT, d)
      else case bridge_core_tick (core d) (le32_at p 1) of (st, c) \<Rightarrow> (st, d\<lparr>core := c\<rparr>))"

text \<open>
  The administration commands work on a copy, \<open>candidate\<close>, and install it only after it has been
  committed to flash.
\<close>

definition ble_handle_controller_add :: "hardware \<Rightarrow> call_env \<Rightarrow> bytes \<Rightarrow> device \<Rightarrow> bridge_status \<times> device" where
  "ble_handle_controller_add H E p d =
     (if length p \<noteq> 34 \<or> \<not> controller_store_is_admin (controllers d) (noise_authenticated_slot (session d))
      then (BRIDGE_ERR_OWNER, d)
      else let role = p ! 1 in
        if role \<noteq> ROLE_OPERATOR \<and> role \<noteq> ROLE_ADMIN then (BRIDGE_ERR_ARGUMENT, d)
        else (case controller_store_add (controllers d) (noise_authenticated_slot (session d)) (drop 2 p) role of
          (status, candidate, _) \<Rightarrow>
            if status \<noteq> CONTROLLER_STORE_OK
            then (if status = CONTROLLER_STORE_ERR_FULL then BRIDGE_ERR_LIMIT else BRIDGE_ERR_ARGUMENT, d)
            else (case controller_store_flash_commit (hw_erase H) (hw_program H) (env_flash_safe E)
                (hw_store_base H) (Some candidate) (flash d) of (status, m) \<Rightarrow>
              if status \<noteq> CONTROLLER_STORE_OK then (BRIDGE_ERR_STATE, d\<lparr>flash := m\<rparr>)
              else (BRIDGE_OK, d\<lparr>flash := m, controllers := candidate\<rparr>))))"

definition ble_handle_controller_revoke :: "hardware \<Rightarrow> call_env \<Rightarrow> bytes \<Rightarrow> device \<Rightarrow> bridge_status \<times> device" where
  "ble_handle_controller_revoke H E p d =
     (if length p \<noteq> 2 \<or> \<not> controller_store_is_admin (controllers d) (noise_authenticated_slot (session d))
      then (BRIDGE_ERR_OWNER, d)
      else let target_slot = unat (p ! 1) in
        if target_slot = noise_authenticated_slot (session d) then (BRIDGE_ERR_POLICY, d)
        else (case controller_store_revoke (controllers d) (noise_authenticated_slot (session d)) target_slot of
          (status, candidate) \<Rightarrow>
            if status = CONTROLLER_STORE_ERR_IMMUTABLE then (BRIDGE_ERR_POLICY, d)
            else if status \<noteq> CONTROLLER_STORE_OK then (BRIDGE_ERR_ARGUMENT, d)
            else (case controller_store_flash_commit (hw_erase H) (hw_program H) (env_flash_safe E)
                (hw_store_base H) (Some candidate) (flash d) of (status, m) \<Rightarrow>
              if status \<noteq> CONTROLLER_STORE_OK then (BRIDGE_ERR_STATE, d\<lparr>flash := m\<rparr>)
              else (BRIDGE_OK, d\<lparr>flash := m, controllers := candidate\<rparr>))))"

definition ble_handle_set_radio :: "hardware \<Rightarrow> call_env \<Rightarrow> bytes \<Rightarrow> device \<Rightarrow> bridge_status \<times> device" where
  "ble_handle_set_radio H E p d =
     (if length p < 3 then (BRIDGE_ERR_ARGUMENT, d)
      else if \<not> controller_store_is_admin (controllers d) (noise_authenticated_slot (session d))
      then (BRIDGE_ERR_OWNER, d)
      else if env_mounted E then (BRIDGE_ERR_POLICY, d)
      else let ssid_len = unat (p ! 1); psk_len = unat (p ! 2) in
        if length p \<noteq> 3 + ssid_len + psk_len then (BRIDGE_ERR_ARGUMENT, d)
        else (case radio_config_build2 (Some (drop 3 p)) ssid_len (Some (drop (3 + ssid_len) p)) psk_len of
          None \<Rightarrow> (BRIDGE_ERR_ARGUMENT, d)
        | Some img \<Rightarrow>
            (case radio_provision_flash_write_and_verify (hw_erase H) (hw_program H) (env_flash_safe E)
                (hw_radio_off H) (Some img) (flash d) of (ok, m) \<Rightarrow>
              (if ok then BRIDGE_OK else BRIDGE_ERR_STATE, d\<lparr>flash := m\<rparr>))))"

definition ble_handle_clear_radio :: "hardware \<Rightarrow> call_env \<Rightarrow> device \<Rightarrow> bridge_status \<times> device" where
  "ble_handle_clear_radio H E d =
     (if \<not> controller_store_is_admin (controllers d) (noise_authenticated_slot (session d))
      then (BRIDGE_ERR_OWNER, d)
      else if env_mounted E then (BRIDGE_ERR_POLICY, d)
      else (case radio_provision_flash_clear (hw_erase H) (env_flash_safe E) (hw_radio_off H) (flash d) of
        (ok, m) \<Rightarrow> (if ok then BRIDGE_OK else BRIDGE_ERR_STATE, d\<lparr>flash := m\<rparr>)))"

text \<open>The diagnostic answers: the status byte and whether a receipt is armed.\<close>

definition net_answer :: "net_diag \<Rightarrow> bytes \<Rightarrow> (bool \<times> u8) option" where
  "net_answer N p =
     (if p ! 0 = BLE_CMD_NET_STATUS then Some (True, diag_state N)
      else if p ! 0 = BLE_CMD_NET_DEBUG then Some (True, 40 + diag_link N)
      else if p ! 0 = BLE_CMD_NET_RAW then Some (True, ucast (drop_bit 8 (diag_raw N)))
      else if p ! 0 = BLE_CMD_NET_DHCP then Some (True, diag_dhcp N)
      else if p ! 0 = BLE_CMD_NET_IP then
        (if length p \<noteq> 2 then Some (False, status_code BRIDGE_ERR_ARGUMENT) else Some (True, diag_ip_octet N (p ! 1)))
      else if p ! 0 = BLE_CMD_NET_SCAN_START then Some (True, if diag_scan_start N then 0 else 1)
      else if p ! 0 = BLE_CMD_NET_SCAN_TOTAL then Some (True, diag_scan_total N)
      else if p ! 0 = BLE_CMD_NET_SCAN_MATCH then Some (True, diag_scan_match N)
      else if p ! 0 = BLE_CMD_NET_SCAN_RSSI then Some (True, diag_scan_rssi N)
      else if p ! 0 = BLE_CMD_NET_PROBE then Some (True, diag_probe N)
      else None)"

text \<open>The commands that end in a \<open>bridge_status_t\<close>.\<close>

definition bridge_command :: "hardware \<Rightarrow> call_env \<Rightarrow> bytes \<Rightarrow> device \<Rightarrow> (bridge_status \<times> device) option" where
  "bridge_command H E p d =
     (if p ! 0 = BLE_CMD_STAGE then Some (ble_handle_stage p d)
      else if p ! 0 = BLE_CMD_CONFIRM then Some (ble_handle_confirm p d)
      else if p ! 0 = BLE_CMD_CANCEL then Some (ble_handle_cancel p d)
      else if p ! 0 = BLE_CMD_TICK then Some (ble_handle_tick p d)
      else if p ! 0 = BLE_CMD_CONTROLLER_ADD then Some (ble_handle_controller_add H E p d)
      else if p ! 0 = BLE_CMD_CONTROLLER_REVOKE then Some (ble_handle_controller_revoke H E p d)
      else if p ! 0 = BLE_CMD_SET_RADIO then Some (ble_handle_set_radio H E p d)
      else if p ! 0 = BLE_CMD_CLEAR_RADIO then Some (ble_handle_clear_radio H E d)
      else None)"

definition ble_handle_authenticated_command :: "hardware \<Rightarrow> call_env \<Rightarrow> bytes \<Rightarrow> device \<Rightarrow> bool \<times> device" where
  "ble_handle_authenticated_command H E p d =
     (if p = [] then (False, d\<lparr>cmd_ack_status := status_code BRIDGE_ERR_ARGUMENT\<rparr>)
      else case bridge_command H E p d of
        Some (status, d) \<Rightarrow> (True, d\<lparr>cmd_ack_status := status_code status\<rparr>)
      | None \<Rightarrow>
          (case env_net E of
            None \<Rightarrow> (False, d\<lparr>cmd_ack_status := status_code BRIDGE_ERR_ARGUMENT\<rparr>)
          | Some N \<Rightarrow> (case net_answer N p of
              None \<Rightarrow> (False, d\<lparr>cmd_ack_status := status_code BRIDGE_ERR_ARGUMENT\<rparr>)
            | Some (armed, b) \<Rightarrow> (armed, d\<lparr>cmd_ack_status := b\<rparr>))))"

text \<open>One complete frame in, the response out; an empty response is none.\<close>

definition command_process_frame ::
  "hardware \<Rightarrow> call_env \<Rightarrow> bytes \<Rightarrow> nat \<Rightarrow> device \<Rightarrow> bytes \<times> device" where
  "command_process_frame H E data resp_cap d =
     (if data = [] then ([], d)
      else if data ! 0 = BLE_CMD_NOISE then
        (if length data \<noteq> 1 + NOISE_IK_INIT_MESSAGE_LEN then ([], d)
         else (case noise_ik_handshake_respond (hw_crypto H) (controllers d) (env_keypair E)
             (Some (drop 1 data)) True (resp_cap - 1) (session d) of ((ok, response), n) \<Rightarrow>
           if \<not> ok \<or> length response \<noteq> NOISE_IK_RESPONSE_LEN then ([], d\<lparr>session := n\<rparr>)
           else (BLE_CMD_NOISE # response, d\<lparr>session := n\<rparr>)))
      else if data ! 0 = BLE_CMD_ENCRYPTED then
        (if length data \<le> 1 then ([], d)
         else (case noise_decrypt_packet (hw_crypto H) (Some (drop 1 data)) True NOISE_IK_MAX_PLAINTEXT (session d) of
           ((ok, plaintext), n) \<Rightarrow>
             if \<not> ok then ([], d\<lparr>session := n\<rparr>)
             else (case ble_handle_authenticated_command H E plaintext (d\<lparr>session := n\<rparr>) of (armed, d) \<Rightarrow>
               if \<not> armed then ([], d)
               else (case noise_encrypt_transport_ack (hw_crypto H) (cmd_ack_status d) True (resp_cap - 1) (session d) of
                 ((ok, receipt), n) \<Rightarrow>
                   if \<not> ok then ([], d\<lparr>session := n\<rparr>)
                   else (BLE_CMD_ENCRYPTED # receipt, d\<lparr>session := n\<rparr>)))))
      else ([], d))"

subsection \<open>What a handler does to the state\<close>

text \<open>
  The core operation a bridge command asks for, if its length is right. The text of a stage command
  is the bytes after the header; the second case, a length field the core refuses
  unread, keeps its length.
\<close>

definition stage_text :: "bytes \<Rightarrow> bytes" where
  "stage_text p = (let ulen = unat (le16_at p 12) in
     if ulen \<le> length (drop 14 p) then take ulen (drop 14 p) else replicate ulen 0)"

definition core_call :: "bytes \<Rightarrow> u32 \<Rightarrow> core_op option" where
  "core_call p now =
     (if p ! 0 = BLE_CMD_STAGE then
        (if length p < 14 \<or> length p < unat (14 + le16_at p 12) then None
         else Some (Op_Stage (le32_at p 1) (le32_at p 5)
           (if p ! 9 = 2 then BRIDGE_LAYOUT_DE else BRIDGE_LAYOUT_US)
           (if p ! 10 = 2 then BRIDGE_MODE_TEXT else BRIDGE_MODE_PASSWORD) (p ! 11) (stage_text p) now BRIDGE_TTL_MS))
      else if p ! 0 = BLE_CMD_CONFIRM then
        (if length p < 9 then None else Some (Op_Confirm (le32_at p 1) (le32_at p 5) now))
      else if p ! 0 = BLE_CMD_CANCEL then
        (if length p < 9 then None else Some (Op_Cancel (le32_at p 1) (le32_at p 5)))
      else if p ! 0 = BLE_CMD_TICK then (if length p < 5 then None else Some (Op_Tick (le32_at p 1)))
      else None)"

definition is_core_command :: "bytes \<Rightarrow> bool" where
  "is_core_command p \<longleftrightarrow> p ! 0 = BLE_CMD_STAGE \<or> p ! 0 = BLE_CMD_CONFIRM \<or> p ! 0 = BLE_CMD_CANCEL \<or> p ! 0 = BLE_CMD_TICK"

definition core_apply :: "core_op option \<Rightarrow> device \<Rightarrow> bridge_status \<times> device" where
  "core_apply x d = (case x of None \<Rightarrow> (BRIDGE_ERR_ARGUMENT, d)
     | Some x \<Rightarrow> (fst (fst (core_step x (core d))), d\<lparr>core := snd (core_step x (core d))\<rparr>))"

lemma stage_as_op:
  assumes "len \<le> length x \<or> BRIDGE_MAX_INPUT_BYTES < len"
    and "input = (if len \<le> length x then take len x else replicate len 0)"
  shows "bridge_core_stage c own ident lay md fl (Some x) len now ttl =
    bridge_core_stage c own ident lay md fl (Some input) (length input) now ttl"
proof (cases "len \<le> length x")
  case True
  have e: "\<forall>i<len. x ! i = take len x ! i" by simp
  have "bridge_core_stage c own ident lay md fl (Some x) len now ttl =
      bridge_core_stage c own ident lay md fl (Some (take len x)) len now ttl"
    using stage_loop_local [OF e] by (simp add: bridge_core_stage_def Let_def)
  moreover have "length input = len" using True assms(2) by simp
  ultimately show ?thesis using True assms(2) by simp
next
  case False
  then have "BRIDGE_MAX_INPUT_BYTES < len" using assms(1) by simp
  then show ?thesis using False assms(2) by (simp add: bridge_core_stage_def Let_def)
qed

text \<open>The 16-bit sum can only wrap for a length the core refuses before it reads anything.\<close>

lemma stage_length_wrap:
  fixes ulen :: u16
  assumes "14 \<le> n" and "unat (14 + ulen) \<le> n"
  shows "unat ulen \<le> n - 14 \<or> BRIDGE_MAX_INPUT_BYTES < unat ulen"
proof (cases "unat ulen < 65522")
  case True
  then have "unat (14 + ulen) = 14 + unat ulen" by (simp add: unat_word_ariths)
  then show ?thesis using assms(2) by linarith
next
  case False
  then show ?thesis by (simp add: BRIDGE_MAX_INPUT_BYTES_def)
qed

text \<open>The four handlers are the core operations they decode to.\<close>

lemma stage_effect: "p ! 0 = BLE_CMD_STAGE \<Longrightarrow> ble_handle_stage p d = core_apply (core_call p (ble_now_ms d)) d"
proof -
  assume c: "p ! 0 = BLE_CMD_STAGE"
  show ?thesis
  proof (cases "length p < 14 \<or> length p < unat (14 + le16_at p 12)")
    case True
    then show ?thesis using c by (auto simp: core_apply_def core_call_def ble_handle_stage_def Let_def)
  next
    case False
    have "unat (le16_at p 12) \<le> length (drop 14 p) \<or> BRIDGE_MAX_INPUT_BYTES < unat (le16_at p 12)"
      using stage_length_wrap [of "length p" "le16_at p 12"] False by auto
    note i = stage_as_op [OF this, of "stage_text p", unfolded stage_text_def Let_def, OF refl]
    show ?thesis using False c i
      by (simp add: ble_handle_stage_def core_call_def core_apply_def Let_def stage_text_def split: prod.split)
  qed
qed

lemma core_command_effects:
  "p ! 0 = BLE_CMD_CONFIRM \<Longrightarrow> ble_handle_confirm p d = core_apply (core_call p (ble_now_ms d)) d"
  "p ! 0 = BLE_CMD_CANCEL \<Longrightarrow> ble_handle_cancel p d = core_apply (core_call p (ble_now_ms d)) d"
  "p ! 0 = BLE_CMD_TICK \<Longrightarrow> ble_handle_tick p d = core_apply (core_call p (ble_now_ms d)) d"
  by (auto simp: core_apply_def core_call_def ble_handle_confirm_def ble_handle_cancel_def ble_handle_tick_def
      cmd_codes split: prod.split)

lemmas core_effects = stage_effect core_command_effects

text \<open>What an administration command may change, and only for an administrator.\<close>

definition is_admin_session :: "device \<Rightarrow> bool" where
  "is_admin_session d \<longleftrightarrow> controller_store_is_admin (controllers d) (noise_authenticated_slot (session d))"

definition flash_layout :: "hardware \<Rightarrow> bool" where
  "flash_layout H \<longleftrightarrow> nor_erase (hw_erase H) \<and> nor_program (hw_program H) \<and>
     (hw_radio_off H + 4096 \<le> hw_store_base H \<or> hw_store_base H + 8192 \<le> hw_radio_off H)"

definition stored :: "hardware \<Rightarrow> flash_mem \<Rightarrow> controller_store \<Rightarrow> bool" where
  "stored H m s \<longleftrightarrow> boot_existing (hw_store_base H) m = (CONTROLLER_STORE_OK, s)"

text \<open>A committed candidate is the one the next boot finds; a failed commit leaves the old one.\<close>

lemma commit_stored:
  assumes "flash_layout H" and "store_wf t" and "stored H m s" and "generation t = generation s + 1"
    and "controller_store_flash_commit (hw_erase H) (hw_program H) safe (hw_store_base H) (Some t) m = (st, m')"
  shows "stored H m' (if st = CONTROLLER_STORE_OK then t else s)"
proof -
  have g: "generation s \<noteq> generation t" using assms(4) by simp
  have hw: "nor_erase (hw_erase H)" "nor_program (hw_program H)" using assms(1) by (simp_all add: flash_layout_def)
  note c = commit_outcome [OF hw assms(2) assms(3) [unfolded stored_def]]
  show ?thesis
  proof (cases safe)
    case True
    then show ?thesis using c(1) g assms(5) by (auto simp: stored_def split: if_splits)
  next
    case False
    then show ?thesis using c(2) g assms(3,5) by (simp add: stored_def)
  qed
qed

lemma read_sector_cong: "\<forall>a. off \<le> a \<and> a < off + 4096 \<longrightarrow> m' a = m a \<Longrightarrow> read_sector m' off = read_sector m off"
  by (rule nth_equalityI) simp_all

lemma stored_cong:
  assumes "\<forall>a. hw_store_base H \<le> a \<and> a < hw_store_base H + 8192 \<longrightarrow> m' a = m a"
  shows "stored H m' s \<longleftrightarrow> stored H m s"
proof -
  have "read_sector m' (hw_store_base H) = read_sector m (hw_store_base H)"
    "read_sector m' (hw_store_base H + 4096) = read_sector m (hw_store_base H + 4096)"
    using assms by (auto intro!: read_sector_cong)
  then show ?thesis by (simp add: stored_def boot_existing_def FLASH_SECTOR_SIZE_def)
qed

lemma add_command_cases:
  assumes "ble_handle_controller_add H E p d = (st, d')"
  obtains (refused) "st \<noteq> BRIDGE_OK" "d' = d"
  | (attempted) t i st' m where "is_admin_session d" "length p = 34"
      "controller_store_add (controllers d) (noise_authenticated_slot (session d)) (drop 2 p) (p ! 1) =
        (CONTROLLER_STORE_OK, t, i)"
      "controller_store_flash_commit (hw_erase H) (hw_program H) (env_flash_safe E) (hw_store_base H) (Some t) (flash d) = (st', m)"
      "(st, d') = (if st' = CONTROLLER_STORE_OK then (BRIDGE_OK, d\<lparr>flash := m, controllers := t\<rparr>)
        else (BRIDGE_ERR_STATE, d\<lparr>flash := m\<rparr>))"
proof -
  obtain ast t i where a: "controller_store_add (controllers d) (noise_authenticated_slot (session d)) (drop 2 p) (p ! 1) =
      (ast, t, i)" by (metis prod_cases3)
  obtain cst m where c: "controller_store_flash_commit (hw_erase H) (hw_program H) (env_flash_safe E) (hw_store_base H)
      (Some t) (flash d) = (cst, m)" by fastforce
  show ?thesis
  proof (cases "length p = 34 \<and> is_admin_session d \<and> (p ! 1 = ROLE_OPERATOR \<or> p ! 1 = ROLE_ADMIN) \<and> ast = CONTROLLER_STORE_OK")
    case True
    have "(st, d') = (if cst = CONTROLLER_STORE_OK then (BRIDGE_OK, d\<lparr>flash := m, controllers := t\<rparr>)
        else (BRIDGE_ERR_STATE, d\<lparr>flash := m\<rparr>))"
      using assms True a c by (auto simp: ble_handle_controller_add_def is_admin_session_def Let_def)
    then show ?thesis using attempted [of t i cst m] True a c by simp
  next
    case False
    then have "st \<noteq> BRIDGE_OK \<and> d' = d"
      using assms a by (auto simp: ble_handle_controller_add_def is_admin_session_def Let_def split: if_splits)
    then show ?thesis using refused by blast
  qed
qed

lemma revoke_command_cases:
  assumes "ble_handle_controller_revoke H E p d = (st, d')"
  obtains (refused) "st \<noteq> BRIDGE_OK" "d' = d"
  | (attempted) t st' m where "is_admin_session d" "length p = 2" "unat (p ! 1) \<noteq> noise_authenticated_slot (session d)"
      "controller_store_revoke (controllers d) (noise_authenticated_slot (session d)) (unat (p ! 1)) = (CONTROLLER_STORE_OK, t)"
      "controller_store_flash_commit (hw_erase H) (hw_program H) (env_flash_safe E) (hw_store_base H) (Some t) (flash d) = (st', m)"
      "(st, d') = (if st' = CONTROLLER_STORE_OK then (BRIDGE_OK, d\<lparr>flash := m, controllers := t\<rparr>)
        else (BRIDGE_ERR_STATE, d\<lparr>flash := m\<rparr>))"
proof -
  obtain ast t where a: "controller_store_revoke (controllers d) (noise_authenticated_slot (session d)) (unat (p ! 1)) =
      (ast, t)" by fastforce
  obtain cst m where c: "controller_store_flash_commit (hw_erase H) (hw_program H) (env_flash_safe E) (hw_store_base H)
      (Some t) (flash d) = (cst, m)" by fastforce
  show ?thesis
  proof (cases "length p = 2 \<and> is_admin_session d \<and> unat (p ! 1) \<noteq> noise_authenticated_slot (session d) \<and> ast = CONTROLLER_STORE_OK")
    case True
    have "(st, d') = (if cst = CONTROLLER_STORE_OK then (BRIDGE_OK, d\<lparr>flash := m, controllers := t\<rparr>)
        else (BRIDGE_ERR_STATE, d\<lparr>flash := m\<rparr>))"
      using assms True a c by (auto simp: ble_handle_controller_revoke_def is_admin_session_def Let_def)
    then show ?thesis using attempted [of t cst m] True a c by simp
  next
    case False
    then have "st \<noteq> BRIDGE_OK \<and> d' = d"
      using assms a by (auto simp: ble_handle_controller_revoke_def is_admin_session_def Let_def split: if_splits)
    then show ?thesis using refused by blast
  qed
qed

text \<open>The radio commands touch nothing but their own sector.\<close>

lemma radio_write_outside:
  assumes "nor_erase er" and "nor_program pr" and "length img = 4096"
    and "radio_provision_flash_write_and_verify er pr safe off (Some img) m = (ok, m')" and "a < off \<or> off + 4096 \<le> a"
  shows "m' a = m a"
proof -
  have "radio_program_sector er pr off img m a = m a"
    using fold_misses [OF assms(1,2), of "radio_program_cmds off img" a m] radio_cmds_miss [OF assms(3) _ assms(5)]
    by (simp add: radio_program_sector_def)
  then show ?thesis using assms(4)
    by (auto simp: radio_provision_flash_write_and_verify_def Let_def split: prod.splits if_splits)
qed

lemma build2_length: "radio_config_build2 s n p k = Some img \<Longrightarrow> n \<le> length (the s) \<Longrightarrow> k \<le> length (the p) \<Longrightarrow> length img = 4096"
  by (auto simp: radio_config_build2_def radio_image_def Let_def magic2_def RADIO_SECTOR_SIZE_def split: option.splits if_splits)

definition radio_effect :: "hardware \<Rightarrow> device \<Rightarrow> device \<Rightarrow> bool" where
  "radio_effect H d d' \<longleftrightarrow> (\<exists>m. d' = d\<lparr>flash := m\<rparr> \<and>
     (\<forall>a. a < hw_radio_off H \<or> hw_radio_off H + 4096 \<le> a \<longrightarrow> m a = flash d a))"

lemma same_flash: "d = d\<lparr>flash := flash d\<rparr>"
  by simp

lemma set_radio_effect:
  assumes "flash_layout H" and "ble_handle_set_radio H E p d = (st, d')"
  shows "radio_effect H d d' \<and> (d' \<noteq> d \<or> st = BRIDGE_OK \<longrightarrow> is_admin_session d \<and> \<not> env_mounted E)"
proof -
  have hw: "nor_erase (hw_erase H)" "nor_program (hw_program H)" using assms(1) by (simp_all add: flash_layout_def)
  let ?a = "unat (p ! 1)" and ?b = "unat (p ! 2)"
  let ?build = "radio_config_build2 (Some (drop 3 p)) ?a (Some (drop (3 + ?a) p)) ?b"
  have none: "radio_effect H d d" unfolding radio_effect_def using same_flash by blast
  show ?thesis
  proof (cases "3 \<le> length p \<and> is_admin_session d \<and> \<not> env_mounted E \<and> length p = 3 + ?a + ?b \<and> ?build \<noteq> None")
    case True
    then obtain img where b: "?build = Some img" by blast
    then have l: "length img = 4096" using True by (intro build2_length) auto
    obtain ok m where w: "radio_provision_flash_write_and_verify (hw_erase H) (hw_program H) (env_flash_safe E)
        (hw_radio_off H) (Some img) (flash d) = (ok, m)" by fastforce
    have "d' = d\<lparr>flash := m\<rparr>"
      using assms(2) True b w by (simp add: ble_handle_set_radio_def is_admin_session_def Let_def)
    then show ?thesis using radio_write_outside [OF hw l w] True by (auto simp: radio_effect_def)
  next
    case False
    then have "d' = d \<and> st \<noteq> BRIDGE_OK"
      using assms(2) by (auto simp: ble_handle_set_radio_def is_admin_session_def Let_def split: if_splits option.splits)
    then show ?thesis using none by simp
  qed
qed

lemma clear_radio_effect:
  assumes "flash_layout H" and "ble_handle_clear_radio H E d = (st, d')"
  shows "radio_effect H d d' \<and> (d' \<noteq> d \<or> st = BRIDGE_OK \<longrightarrow> is_admin_session d \<and> \<not> env_mounted E)"
proof -
  have "nor_erase (hw_erase H)" using assms(1) by (simp add: flash_layout_def)
  note e = erase_within [OF this]
  obtain ok m where c: "radio_provision_flash_clear (hw_erase H) (env_flash_safe E) (hw_radio_off H) (flash d) = (ok, m)"
    by fastforce
  then have m: "m a = flash d a" if "a < hw_radio_off H \<or> hw_radio_off H + 4096 \<le> a" for a
    using that e by (auto simp: radio_provision_flash_clear_def radio_erase_sector_def Let_def RADIO_SECTOR_SIZE_def
      split: if_splits)
  have none: "radio_effect H d d" unfolding radio_effect_def using same_flash by blast
  show ?thesis
  proof (cases "is_admin_session d \<and> \<not> env_mounted E")
    case True
    then have "d' = d\<lparr>flash := m\<rparr>" using assms(2) c by (simp add: ble_handle_clear_radio_def is_admin_session_def)
    then show ?thesis using m True by (auto simp: radio_effect_def)
  next
    case False
    then have "d' = d \<and> st \<noteq> BRIDGE_OK"
      using assms(2) by (auto simp: ble_handle_clear_radio_def is_admin_session_def split: if_splits)
    then show ?thesis using none by simp
  qed
qed

subsection \<open>The invariant of the device\<close>

text \<open>An open session belongs to a controller that is enrolled now, with the role it has now.\<close>

definition session_bound :: "controller_store \<Rightarrow> noise_ctx \<Rightarrow> bool" where
  "session_bound s n \<longleftrightarrow> (ready n \<longrightarrow> authenticated_slot n < 5 \<and> authenticated_role n \<noteq> ROLE_NONE \<and>
     slot_role (slots s ! authenticated_slot n) = authenticated_role n)"

definition device_ok :: "hardware \<Rightarrow> device \<Rightarrow> bool" where
  "device_ok H d \<longleftrightarrow> core_ok (core d) \<and> store_wf (controllers d) \<and> stored H (flash d) (controllers d) \<and>
     session_bound (controllers d) (session d)"

lemma device_ok_core: "(st, d') = core_apply x d \<Longrightarrow> device_ok H d \<Longrightarrow> device_ok H d'"
  by (auto simp: core_apply_def device_ok_def core_ok_step split: option.splits)

lemma device_ok_radio: "flash_layout H \<Longrightarrow> radio_effect H d d' \<Longrightarrow> device_ok H d \<Longrightarrow> device_ok H d'"
proof -
  assume l: "flash_layout H" and r: "radio_effect H d d'" and d: "device_ok H d"
  obtain m where m: "d' = d\<lparr>flash := m\<rparr>" "\<forall>a. a < hw_radio_off H \<or> hw_radio_off H + 4096 \<le> a \<longrightarrow> m a = flash d a"
    using r by (auto simp: radio_effect_def)
  have "\<forall>a. hw_store_base H \<le> a \<and> a < hw_store_base H + 8192 \<longrightarrow> m a = flash d a"
    using l m(2) by (auto simp: flash_layout_def)
  then show "device_ok H d'" using d stored_cong [of H m "flash d"] by (simp add: device_ok_def m(1))
qed

lemma device_ok_add:
  assumes "flash_layout H" and "device_ok H d" and "ble_handle_controller_add H E p d = (st, d')"
  shows "device_ok H d'"
  using assms(3)
proof (cases rule: add_command_cases)
  case (attempted t i st' m)
  have w: "store_wf (controllers d)" "stored H (flash d) (controllers d)" using assms(2) by (simp_all add: device_ok_def)
  have tw: "store_wf t" by (rule add_wf [OF w(1) _ attempted(3)]) (use attempted(2) in simp)
  from attempted(3) refl obtain j where j: "j < 5" "slot_role (slots (controllers d) ! j) = ROLE_NONE"
    "t = controllers d\<lparr>slots := (slots (controllers d))[j := \<lparr>slot_role = p ! 1, public_key = take 32 (drop 2 p)\<rparr>],
       generation := generation (controllers d) + 1\<rparr>" by (rule add_OK) blast
  have "stored H m (if st' = CONTROLLER_STORE_OK then t else controllers d)"
    by (rule commit_stored [OF assms(1) tw w(2) _ attempted(4)]) (simp add: j(3))
  moreover have "session_bound t (session d)"
    using assms(2) j(1,2) store_wf_slots(1) [OF w(1)] by (auto simp: device_ok_def session_bound_def j(3) nth_list_update)
  ultimately show ?thesis using assms(2) attempted(5) tw by (auto simp: device_ok_def split: if_splits)
qed (use assms(2) in simp)

lemma device_ok_revoke:
  assumes "flash_layout H" and "device_ok H d" and "ble_handle_controller_revoke H E p d = (st, d')"
  shows "device_ok H d'"
  using assms(3)
proof (cases rule: revoke_command_cases)
  case (attempted t st' m)
  have w: "store_wf (controllers d)" "stored H (flash d) (controllers d)" using assms(2) by (simp_all add: device_ok_def)
  have tw: "store_wf t" by (rule revoke_wf [OF w(1) attempted(4)])
  note r = revoke_OK [OF attempted(4) refl]
  have "stored H m (if st' = CONTROLLER_STORE_OK then t else controllers d)"
    by (rule commit_stored [OF assms(1) tw w(2) _ attempted(5)]) (simp add: r(6))
  moreover have "session_bound t (session d)"
    using assms(2) attempted(3) store_wf_slots(1) [OF w(1)]
    by (auto simp: device_ok_def session_bound_def r(6) nth_list_update noise_authenticated_slot_def)
  ultimately show ?thesis using assms(2) attempted(6) tw by (auto simp: device_ok_def split: if_splits)
qed (use assms(2) in simp)

lemma bridge_command_cases:
  assumes "bridge_command H E p d = Some (st, d')"
  obtains (bridge) "is_core_command p" "(st, d') = core_apply (core_call p (ble_now_ms d)) d"
  | (add) "p ! 0 = BLE_CMD_CONTROLLER_ADD" "ble_handle_controller_add H E p d = (st, d')"
  | (revoke) "p ! 0 = BLE_CMD_CONTROLLER_REVOKE" "ble_handle_controller_revoke H E p d = (st, d')"
  | (set_radio) "p ! 0 = BLE_CMD_SET_RADIO" "ble_handle_set_radio H E p d = (st, d')"
  | (clear_radio) "p ! 0 = BLE_CMD_CLEAR_RADIO" "ble_handle_clear_radio H E d = (st, d')"
proof (cases "is_core_command p")
  case True
  then have "(st, d') = core_apply (core_call p (ble_now_ms d)) d"
    using assms by (auto simp: bridge_command_def is_core_command_def core_effects split: if_splits)
  then show ?thesis by (rule bridge [OF True])
next
  case False
  then show ?thesis
    using assms add revoke set_radio clear_radio by (auto simp: bridge_command_def is_core_command_def split: if_splits)
qed

lemma device_ok_command:
  assumes "flash_layout H" and "device_ok H d" and "bridge_command H E p d = Some (st, d')"
  shows "device_ok H d'"
  using assms(3)
proof (cases rule: bridge_command_cases)
  case set_radio
  then show ?thesis using set_radio_effect [OF assms(1)] device_ok_radio [OF assms(1) _ assms(2)] by blast
next
  case clear_radio
  then show ?thesis using clear_radio_effect [OF assms(1)] device_ok_radio [OF assms(1) _ assms(2)] by blast
qed (use assms(1,2) device_ok_core device_ok_add device_ok_revoke in blast)+

lemma device_ok_ack: "device_ok H (d\<lparr>cmd_ack_status := b\<rparr>) \<longleftrightarrow> device_ok H d"
  by (simp add: device_ok_def)

lemma device_ok_authenticated:
  assumes "flash_layout H" and "device_ok H d" and "ble_handle_authenticated_command H E p d = (armed, d')"
  shows "device_ok H d'"
  using assms(3) device_ok_command [OF assms(1,2)] assms(2)
  by (auto simp: ble_handle_authenticated_command_def device_ok_ack split: if_splits option.splits prod.splits)

lemma session_bound_transport:
  "noise_decrypt_packet C packet out cap n = (r, m) \<Longrightarrow> session_bound s m \<longleftrightarrow> session_bound s n"
  "noise_encrypt_transport_ack C b out cap n = (r, m) \<Longrightarrow> session_bound s m \<longleftrightarrow> session_bound s n"
proof -
  show "session_bound s m \<longleftrightarrow> session_bound s n" if "noise_decrypt_packet C packet out cap n = (r, m)"
    using that by (cases r) (auto elim!: decrypt_cases simp: session_bound_def)
  show "session_bound s m \<longleftrightarrow> session_bound s n" if "noise_encrypt_transport_ack C b out cap n = (r, m)"
    using that by (cases r) (auto elim!: encrypt_ack_cases simp: session_bound_def)
qed

lemma session_bound_handshake:
  assumes "store_wf s" and "noise_ik_handshake_respond C s gen (Some msg) out cap n = ((ok, response), m)"
    and "session_bound s n"
  shows "session_bound s m"
  using assms(2)
proof (cases rule: respond_cases)
  case (failed n')
  then show ?thesis using reset_closes(1) by (simp add: session_bound_def)
next
  case opened
  from assms(1) opened(2,5) show ?thesis
    by (rule opened_session) (simp add: session_bound_def)
qed (use assms(3) in simp)

text \<open>The plaintext of a frame that was accepted.\<close>

definition received :: "hardware \<Rightarrow> bytes \<Rightarrow> device \<Rightarrow> bytes option" where
  "received H data d =
     (if length data \<le> 1 \<or> data ! 0 \<noteq> BLE_CMD_ENCRYPTED then None
      else case noise_decrypt_packet (hw_crypto H) (Some (drop 1 data)) True NOISE_IK_MAX_PLAINTEXT (session d) of
        ((ok, p), _) \<Rightarrow> if ok then Some p else None)"

lemma received_iff:
  "received H data d = Some p \<longleftrightarrow> data ! 0 = BLE_CMD_ENCRYPTED \<and> 1 < length data \<and>
     (\<exists>n. noise_decrypt_packet (hw_crypto H) (Some (drop 1 data)) True NOISE_IK_MAX_PLAINTEXT (session d) = ((True, p), n))"
  by (auto simp: received_def split: prod.splits if_splits)

text \<open>A frame of the session layer: what became of the session, and the command that ran in it.\<close>

lemma frame_cases:
  assumes "command_process_frame H E data cap d = (resp, d')"
  obtains (ignored) "resp = []" "d' = d" "received H data d = None"
  | (handshake) ok response n where "data ! 0 = BLE_CMD_NOISE" "length data = 81"
      "noise_ik_handshake_respond (hw_crypto H) (controllers d) (env_keypair E) (Some (drop 1 data)) True (cap - 1) (session d)
         = ((ok, response), n)" "d' = d\<lparr>session := n\<rparr>"
      "resp = (if ok \<and> length response = 53 then BLE_CMD_NOISE # response else [])"
  | (command) plaintext n armed c where "data ! 0 = BLE_CMD_ENCRYPTED"
      "noise_decrypt_packet (hw_crypto H) (Some (drop 1 data)) True NOISE_IK_MAX_PLAINTEXT (session d) = ((True, plaintext), n)"
      "ble_handle_authenticated_command H E plaintext (d\<lparr>session := n\<rparr>) = (armed, c)"
      "\<not> armed \<and> resp = [] \<and> d' = c \<or>
       armed \<and> (\<exists>ok receipt k. noise_encrypt_transport_ack (hw_crypto H) (cmd_ack_status c) True (cap - 1) (session c) =
         ((ok, receipt), k) \<and> d' = c\<lparr>session := k\<rparr> \<and> resp = (if ok then BLE_CMD_ENCRYPTED # receipt else []))"
proof -
  consider "data = [] \<or> (data ! 0 \<noteq> BLE_CMD_NOISE \<and> data ! 0 \<noteq> BLE_CMD_ENCRYPTED)"
    | "data \<noteq> []" "data ! 0 = BLE_CMD_NOISE" | "data \<noteq> []" "data ! 0 = BLE_CMD_ENCRYPTED" by blast
  then show ?thesis
  proof cases
    case 1
    then show ?thesis using assms ignored by (auto simp: command_process_frame_def received_def split: if_splits)
  next
    case 2
    obtain ok response n where h: "noise_ik_handshake_respond (hw_crypto H) (controllers d) (env_keypair E)
        (Some (drop 1 data)) True (cap - 1) (session d) = ((ok, response), n)" by (metis prod.collapse)
    show ?thesis
    proof (cases "length data = 81")
      case True
      then show ?thesis using assms 2 h handshake [OF 2(2) True h]
        by (auto simp: command_process_frame_def NOISE_IK_INIT_MESSAGE_LEN_def NOISE_IK_RESPONSE_LEN_def split: if_splits)
    qed (use assms 2 ignored in \<open>simp add: command_process_frame_def received_def cmd_codes NOISE_IK_INIT_MESSAGE_LEN_def\<close>)
  next
    case 3
    obtain ok plaintext n where p: "noise_decrypt_packet (hw_crypto H) (Some (drop 1 data)) True NOISE_IK_MAX_PLAINTEXT (session d) =
        ((ok, plaintext), n)" by (metis prod.collapse)
    obtain armed c where a: "ble_handle_authenticated_command H E plaintext (d\<lparr>session := n\<rparr>) = (armed, c)" by fastforce
    obtain aok receipt k where r: "noise_encrypt_transport_ack (hw_crypto H) (cmd_ack_status c) True (cap - 1) (session c) =
        ((aok, receipt), k)" by (metis prod.collapse)
    have ne: "BLE_CMD_ENCRYPTED \<noteq> BLE_CMD_NOISE" by (simp add: cmd_codes)
    show ?thesis
    proof (cases "length data \<le> 1 \<or> \<not> ok")
      case True
      have "n = session d" if "\<not> ok" using p that by (auto elim: decrypt_cases)
      moreover have "received H data d = None" using True p by (auto simp: received_def)
      ultimately show ?thesis using True assms 3 p ne ignored
        by (cases "length data \<le> 1") (auto simp: command_process_frame_def)
    next
      case False
      then have ok: "ok" by simp
      show ?thesis
      proof (rule command [OF 3(2) p [unfolded eqTrueI [OF ok]] a])
        show "\<not> armed \<and> resp = [] \<and> d' = c \<or>
       armed \<and> (\<exists>ok receipt k. noise_encrypt_transport_ack (hw_crypto H) (cmd_ack_status c) True (cap - 1) (session c) =
         ((ok, receipt), k) \<and> d' = c\<lparr>session := k\<rparr> \<and> resp = (if ok then BLE_CMD_ENCRYPTED # receipt else []))"
          using assms 3 False p a r ne by (auto simp: command_process_frame_def split: if_splits)
      qed
    qed
  qed
qed

lemma device_ok_frame:
  assumes "flash_layout H" and "device_ok H d" and "command_process_frame H E data cap d = (resp, d')"
  shows "device_ok H d'"
  using assms(3)
proof (cases rule: frame_cases)
  case (handshake ok response n)
  then show ?thesis
    using assms(2) session_bound_handshake [OF _ handshake(3)] by (simp add: device_ok_def)
next
  case (command plaintext n armed c)
  have "device_ok H (d\<lparr>session := n\<rparr>)"
    using assms(2) session_bound_transport(1) [OF command(2)] by (simp add: device_ok_def)
  then have c: "device_ok H c" by (rule device_ok_authenticated [OF assms(1) _ command(3)])
  show ?thesis using command(4)
  proof (elim disjE conjE exE)
    fix ok receipt k
    assume "noise_encrypt_transport_ack (hw_crypto H) (cmd_ack_status c) True (cap - 1) (session c) = ((ok, receipt), k)"
      and d': "d' = c\<lparr>session := k\<rparr>"
    then show "device_ok H d'" using c session_bound_transport(2) by (simp add: device_ok_def)
  qed (use c in simp)
qed (use assms(2) in simp)

text \<open>The lengths an AEAD of the library gives bound every response.\<close>

definition aead_lengths :: "noise_crypto \<Rightarrow> bool" where
  "aead_lengths C \<longleftrightarrow> (\<forall>k v ad p x t. seal C k v ad p = Some (x, t) \<longrightarrow> length x = length p \<and> length t = 16)"

lemma response_length:
  assumes "aead_lengths (hw_crypto H)" and "command_process_frame H E data cap d = (resp, d')"
  shows "length resp \<le> 54"
  using assms(2)
proof (cases rule: frame_cases)
  case (command plaintext n armed c)
  have "length receipt = 30" if "noise_encrypt_transport_ack (hw_crypto H) st out k m = ((True, receipt), m')" for st out k m receipt m'
    using that assms(1) by (auto elim!: encrypt_ack_cases simp: aead_lengths_def receipt_of_def)
  then show ?thesis using command(4) by (auto split: if_splits)
qed simp_all

end
