(* ===== verification/Noise_Client.thy ===== *)
theory Noise_Client
  imports Noise_IK
begin

section \<open>The Noise IK initiator of the client (tools/pico_bridge_ctl.py) and the agreement of both ends\<close>

text \<open>
  The class \<open>NoiseIKInitiator\<close> of the control tool, method by method, and what the two ends
  promise together: an honest handshake ends with matching keys and counters, and then every
  command and every receipt arrives as it was sent. Python's functions of \<open>hashlib\<close>,
  \<open>hmac\<close> and \<open>cryptography\<close> are parameters in one record. A method returns an error or a value, and the
  object after it, since an exception leaves the changes made before it.
\<close>

record py_crypto =
  py_sha256 :: "bytes \<Rightarrow> bytes"
  py_hmac :: "bytes \<Rightarrow> bytes \<Rightarrow> bytes"
  py_exchange :: "bytes \<Rightarrow> bytes \<Rightarrow> bytes option"
  py_public :: "bytes \<Rightarrow> bytes"
  py_encrypt :: "bytes \<Rightarrow> bytes \<Rightarrow> bytes \<Rightarrow> bytes \<Rightarrow> bytes"
  py_decrypt :: "bytes \<Rightarrow> bytes \<Rightarrow> bytes \<Rightarrow> bytes \<Rightarrow> bytes option"

datatype py_error =
    UnexpectedResponseLength
  | KeyMissing
  | NonceExhausted
  | ExchangeFailed
  | AuthenticationFailed
  | AcknowledgementMismatch
  | NotAuthenticated
  | MissingReceipt
  | UnexpectedReceiptNonce
  | InvalidReceipt
  | UnexpectedReceipt
  | DeviceRejected u8

record initiator =
  static_priv :: bytes
  static_pub :: bytes
  device_pub :: bytes
  py_h :: bytes
  py_ck :: bytes
  py_nonce :: nat
  py_key :: "bytes option"
  py_send_key :: "bytes option"
  py_receive_key :: "bytes option"
  py_send_nonce :: nat
  py_receive_nonce :: nat
  py_eph_priv :: "bytes option"

text \<open>Sequencing of statements: an exception ends the method.\<close>

definition py_then ::
  "(py_error + 'a) \<times> initiator \<Rightarrow> ('a \<Rightarrow> initiator \<Rightarrow> (py_error + 'b) \<times> initiator) \<Rightarrow> (py_error + 'b) \<times> initiator" where
  "py_then r f = (case r of (Inl e, c) \<Rightarrow> (Inl e, c) | (Inr x, c) \<Rightarrow> f x c)"

lemma py_then_simps [simp]: "py_then (Inr x, c) f = f x c" "py_then (Inl e, c) f = (Inl e, c)"
  by (simp_all add: py_then_def)

subsection \<open>The symmetric state\<close>

definition nat_le :: "nat \<Rightarrow> nat \<Rightarrow> bytes" where
  "nat_le k v = map (\<lambda>i. of_nat (v div 256 ^ i)) [0..<k]"

definition py_noise_nonce :: "nat \<Rightarrow> bytes option" where
  "py_noise_nonce counter =
     (if counter < 2 ^ 64 then Some (replicate 4 0 @ nat_le 8 counter) else None)"

definition py_mix_hash :: "py_crypto \<Rightarrow> bytes \<Rightarrow> initiator \<Rightarrow> (py_error + unit) \<times> initiator" where
  "py_mix_hash P data c = (Inr (), c\<lparr>py_h := py_sha256 P (py_h c @ data)\<rparr>)"

text \<open>The two outputs of HKDF, from HMAC as the method computes them.\<close>

definition hkdf2 :: "py_crypto \<Rightarrow> bytes \<Rightarrow> bytes \<Rightarrow> bytes \<times> bytes" where
  "hkdf2 P ck data = (let prk = py_hmac P ck data; t1 = py_hmac P prk [1] in
     (t1, py_hmac P prk (t1 @ [2])))"

definition py_mix_key :: "py_crypto \<Rightarrow> bytes \<Rightarrow> initiator \<Rightarrow> (py_error + unit) \<times> initiator" where
  "py_mix_key P data c = (case hkdf2 P (py_ck c) data of (t1, t2) \<Rightarrow>
     (Inr (), c\<lparr>py_ck := t1, py_key := Some t2, py_nonce := 0\<rparr>))"

definition py_mix_exchange :: "py_crypto \<Rightarrow> bytes \<Rightarrow> bytes \<Rightarrow> initiator \<Rightarrow> (py_error + unit) \<times> initiator" where
  "py_mix_exchange P priv pub c = (case py_exchange P priv pub of
     None \<Rightarrow> (Inl ExchangeFailed, c) | Some shared \<Rightarrow> py_mix_key P shared c)"

definition py_encrypt_and_hash :: "py_crypto \<Rightarrow> bytes \<Rightarrow> initiator \<Rightarrow> (py_error + bytes) \<times> initiator" where
  "py_encrypt_and_hash P plaintext c =
     (case py_key c of None \<Rightarrow> (Inl KeyMissing, c)
      | Some k \<Rightarrow> (case py_noise_nonce (py_nonce c) of None \<Rightarrow> (Inl NonceExhausted, c)
          | Some v \<Rightarrow> let ciphertext = py_encrypt P k v plaintext (py_h c) in
              py_then (py_mix_hash P ciphertext (c\<lparr>py_nonce := py_nonce c + 1\<rparr>)) (\<lambda>_ c. (Inr ciphertext, c))))"

definition py_decrypt_and_hash :: "py_crypto \<Rightarrow> bytes \<Rightarrow> initiator \<Rightarrow> (py_error + bytes) \<times> initiator" where
  "py_decrypt_and_hash P ciphertext c =
     (case py_key c of None \<Rightarrow> (Inl KeyMissing, c)
      | Some k \<Rightarrow> (case py_noise_nonce (py_nonce c) of None \<Rightarrow> (Inl NonceExhausted, c)
          | Some v \<Rightarrow> (case py_decrypt P k v ciphertext (py_h c) of None \<Rightarrow> (Inl AuthenticationFailed, c)
              | Some plaintext \<Rightarrow>
                  py_then (py_mix_hash P ciphertext (c\<lparr>py_nonce := py_nonce c + 1\<rparr>)) (\<lambda>_ c. (Inr plaintext, c)))))"

definition py_split :: "py_crypto \<Rightarrow> initiator \<Rightarrow> initiator" where
  "py_split P c = (case hkdf2 P (py_ck c) [] of (first, second) \<Rightarrow>
     c\<lparr>py_send_key := Some first, py_receive_key := Some second, py_send_nonce := 0,
       py_receive_nonce := 0, py_key := None\<rparr>)"

subsection \<open>The methods\<close>

definition initiator_init :: "py_crypto \<Rightarrow> bytes \<Rightarrow> bytes \<Rightarrow> initiator" where
  "initiator_init P initiator_private device_public =
     (let h = py_sha256 P ik_protocol_name in
      snd (py_mix_hash P device_public \<lparr>static_priv = initiator_private, static_pub = py_public P initiator_private,
        device_pub = device_public, py_h = h, py_ck = h, py_nonce = 0, py_key = None, py_send_key = None,
        py_receive_key = None, py_send_nonce = 0, py_receive_nonce = 0, py_eph_priv = None\<rparr>))"

text \<open>The generated ephemeral private key is the argument \<open>eph\<close>.\<close>

definition begin_handshake :: "py_crypto \<Rightarrow> bytes \<Rightarrow> initiator \<Rightarrow> (py_error + bytes) \<times> initiator" where
  "begin_handshake P eph c =
     py_then (py_mix_hash P (py_public P eph) (c\<lparr>py_eph_priv := Some eph\<rparr>)) (\<lambda>_ c.
     py_then (py_mix_exchange P eph (device_pub c) c) (\<lambda>_ c.
     py_then (py_encrypt_and_hash P (static_pub c) c) (\<lambda>encrypted_static c.
     py_then (py_mix_exchange P (static_priv c) (device_pub c) c) (\<lambda>_ c.
       (Inr (py_public P eph @ encrypted_static), c)))))"

definition complete_handshake :: "py_crypto \<Rightarrow> bytes \<Rightarrow> initiator \<Rightarrow> (py_error + unit) \<times> initiator" where
  "complete_handshake P response c =
     (case py_eph_priv c of None \<Rightarrow> (Inl UnexpectedResponseLength, c)
      | Some eph \<Rightarrow>
        if length response \<noteq> NOISE_IK_RESPONSE_LEN then (Inl UnexpectedResponseLength, c)
        else let responder_eph = take 32 response; encrypted_ack = drop 32 response in
          py_then (py_mix_hash P responder_eph c) (\<lambda>_ c.
          py_then (py_mix_exchange P eph responder_eph c) (\<lambda>_ c.
          py_then (py_mix_exchange P (static_priv c) responder_eph c) (\<lambda>_ c.
          py_then (py_decrypt_and_hash P encrypted_ack c) (\<lambda>ack c.
            if ack \<noteq> ik_ack then (Inl AcknowledgementMismatch, c) else (Inr (), py_split P c))))))"

definition py_is_ready :: "initiator \<Rightarrow> bool" where
  "py_is_ready c \<longleftrightarrow> py_send_key c \<noteq> None \<and> py_receive_key c \<noteq> None"

definition CMD_ENCRYPTED :: u8 where "CMD_ENCRYPTED = 6"

definition encrypt_packet :: "py_crypto \<Rightarrow> bytes \<Rightarrow> initiator \<Rightarrow> (py_error + bytes) \<times> initiator" where
  "encrypt_packet P plaintext c =
     (case (py_send_key c, py_receive_key c) of
        (Some k, Some _) \<Rightarrow>
          (case py_noise_nonce (py_send_nonce c) of None \<Rightarrow> (Inl NonceExhausted, c)
           | Some v \<Rightarrow> let ciphertext = py_encrypt P k v plaintext [] in
               (Inr (CMD_ENCRYPTED # nat_le 8 (py_send_nonce c) @ ciphertext),
                c\<lparr>py_send_nonce := py_send_nonce c + 1\<rparr>))
      | _ \<Rightarrow> (Inl NotAuthenticated, c))"

fun le_nat :: "bytes \<Rightarrow> nat" where
  "le_nat [] = 0"
| "le_nat (b # bs) = unat b + 256 * le_nat bs"

definition TRANSPORT_ACK :: bytes where "TRANSPORT_ACK = [0x50, 0x42, 0x4f, 0x4b, 0x31]"

definition verify_transport_ack :: "py_crypto \<Rightarrow> bytes \<Rightarrow> initiator \<Rightarrow> (py_error + u8) \<times> initiator" where
  "verify_transport_ack P packet c =
     (case (py_send_key c, py_receive_key c) of
        (Some _, Some k) \<Rightarrow>
          if length packet \<noteq> 1 + 8 + length TRANSPORT_ACK + 1 + 16 \<or> packet ! 0 \<noteq> CMD_ENCRYPTED
          then (Inl MissingReceipt, c)
          else let nonce = le_nat (take 8 (drop 1 packet)) in
          if nonce \<noteq> py_receive_nonce c then (Inl UnexpectedReceiptNonce, c)
          else (case py_noise_nonce nonce of None \<Rightarrow> (Inl NonceExhausted, c)
            | Some v \<Rightarrow> (case py_decrypt P k v (drop 9 packet) [] of None \<Rightarrow> (Inl InvalidReceipt, c)
              | Some plaintext \<Rightarrow>
                let c = c\<lparr>py_receive_nonce := py_receive_nonce c + 1\<rparr> in
                if length plaintext \<noteq> length TRANSPORT_ACK + 1 \<or> take (length TRANSPORT_ACK) plaintext \<noteq> TRANSPORT_ACK
                then (Inl UnexpectedReceipt, c)
                else let status = last plaintext in
                  if status \<noteq> 0 then (Inl (DeviceRejected status), c) else (Inr status, c)))
      | _ \<Rightarrow> (Inl MissingReceipt, c))"

subsection \<open>What both crypto libraries implement\<close>

text \<open>
  The documented behaviour the two ends rely on: SHA-256 and HMAC have 32-byte results, the
  firmware's HKDF is the HMAC construction of RFC 5869 with an empty info, ChaCha20-Poly1305
  is the same function on both sides, keeps the length, adds a 16-byte tag and decrypts what it encrypted, and X25519 with an
  honest public key is the same on both sides and commutes. Nothing is assumed of forged input.
\<close>

definition same_suite :: "noise_crypto \<Rightarrow> py_crypto \<Rightarrow> bool" where
  "same_suite C P \<longleftrightarrow>
     (\<forall>d. sha256 C d = Some (py_sha256 P d) \<and> length (py_sha256 P d) = 32) \<and>
     (\<forall>k d. length (py_hmac P k d) = 32 \<and> hkdf C k d = Some (fst (hkdf2 P k d) @ snd (hkdf2 P k d))) \<and>
     (\<forall>k v ad p. \<exists>x t. seal C k v ad p = Some (x, t) \<and> length x = length p \<and> length t = 16 \<and>
        py_encrypt P k v p ad = x @ t \<and> unseal C k v ad x t = Some p \<and> py_decrypt P k v (x @ t) ad = Some p) \<and>
     (\<forall>a. length (py_public P a) = 32) \<and>
     (\<forall>a b. x25519_dh C a (py_public P b) = py_exchange P a (py_public P b) \<and>
        py_exchange P a (py_public P b) = py_exchange P b (py_public P a))"

lemma suite_hash: "same_suite C P \<Longrightarrow> sha256 C d = Some (py_sha256 P d)" "same_suite C P \<Longrightarrow> length (py_sha256 P d) = 32"
  and suite_public: "same_suite C P \<Longrightarrow> length (py_public P a) = 32"
  and suite_hkdf: "same_suite C P \<Longrightarrow> hkdf C k d = Some (fst (hkdf2 P k d) @ snd (hkdf2 P k d))"
  and suite_hmac: "same_suite C P \<Longrightarrow> length (py_hmac P k d) = 32"
  unfolding same_suite_def by blast+

lemma suite_dh:
  "same_suite C P \<Longrightarrow> x25519_dh C a (py_public P b) = py_exchange P a (py_public P b)"
  "same_suite C P \<Longrightarrow> x25519_dh C a (py_public P b) = py_exchange P b (py_public P a)"
  unfolding same_suite_def by metis+

lemma suite_aead:
  assumes "same_suite C P"
  obtains x t where "seal C k v ad p = Some (x, t)" "length x = length p" "length t = 16"
    "py_encrypt P k v p ad = x @ t" "unseal C k v ad x t = Some p" "py_decrypt P k v (x @ t) ad = Some p"
  using assms unfolding same_suite_def by blast

lemma suite_hkdf2: "same_suite C P \<Longrightarrow> length (fst (hkdf2 P k d)) = 32" "same_suite C P \<Longrightarrow> length (snd (hkdf2 P k d)) = 32"
  by (simp_all add: hkdf2_def Let_def suite_hmac)

subsection \<open>Both ends in step\<close>

definition in_tune :: "noise_ctx \<Rightarrow> initiator \<Rightarrow> bool" where
  "in_tune n c \<longleftrightarrow> transcript n = py_h c \<and> chain_key n = py_ck c"

definition keyed :: "noise_ctx \<Rightarrow> initiator \<Rightarrow> bool" where
  "keyed n c \<longleftrightarrow> in_tune n c \<and> py_key c = Some (cipher_key n) \<and> nonce_counter n = 0 \<and> py_nonce c = 0"

definition same_client :: "initiator \<Rightarrow> initiator \<Rightarrow> bool" where
  "same_client d c \<longleftrightarrow> static_priv d = static_priv c \<and> static_pub d = static_pub c \<and>
     device_pub d = device_pub c \<and> py_eph_priv d = py_eph_priv c"

text \<open>The two ends share keys and counters of an open session.\<close>

definition paired :: "noise_ctx \<Rightarrow> initiator \<Rightarrow> bool" where
  "paired n c \<longleftrightarrow> ready n \<and> py_send_key c = Some (receive_key n) \<and> py_receive_key c = Some (send_key n) \<and>
     py_send_nonce c = unat (receive_nonce n) \<and> py_receive_nonce c = unat (send_nonce n)"

lemma sync_hash:
  assumes "same_suite C P" and "in_tune n c" and "length d \<le> 80"
  obtains n' c' where "mix_hash C d n = (True, n')" "py_mix_hash P d c = (Inr (), c')" "in_tune n' c'"
    "same_device n' n" "same_client c' c" "keyed n c \<Longrightarrow> keyed n' c'"
  using assms that
  by (simp add: mix_hash_def py_mix_hash_def suite_hash NOISE_IK_INIT_MESSAGE_LEN_def in_tune_def keyed_def
      same_device_def same_client_def)

lemma sync_dh:
  assumes "same_suite C P" and "in_tune n c" and "x25519_dh C a b = Some s" and "py_exchange P a' b' = Some s"
  obtains n' c' where "mix_dh C a b n = (True, n')" "py_mix_exchange P a' b' c = (Inr (), c')" "keyed n' c'"
    "same_device n' n" "same_client c' c"
proof -
  obtain t u where h: "hkdf2 P (py_ck c) s = (t, u)" by fastforce
  then have l: "length t = 32" "length u = 32" "hkdf C (py_ck c) s = Some (t @ u)"
    using suite_hkdf2 [OF assms(1), of "py_ck c" s] suite_hkdf [OF assms(1), of "py_ck c" s] by simp_all
  show ?thesis
  proof (rule that)
  show "mix_dh C a b n = (True, n\<lparr>chain_key := t, cipher_key := u, nonce_counter := 0\<rparr>)"
    using assms(2,3) l by (simp add: mix_dh_def mix_key_def in_tune_def)
  show "py_mix_exchange P a' b' c = (Inr (), c\<lparr>py_ck := t, py_key := Some u, py_nonce := 0\<rparr>)"
    using assms(4) h by (simp add: py_mix_exchange_def py_mix_key_def)
  qed (use assms(2) in \<open>simp_all add: keyed_def in_tune_def same_device_def same_client_def\<close>)
qed

lemma py_zero_nonce: "py_noise_nonce 0 = Some (noise_nonce 0)"
  by (simp add: py_noise_nonce_def nat_le_def zero_nonce map_replicate_const flip: replicate_add)

lemma sync_to_device:
  assumes "same_suite C P" and "keyed n c" and "length p \<le> 64"
  obtains e n' c' where "py_encrypt_and_hash P p c = (Inr e, c')" "cipher_decrypt_and_hash C e n = ((True, p), n')"
    "in_tune n' c'" "length e = length p + 16" "same_device n' n" "same_client c' c"
proof -
  obtain x t where a: "seal C (cipher_key n) (noise_nonce 0) (py_h c) p = Some (x, t)" "length x = length p"
    "length t = 16" "py_encrypt P (cipher_key n) (noise_nonce 0) p (py_h c) = x @ t"
    "unseal C (cipher_key n) (noise_nonce 0) (py_h c) x t = Some p"
    "py_decrypt P (cipher_key n) (noise_nonce 0) (x @ t) (py_h c) = Some p"
    by (rule suite_aead [OF assms(1), of "cipher_key n" "noise_nonce 0" "py_h c" p])
  show ?thesis
  proof (rule that)
    show "py_encrypt_and_hash P p c = (Inr (x @ t), c\<lparr>py_nonce := 1, py_h := py_sha256 P (py_h c @ x @ t)\<rparr>)"
      using assms(2) a by (simp add: py_encrypt_and_hash_def keyed_def py_zero_nonce py_mix_hash_def Let_def)
    show "cipher_decrypt_and_hash C (x @ t) n =
        ((True, p), n\<lparr>nonce_counter := 1, transcript := py_sha256 P (py_h c @ x @ t)\<rparr>)"
      using assms a by (simp add: cipher_decrypt_and_hash_def keyed_def in_tune_def NOISE_IK_TAG_LEN_def
        UINT64_MAX_def mix_hash_def NOISE_IK_INIT_MESSAGE_LEN_def suite_hash Let_def)
  qed (use assms(2) a in \<open>simp_all add: keyed_def in_tune_def same_device_def same_client_def\<close>)
qed

lemma sync_to_client:
  assumes "same_suite C P" and "keyed n c" and "length p \<le> 64"
  obtains e n' c' where "cipher_encrypt_and_hash C p n = ((True, e), n')" "py_decrypt_and_hash P e c = (Inr p, c')"
    "in_tune n' c'" "length e = length p + 16" "same_device n' n" "same_client c' c"
proof -
  obtain x t where a: "seal C (cipher_key n) (noise_nonce 0) (py_h c) p = Some (x, t)" "length x = length p"
    "length t = 16" "py_encrypt P (cipher_key n) (noise_nonce 0) p (py_h c) = x @ t"
    "unseal C (cipher_key n) (noise_nonce 0) (py_h c) x t = Some p"
    "py_decrypt P (cipher_key n) (noise_nonce 0) (x @ t) (py_h c) = Some p"
    by (rule suite_aead [OF assms(1), of "cipher_key n" "noise_nonce 0" "py_h c" p])
  show ?thesis
  proof (rule that)
    show "py_decrypt_and_hash P (x @ t) c = (Inr p, c\<lparr>py_nonce := 1, py_h := py_sha256 P (py_h c @ x @ t)\<rparr>)"
      using assms(2) a by (simp add: py_decrypt_and_hash_def keyed_def py_zero_nonce py_mix_hash_def Let_def)
    show "cipher_encrypt_and_hash C p n =
        ((True, x @ t), n\<lparr>nonce_counter := 1, transcript := py_sha256 P (py_h c @ x @ t)\<rparr>)"
      using assms a by (simp add: cipher_encrypt_and_hash_def keyed_def in_tune_def
        UINT64_MAX_def mix_hash_def NOISE_IK_INIT_MESSAGE_LEN_def suite_hash Let_def)
  qed (use assms(2) a in \<open>simp_all add: keyed_def in_tune_def same_device_def same_client_def\<close>)
qed

lemma sync_split:
  assumes "same_suite C P" and "in_tune n c"
  obtains n' where "split_transport C n = (True, n')" and "same_device n' n"
    and "paired (n'\<lparr>authenticated_slot := i, authenticated_role := r, ready := True\<rparr>) (py_split P c)"
    and "receive_nonce n' = 0" and "send_nonce n' = 0"
proof -
  obtain t u where h: "hkdf2 P (py_ck c) [] = (t, u)" by fastforce
  then have l: "length t = 32" "length u = 32" "hkdf C (py_ck c) [] = Some (t @ u)"
    using suite_hkdf2 [OF assms(1), of "py_ck c" "[]"] suite_hkdf [OF assms(1), of "py_ck c" "[]"] by simp_all
  show ?thesis
    by (rule that [of "n\<lparr>receive_key := t, send_key := u, receive_nonce := 0, send_nonce := 0, cipher_key := zero_key\<rparr>"])
      (use assms(2) l h in \<open>simp_all add: split_transport_def in_tune_def same_device_def paired_def py_split_def\<close>)
qed

subsection \<open>An honest handshake\<close>

lemma match_slot_of_lookup:
  assumes "store_wf s" and "length k = 32" and "store_lookup s k = Some (i, r)"
  shows "match_slot (slots s) k 0 CONTROLLER_STORE_SLOT_COUNT (CONTROLLER_STORE_SLOT_COUNT, ROLE_NONE) = (i, r)"
proof -
  have "match_slot (slots s) k 0 5 (5, ROLE_NONE) =
      (case find_slot (slots s) k 0 5 of None \<Rightarrow> (5, ROLE_NONE) | Some p \<Rightarrow> p)"
    by (rule match_slot_find [OF assms(2)]) (simp_all add: store_wf_slots [OF assms(1)])
  then show ?thesis using assms(3)
    by (simp add: store_lookup_def controller_store_find_slot CONTROLLER_STORE_SLOT_COUNT_def)
qed

text \<open>The client made for a device and its own identity.\<close>

definition client_of :: "py_crypto \<Rightarrow> bytes \<Rightarrow> bytes \<Rightarrow> initiator \<Rightarrow> bool" where
  "client_of P spriv dpub c \<longleftrightarrow> static_priv c = spriv \<and> static_pub c = py_public P spriv \<and> device_pub c = dpub"

lemma client_kept: "client_of P spriv dpub c \<Longrightarrow> same_client d c \<Longrightarrow> client_of P spriv dpub d"
  by (simp add: client_of_def same_client_def)

lemma sync_start:
  assumes "same_suite C P" and "length (device_static_pub n) = 32"
  obtains n' where "reset_handshake_state C n = (True, n')" and "same_device n' n"
    and "in_tune n' ((initiator_init P spriv (device_static_pub n))\<lparr>py_eph_priv := e\<rparr>)"
proof -
  have "fst (reset_handshake_state C n)" using assms by (simp add: reset_ok suite_hash)
  moreover have "in_tune (snd (reset_handshake_state C n)) ((initiator_init P spriv (device_static_pub n))\<lparr>py_eph_priv := e\<rparr>)"
    using assms by (simp add: reset_state Let_def suite_hash mix_hash_state in_tune_def initiator_init_def py_mix_hash_def)
  ultimately show ?thesis using that [of "snd (reset_handshake_state C n)"] by (simp add: prod_eq_iff)
qed

lemma sync_begin:
  assumes suite: "same_suite C P" and store: "store_wf store" "store_lookup store (py_public P spriv) = Some (i, r)"
    and device: "device_static_priv n = dpriv" "device_static_pub n = py_public P dpriv" "controllers_set n"
    and dh: "py_exchange P epriv (py_public P dpriv) = Some es" "py_exchange P spriv (py_public P dpriv) = Some ss"
  obtains msg c m m' where "begin_handshake P epriv (initiator_init P spriv (py_public P dpriv)) = (Inr msg, c)"
    and "length msg = 80" and "take 32 msg = py_public P epriv"
    and "handshake_match C store msg n = (Some (py_public P spriv, i, r), m)" and "same_device m n"
    and "mix_dh C dpriv (py_public P spriv) m = (True, m')" and "in_tune m' c"
    and "static_priv c = spriv" and "py_eph_priv c = Some epriv"
proof -
  define c0 where "c0 = (initiator_init P spriv (py_public P dpriv))\<lparr>py_eph_priv := Some epriv\<rparr>"
  have p32: "length (py_public P x) = 32" for x by (rule suite_public [OF suite])
  have c0: "client_of P spriv (py_public P dpriv) c0" "py_eph_priv c0 = Some epriv"
    by (simp_all add: c0_def client_of_def initiator_init_def Let_def py_mix_hash_def)
  obtain n0 where n0: "reset_handshake_state C n = (True, n0)" "same_device n0 n" "in_tune n0 c0"
    using sync_start [OF suite, where n = n and spriv = spriv and e = "Some epriv"] p32 [of dpriv] unfolding device(2) c0_def by metis
  obtain n1 c1 where h: "mix_hash C (py_public P epriv) n0 = (True, n1)"
    "py_mix_hash P (py_public P epriv) c0 = (Inr (), c1)" "in_tune n1 c1" "same_device n1 n0" "same_client c1 c0"
    by (rule sync_hash [OF suite n0(3), of "py_public P epriv"]) (simp add: p32)
  have es: "x25519_dh C dpriv (py_public P epriv) = Some es" using suite_dh(2) [OF suite] dh(1) by metis
  obtain n2 c2 where d: "mix_dh C dpriv (py_public P epriv) n1 = (True, n2)"
    "py_mix_exchange P epriv (py_public P dpriv) c1 = (Inr (), c2)" "keyed n2 c2" "same_device n2 n1" "same_client c2 c1"
    by (rule sync_dh [OF suite h(3) es dh(1)])
  obtain e n3 c3 where a: "py_encrypt_and_hash P (py_public P spriv) c2 = (Inr e, c3)"
    "cipher_decrypt_and_hash C e n2 = ((True, py_public P spriv), n3)" "in_tune n3 c3" "length e = 48"
    "same_device n3 n2" "same_client c3 c2"
    by (rule sync_to_device [OF suite d(3), of "py_public P spriv"]) (auto simp: p32)
  have ss: "x25519_dh C dpriv (py_public P spriv) = Some ss" using suite_dh(2) [OF suite] dh(2) by metis
  obtain n4 c4 where b: "mix_dh C dpriv (py_public P spriv) n3 = (True, n4)"
    "py_mix_exchange P spriv (py_public P dpriv) c3 = (Inr (), c4)" "keyed n4 c4" "same_device n4 n3" "same_client c4 c3"
    by (rule sync_dh [OF suite a(3) ss dh(2)])
  have c: "client_of P spriv (py_public P dpriv) c1" "client_of P spriv (py_public P dpriv) c2"
    "client_of P spriv (py_public P dpriv) c3"
    using c0(1) h(5) d(5) a(6) by (blast intro: client_kept)+
  have dev: "device_static_priv n1 = dpriv" "controllers_set n3" "same_device n3 n"
    using n0(2) h(4) d(4) a(5) device by (simp_all add: same_device_def)
  have slot: "i \<noteq> 5" "match_slot (slots store) (py_public P spriv) 0 5 (5, ROLE_NONE) = (i, r)"
    using store_lookup_iff [OF store(1) p32, of spriv i r] store(2) match_slot_of_lookup [OF store(1) p32 store(2)]
    by (simp_all add: CONTROLLER_STORE_SLOT_COUNT_def)
  let ?msg = "py_public P epriv @ e"
  have "begin_handshake P epriv (initiator_init P spriv (py_public P dpriv)) = (Inr ?msg, c4)"
    using h(2) d(2) a(1) b(2) c by (simp add: begin_handshake_def client_of_def flip: c0_def)
  moreover have "handshake_match C store ?msg n = (Some (py_public P spriv, i, r), n3)"
    using n0(1) h(1) d(1) a(2,4) dev slot
    by (simp add: handshake_match_def or_done_def p32 NOISE_IK_KEY_LEN_def CONTROLLER_STORE_SLOT_COUNT_def)
  moreover have "static_priv c4 = spriv" "py_eph_priv c4 = Some epriv"
    using c(3) b(5) a(6) d(5) h(5) c0(2) by (simp_all add: same_client_def client_of_def)
  ultimately show ?thesis
    using that [of ?msg c4 n3 n4] a(4) b(1,3) dev(3) by (simp add: p32 keyed_def)
qed

lemma sync_complete:
  assumes suite: "same_suite C P" and tune: "in_tune m' c" "static_priv c = spriv" "py_eph_priv c = Some epriv"
    and msg: "take 32 msg = py_public P epriv"
    and start: "device_static_priv m = dpriv" "mix_dh C dpriv (py_public P spriv) m = (True, m')"
    and dh: "py_exchange P epriv (py_public P rpriv) = Some ee" "py_exchange P spriv (py_public P rpriv) = Some se"
  obtains response n d where "handshake_answer C (Some (rpriv, py_public P rpriv)) msg (py_public P spriv, i, r) m = (Some response, n)"
    and "complete_handshake P response c = (Inr (), d)" and "paired n d"
    and "authenticated_slot n = i" and "authenticated_role n = r" and "length response = 53"
proof -
  have p32: "length (py_public P x) = 32" for x by (rule suite_public [OF suite])
  obtain n1 c1 where h: "mix_hash C (py_public P rpriv) m' = (True, n1)"
    "py_mix_hash P (py_public P rpriv) c = (Inr (), c1)" "in_tune n1 c1" "same_client c1 c"
    by (rule sync_hash [OF suite tune(1), of "py_public P rpriv"]) (simp add: p32)
  have ee: "x25519_dh C rpriv (py_public P epriv) = Some ee" using suite_dh(2) [OF suite] dh(1) by metis
  have se: "x25519_dh C rpriv (py_public P spriv) = Some se" using suite_dh(2) [OF suite] dh(2) by metis
  obtain n2 c2 where d: "mix_dh C rpriv (py_public P epriv) n1 = (True, n2)"
    "py_mix_exchange P epriv (py_public P rpriv) c1 = (Inr (), c2)" "keyed n2 c2" "same_client c2 c1"
    by (rule sync_dh [OF suite h(3) ee dh(1)])
  then have t2: "in_tune n2 c2" by (simp add: keyed_def)
  obtain n3 c3 where b: "mix_dh C rpriv (py_public P spriv) n2 = (True, n3)"
    "py_mix_exchange P spriv (py_public P rpriv) c2 = (Inr (), c3)" "keyed n3 c3" "same_client c3 c2"
    by (rule sync_dh [OF suite t2 se dh(2)])
  obtain e n4 c4 where a: "cipher_encrypt_and_hash C ik_ack n3 = ((True, e), n4)"
    "py_decrypt_and_hash P e c3 = (Inr ik_ack, c4)" "in_tune n4 c4" "length e = 21"
    by (rule sync_to_client [OF suite b(3), of ik_ack]) (auto simp: ik_ack_def)
  obtain n5 where s: "split_transport C n4 = (True, n5)"
    "paired (n5\<lparr>authenticated_slot := i, authenticated_role := r, ready := True\<rparr>) (py_split P c4)"
    by (rule sync_split [OF suite a(3), where i = i and r = r]) blast
  let ?n = "n5\<lparr>authenticated_slot := i, authenticated_role := r, ready := True\<rparr>"
  have "handshake_answer C (Some (rpriv, py_public P rpriv)) msg (py_public P spriv, i, r) m =
      (Some (py_public P rpriv @ e), ?n)"
    using start h(1) d(1) b(1) a(1,4) s(1)
    by (simp add: handshake_answer_def or_done_def x25519_keypair_def msg p32 NOISE_IK_KEY_LEN_def NOISE_IK_RESPONSE_LEN_def)
  moreover have "complete_handshake P (py_public P rpriv @ e) c = (Inr (), py_split P c4)"
    using h(2,4) d(2,4) b(2) a(2,4) tune(2,3)
    by (simp add: complete_handshake_def p32 NOISE_IK_RESPONSE_LEN_def same_client_def)
  ultimately show ?thesis using that [of "py_public P rpriv @ e" ?n "py_split P c4"] s(2) a(4) by (simp add: p32)
qed

lemma handshake_agrees:
  assumes "same_suite C P" and "store_wf store" and "store_lookup store (py_public P spriv) = Some (i, r)"
    and "device_static_priv n = dpriv" and "device_static_pub n = py_public P dpriv" and "controllers_set n"
    and "py_exchange P epriv (py_public P dpriv) = Some es" and "py_exchange P spriv (py_public P dpriv) = Some ss"
    and "py_exchange P epriv (py_public P rpriv) = Some ee" and "py_exchange P spriv (py_public P rpriv) = Some se"
  obtains msg c response m d where
    "begin_handshake P epriv (initiator_init P spriv (py_public P dpriv)) = (Inr msg, c)" "length msg = 80"
    "noise_ik_handshake_respond C store (Some (rpriv, py_public P rpriv)) (Some msg) True NOISE_IK_RESPONSE_LEN n =
      ((True, response), m)" "length response = 53"
    "complete_handshake P response c = (Inr (), d)"
    "noise_authenticated_slot m = i" "noise_authenticated_role m = r" "paired m d"
proof -
  from assms(1-8) obtain msg c k k' where b:
    "begin_handshake P epriv (initiator_init P spriv (py_public P dpriv)) = (Inr msg, c)"
    "length msg = 80" "take 32 msg = py_public P epriv"
    "handshake_match C store msg n = (Some (py_public P spriv, i, r), k)" "same_device k n"
    "mix_dh C dpriv (py_public P spriv) k = (True, k')" "in_tune k' c"
    "static_priv c = spriv" "py_eph_priv c = Some epriv" by (rule sync_begin)
  have k: "device_static_priv k = dpriv" using b(5) assms(4) by (simp add: same_device_def)
  obtain response m d where a:
    "handshake_answer C (Some (rpriv, py_public P rpriv)) msg (py_public P spriv, i, r) k = (Some response, m)"
    "complete_handshake P response c = (Inr (), d)" "paired m d"
    "authenticated_slot m = i" "authenticated_role m = r" "length response = 53"
    by (rule sync_complete [OF assms(1) b(7-9,3) k b(6) assms(9,10), where i = i and r = r])
  have "noise_ik_handshake_respond C store (Some (rpriv, py_public P rpriv)) (Some msg) True NOISE_IK_RESPONSE_LEN n =
      ((True, response), m)"
    using a(1) b(2,4) by (simp add: noise_ik_handshake_respond_def handshake_steps_def NOISE_IK_INIT_MESSAGE_LEN_def)
  then show ?thesis using that [OF b(1,2)] a by (simp add: paired_def session_defs)
qed

text \<open>C16: an honest client and the device agree. When the client's static key is enrolled and both use the
  same algorithms, the device accepts the client's first message, the client accepts the
  device's answer, the device attributes the session to the client's slot and role, and both
  ends hold the same two transport keys, one per direction, with their counters at the same
  values.\<close>

theorem handshake_agreement:
  assumes "same_suite C P" and "store_wf store" and "store_lookup store (py_public P spriv) = Some (i, r)"
    and "device_static_priv n = dpriv" and "device_static_pub n = py_public P dpriv" and "controllers_set n"
    and "py_exchange P epriv (py_public P dpriv) = Some es" and "py_exchange P spriv (py_public P dpriv) = Some ss"
    and "py_exchange P epriv (py_public P rpriv) = Some ee" and "py_exchange P spriv (py_public P rpriv) = Some se"
  shows "\<exists>msg c response m d.
    begin_handshake P epriv (initiator_init P spriv (py_public P dpriv)) = (Inr msg, c) \<and>
    noise_ik_handshake_respond C store (Some (rpriv, py_public P rpriv)) (Some msg) True NOISE_IK_RESPONSE_LEN n =
      ((True, response), m) \<and>
    complete_handshake P response c = (Inr (), d) \<and>
    noise_authenticated_slot m = i \<and> noise_authenticated_role m = r \<and> paired m d"
  by (rule handshake_agrees [OF assms]) blast

subsection \<open>Commands and receipts of a paired session\<close>

lemma nat_le_64: "nat_le 8 (unat v) = le64_bytes (v :: u64)"
proof (rule nth_equalityI)
  fix k assume "k < length (nat_le 8 (unat v))"
  then have k: "k < 8" by (simp add: nat_le_def)
  have "(of_nat (unat v div 256 ^ k) :: u8) = of_nat (unat (drop_bit (8 * k) v))"
    unfolding unat_drop_bit_eq by (simp add: drop_bit_eq_div power_mult)
  then show "nat_le 8 (unat v) ! k = le64_bytes v ! k"
    using k by (simp only: nat_le_def le64_bytes_nth of_nat_unat) simp
qed (simp add: nat_le_def)

lemma le_nat_append: "le_nat (xs @ [b]) = le_nat xs + 256 ^ length xs * unat b"
  by (induction xs) (simp_all add: algebra_simps)

lemma nat_le_Suc: "nat_le (Suc k) v = nat_le k v @ [of_nat (v div 256 ^ k)]"
  by (simp add: nat_le_def)

lemma le_nat_le: "v < 256 ^ k \<Longrightarrow> le_nat (nat_le k v) = v"
proof -
  have "le_nat (nat_le k v) = v mod 256 ^ k"
  proof (induction k)
    case (Suc k)
    have "unat (of_nat (v div 256 ^ k) :: u8) = v div 256 ^ k mod 256" by (simp add: unat_of_nat)
    then show ?case using Suc mod_mult2_eq [of v "256 ^ k" 256]
      by (simp add: nat_le_Suc le_nat_append) (simp add: nat_le_def mult.commute)
  qed (simp add: nat_le_def)
  then show "v < 256 ^ k \<Longrightarrow> le_nat (nat_le k v) = v" by simp
qed

lemma le_nat_le64: "le_nat (le64_bytes v) = unat v"
  using le_nat_le [of "unat v" 8] unsigned_less [of v, where ?'a = nat] by (simp add: nat_le_64)

lemma py_nonce_word: "py_noise_nonce (unat (v :: u64)) = Some (noise_nonce v)"
  using unsigned_less [of v, where ?'a = nat]
  by (simp add: py_noise_nonce_def nat_le_64) (simp add: noise_nonce_def le64_bytes_def)

lemma command_arrives:
  assumes "same_suite C P" and "paired n c" and "receive_nonce n \<noteq> UINT64_MAX" and "length p \<le> cap" and "length p \<le> 1038"
  obtains w d m where "encrypt_packet P p c = (Inr (CMD_ENCRYPTED # w), d)" "length w = length p + 24"
    and "noise_decrypt_packet C (Some w) True cap n = ((True, p), m)" and "paired m d"
    and "m = n\<lparr>receive_nonce := receive_nonce n + 1\<rparr>"
proof -
  let ?v = "receive_nonce n"
  obtain x t where a: "seal C (receive_key n) (noise_nonce ?v) [] p = Some (x, t)" "length x = length p"
    "length t = 16" "py_encrypt P (receive_key n) (noise_nonce ?v) p [] = x @ t"
    "unseal C (receive_key n) (noise_nonce ?v) [] x t = Some p" "py_decrypt P (receive_key n) (noise_nonce ?v) (x @ t) [] = Some p"
    by (rule suite_aead [OF assms(1), of "receive_key n" "noise_nonce ?v" "[]" p])
  let ?w = "le64_bytes ?v @ x @ t"
  have "packet_nonce ?w 0 8 0 = ?v" by (subst packet_nonce_le64) simp_all
  then have "noise_decrypt_packet C (Some ?w) True cap n = ((True, p), n\<lparr>receive_nonce := ?v + 1\<rparr>)"
    using assms(2-5) a(2,3,5)
    by (simp add: noise_decrypt_packet_def Let_def paired_def NOISE_IK_TRANSPORT_OVERHEAD_def NOISE_IK_TAG_LEN_def
        NOISE_IK_TRANSPORT_NONCE_LEN_def NOISE_IK_MAX_PLAINTEXT_def)
  moreover have "encrypt_packet P p c = (Inr (CMD_ENCRYPTED # ?w), c\<lparr>py_send_nonce := py_send_nonce c + 1\<rparr>)"
    using assms(2) a(4) by (simp add: encrypt_packet_def paired_def py_nonce_word nat_le_64 Let_def)
  moreover have "paired (n\<lparr>receive_nonce := ?v + 1\<rparr>) (c\<lparr>py_send_nonce := py_send_nonce c + 1\<rparr>)"
    using assms(2,3) by (simp add: paired_def unat_u64_Suc)
  ultimately show ?thesis using that a(2,3) by simp
qed

definition verdict :: "u8 \<Rightarrow> py_error + u8" where
  "verdict status = (if status = 0 then Inr 0 else Inl (DeviceRejected status))"

lemma receipt_arrives:
  assumes "same_suite C P" and "paired n c" and "send_nonce n \<noteq> UINT64_MAX" and "30 \<le> cap"
  obtains w d m where "noise_encrypt_transport_ack C status True cap n = ((True, w), m)" "length w = 30"
    and "verify_transport_ack P (CMD_ENCRYPTED # w) c = (verdict status, d)" and "paired m d"
    and "m = n\<lparr>send_nonce := send_nonce n + 1\<rparr>"
proof -
  let ?v = "send_nonce n" and ?p = "receipt_of status"
  obtain x t where a: "seal C (send_key n) (noise_nonce ?v) [] ?p = Some (x, t)" "length x = length ?p"
    "length t = 16" "py_encrypt P (send_key n) (noise_nonce ?v) ?p [] = x @ t"
    "unseal C (send_key n) (noise_nonce ?v) [] x t = Some ?p" "py_decrypt P (send_key n) (noise_nonce ?v) (x @ t) [] = Some ?p"
    by (rule suite_aead [OF assms(1), of "send_key n" "noise_nonce ?v" "[]" ?p])
  let ?w = "le64_bytes ?v @ x @ t" and ?d = "c\<lparr>py_receive_nonce := py_receive_nonce c + 1\<rparr>"
  have l: "length x = 6" "length TRANSPORT_ACK = 5" "take 5 ?p = TRANSPORT_ACK" "length ?p = 6" "last ?p = status"
    using a(2) by (simp_all add: receipt_of_def TRANSPORT_ACK_def)
  have "noise_encrypt_transport_ack C status True cap n = ((True, ?w), n\<lparr>send_nonce := ?v + 1\<rparr>)"
    using assms(2-4) a(1) by (simp add: noise_encrypt_transport_ack_def paired_def NOISE_IK_TRANSPORT_RESPONSE_LEN_def
      NOISE_IK_TRANSPORT_OVERHEAD_def NOISE_IK_TAG_LEN_def NOISE_IK_TRANSPORT_NONCE_LEN_def NOISE_IK_TRANSPORT_ACK_LEN_def)
  moreover have "verify_transport_ack P (CMD_ENCRYPTED # ?w) c = (verdict status, ?d)"
    using assms(2) a(3,6) l by (simp add: verify_transport_ack_def paired_def py_nonce_word le_nat_le64 Let_def verdict_def)
  moreover have "paired (n\<lparr>send_nonce := ?v + 1\<rparr>) ?d"
    using assms(2,3) by (simp add: paired_def unat_u64_Suc)
  ultimately show ?thesis using that a(3) l(1) by simp
qed

text \<open>
  A conversation: for each command the client encrypts it, the device decrypts it and answers
  with the receipt of some status, which the client verifies. The outcome of a round is the plaintext
  the device saw and the client's verdict.
\<close>

fun conversation ::
  "noise_crypto \<Rightarrow> py_crypto \<Rightarrow> (bytes \<times> u8) list \<Rightarrow> noise_ctx \<Rightarrow> initiator
     \<Rightarrow> (bytes \<times> (py_error + u8)) list \<times> noise_ctx \<times> initiator" where
  "conversation C P [] n c = ([], n, c)"
| "conversation C P ((p, status) # rounds) n c =
     (case encrypt_packet P p c of (Inl e, c) \<Rightarrow> ([([], Inl e)], n, c)
      | (Inr packet, c) \<Rightarrow>
        (case noise_decrypt_packet C (Some (tl packet)) True NOISE_IK_MAX_PLAINTEXT n of ((ok, seen), n) \<Rightarrow>
          (case noise_encrypt_transport_ack C status True NOISE_IK_TRANSPORT_RESPONSE_LEN n of ((ok, receipt), n) \<Rightarrow>
            (case verify_transport_ack P (CMD_ENCRYPTED # receipt) c of (v, c) \<Rightarrow>
              (case conversation C P rounds n c of (rest, n, c) \<Rightarrow> ((seen, v) # rest, n, c))))))"

lemma u64_not_max: "unat (v :: u64) < 2 ^ 64 - 1 \<Longrightarrow> v \<noteq> UINT64_MAX"
  by (auto simp: UINT64_MAX_def)

lemma response_len_30: "NOISE_IK_TRANSPORT_RESPONSE_LEN = 30"
  by (simp add: NOISE_IK_TRANSPORT_RESPONSE_LEN_def NOISE_IK_TRANSPORT_OVERHEAD_def NOISE_IK_TAG_LEN_def
      NOISE_IK_TRANSPORT_NONCE_LEN_def NOISE_IK_TRANSPORT_ACK_LEN_def)

text \<open>C17: a session is a faithful channel. From paired ends, any sequence of commands of at most 1038 bytes is
  decrypted by the device exactly as the client sent it, in order, and the client's verdict on
  each receipt is the status the device reported; the ends stay paired, as long as
  the 64-bit counters last.\<close>

theorem conversation_is_faithful:
  assumes "same_suite C P" and "paired n c" and "\<forall>(p, status) \<in> set rounds. length p \<le> 1038"
    and "unat (receive_nonce n) + length rounds < 2 ^ 64" and "unat (send_nonce n) + length rounds < 2 ^ 64"
  shows "case conversation C P rounds n c of (outcome, m, d) \<Rightarrow>
    outcome = map (\<lambda>(p, status). (p, verdict status)) rounds \<and> paired m d"
  using assms(2-5)
proof (induction rounds arbitrary: n c)
  case (Cons x rounds)
  obtain p status where x: "x = (p, status)" by fastforce
  have rn: "receive_nonce n \<noteq> UINT64_MAX" and lp: "length p \<le> 1038" "length p \<le> NOISE_IK_MAX_PLAINTEXT"
    using Cons.prems x by (auto intro!: u64_not_max simp: NOISE_IK_MAX_PLAINTEXT_def)
  obtain w d m where "encrypt_packet P p c = (Inr (CMD_ENCRYPTED # w), d)" "length w = length p + 24" and a:
    "encrypt_packet P p c = (Inr (CMD_ENCRYPTED # w), d)"
    "noise_decrypt_packet C (Some w) True NOISE_IK_MAX_PLAINTEXT n = ((True, p), m)" "paired m d"
    "m = n\<lparr>receive_nonce := receive_nonce n + 1\<rparr>"
    by (rule command_arrives [OF assms(1) Cons.prems(1) rn lp(2,1)]) blast
  have sn: "send_nonce m \<noteq> UINT64_MAX" using Cons.prems(4) by (auto simp: a(4) intro!: u64_not_max)
  have "30 \<le> NOISE_IK_TRANSPORT_RESPONSE_LEN" by (simp add: response_len_30)
  then obtain r e k where b: "noise_encrypt_transport_ack C status True NOISE_IK_TRANSPORT_RESPONSE_LEN m = ((True, r), k)"
    "verify_transport_ack P (CMD_ENCRYPTED # r) d = (verdict status, e)" "paired k e"
    "k = m\<lparr>send_nonce := send_nonce m + 1\<rparr>"
    by (rule receipt_arrives [OF assms(1) a(3) sn]) blast
  have "unat (receive_nonce k) = Suc (unat (receive_nonce n))" "unat (send_nonce k) = Suc (unat (send_nonce n))"
    using rn sn by (simp_all add: b(4) a(4) unat_u64_Suc)
  then have "case conversation C P rounds k e of (outcome, m, d) \<Rightarrow>
      outcome = map (\<lambda>(p, status). (p, verdict status)) rounds \<and> paired m d"
    using Cons.IH [OF b(3)] Cons.prems by simp
  then show ?case using a(1,2) b(1,2) x by (simp split: prod.splits)
qed simp

text \<open>The concrete suite on the client's side.\<close>

definition demo_py :: py_crypto where
  "demo_py = \<lparr>py_sha256 = (\<lambda>d. zero_key), py_hmac = (\<lambda>k d. zero_key),
     py_exchange = (\<lambda>a b. Some (demo_add (clamp a) b)), py_public = (\<lambda>a. demo_add (clamp a) basepoint),
     py_encrypt = (\<lambda>k v p ad. p @ demo_tag v),
     py_decrypt = (\<lambda>k v c ad. let m = length c - 16 in if drop m c = demo_tag v then Some (take m c) else None)\<rparr>"

lemma demo_add_nth: "demo_add a b = map (\<lambda>i. a ! i + b ! i) [0..<32]" "length (demo_add a b) = 32"
  "i < 32 \<Longrightarrow> demo_add a b ! i = a ! i + b ! i"
  by (simp_all add: demo_add_def)

lemma length_demo_tag: "length (demo_tag v) = 16"
  by (simp add: demo_tag_def)

lemma demo_same_suite: "same_suite demo_crypto demo_py"
proof -
  have "demo_add (clamp a) (demo_add (clamp b) basepoint) = demo_add (clamp b) (demo_add (clamp a) basepoint)" for a b
    by (rule nth_equalityI) (simp_all add: demo_add_nth(2,3) algebra_simps)
  then show ?thesis
    by (simp add: same_suite_def demo_py_def demo_dh zero_key_split hkdf2_def Let_def demo_add_nth(2) length_demo_tag)
qed

definition demo_device :: noise_ctx where
  "demo_device = zero_ctx\<lparr>controllers_set := True, device_static_pub := py_public demo_py zero_key\<rparr>"

text \<open>A store whose administrator holds the public key of the private key \<open>demo_key\<close>.\<close>

definition peer_store :: controller_store where
  "peer_store = first_store (py_public demo_py demo_key)"

lemma peer_lookup: "store_wf peer_store" "store_lookup peer_store (py_public demo_py demo_key) = Some (0, ROLE_RECOVERY_ADMIN)"
proof -
  have l: "length (py_public demo_py demo_key) = 32" by (simp add: demo_py_def demo_add_nth)
  have "py_public demo_py demo_key ! 1 = 7"
    by (simp add: demo_py_def demo_add_nth(3) clamp_def basepoint_def demo_key_def nth_append)
  moreover have "zero_key ! 1 = 0" by (simp add: zero_key_def)
  ultimately have "py_public demo_py demo_key \<noteq> zero_key" by force
  then show w: "store_wf peer_store" using first_store_wf [OF l] by (simp add: peer_store_def)
  show "store_lookup peer_store (py_public demo_py demo_key) = Some (0, ROLE_RECOVERY_ADMIN)"
    unfolding store_lookup_iff [OF w l] by (simp add: peer_store_def first_store_def ROLE_NONE_def ROLE_RECOVERY_ADMIN_def)
qed

theorem handshake_agreement_witness:
  "\<exists>msg c response m d.
    begin_handshake demo_py [1] (initiator_init demo_py demo_key (py_public demo_py zero_key)) = (Inr msg, c) \<and>
    noise_ik_handshake_respond demo_crypto peer_store (Some ([2], py_public demo_py [2])) (Some msg) True
      NOISE_IK_RESPONSE_LEN demo_device = ((True, response), m) \<and>
    complete_handshake demo_py response c = (Inr (), d) \<and>
    noise_authenticated_slot m = 0 \<and> noise_authenticated_role m = ROLE_RECOVERY_ADMIN \<and> paired m d"
proof (rule handshake_agreement [OF demo_same_suite peer_lookup])
  have x: "py_exchange demo_py a b = Some (demo_add (clamp a) b)" for a b by (simp add: demo_py_def)
  show "py_exchange demo_py [1] (py_public demo_py zero_key) = Some (demo_add (clamp [1]) (py_public demo_py zero_key))"
    "py_exchange demo_py demo_key (py_public demo_py zero_key) = Some (demo_add (clamp demo_key) (py_public demo_py zero_key))"
    "py_exchange demo_py [1] (py_public demo_py [2]) = Some (demo_add (clamp [1]) (py_public demo_py [2]))"
    "py_exchange demo_py demo_key (py_public demo_py [2]) = Some (demo_add (clamp demo_key) (py_public demo_py [2]))"
    by (rule x)+
qed (simp_all add: demo_device_def zero_ctx_def)

definition demo_peer :: initiator where
  "demo_peer = (initiator_init demo_py demo_key zero_key)
     \<lparr>py_send_key := Some zero_key, py_receive_key := Some zero_key\<rparr>"

lemma demo_paired: "paired demo_session demo_peer"
  by (simp add: paired_def demo_session_def zero_ctx_def demo_peer_def initiator_init_def Let_def py_mix_hash_def)

theorem conversation_is_faithful_witness:
  "case conversation demo_crypto demo_py [([1, 2], 0), ([], 3)] demo_session demo_peer of (outcome, m, d) \<Rightarrow>
     outcome = [([1, 2], Inr 0), ([], Inl (DeviceRejected 3))] \<and> paired m d"
proof -
  have "unat (receive_nonce demo_session) = 0" "unat (send_nonce demo_session) = 0"
    by (simp_all add: demo_session_def zero_ctx_def)
  then show ?thesis
    using conversation_is_faithful [OF demo_same_suite demo_paired, of "[([1, 2], 0), ([], 3)]"]
    by (simp add: verdict_def del: conversation.simps split: prod.splits)
qed

end
