(* ===== verification/Device_Machine.thy ===== *)
theory Device_Machine
  imports Device_Commands Noise_Client
begin

section \<open>The device: boot, frames, clock and typing\<close>

text \<open>
  The start of the firmware (\<open>controller_setup\<close> and the first part of \<open>main\<close> in
  firmware/bridge_main.c) and everything that can happen to the device afterwards, as one
  machine. The keys compiled into the image are the record \<open>build_keys\<close>, what the hardware answers
  at boot is \<open>boot_env\<close>.
\<close>

record build_keys =
  recovery_public :: bytes
  initiator_public :: bytes
  device_private :: bytes

record boot_env =
  seed_safe :: bool
  import_safe :: bool
  cyw43_ok :: bool
  usb_ok :: bool

subsection \<open>Boot\<close>

text \<open>The loop over the slots 1 to 4.\<close>

fun daily_slots_empty :: "controller_slot list \<Rightarrow> nat \<Rightarrow> nat \<Rightarrow> bool \<Rightarrow> bool" where
  "daily_slots_empty ss i 0 empty_daily = empty_daily"
| "daily_slots_empty ss i (Suc n) empty_daily =
     daily_slots_empty ss (Suc i) n (if slot_role (ss ! i) \<noteq> ROLE_NONE then False else empty_daily)"

definition controller_setup ::
  "hardware \<Rightarrow> build_keys \<Rightarrow> boot_env \<Rightarrow> flash_mem \<Rightarrow> bool \<times> controller_store \<times> flash_mem" where
  "controller_setup H K B m =
     (case controller_store_flash_boot_or_seed (hw_erase H) (hw_program H) (seed_safe B) (hw_store_base H)
         (Some (recovery_public K)) m of (status, s, m) \<Rightarrow>
       if status \<noteq> CONTROLLER_STORE_OK then (False, s, m)
       else if generation s = 1 \<and> daily_slots_empty (slots s) 1 (CONTROLLER_STORE_SLOT_COUNT - 1) True then
         (case controller_store_add s 0 (initiator_public K) ROLE_ADMIN of (status, s, _) \<Rightarrow>
           if status \<noteq> CONTROLLER_STORE_OK then (False, s, m)
           else (case controller_store_flash_commit (hw_erase H) (hw_program H) (import_safe B)
               (hw_store_base H) (Some s) m of (status, m) \<Rightarrow> (status = CONTROLLER_STORE_OK, s, m)))
       else (True, s, m))"

text \<open>
  \<open>main\<close> up to its loop; \<open>None\<close> is \<open>return 1\<close>. Without the radio chip the Noise context stays
  as the C runtime cleared it.
\<close>

definition device_boot :: "hardware \<Rightarrow> build_keys \<Rightarrow> boot_env \<Rightarrow> flash_mem \<Rightarrow> device option" where
  "device_boot H K B m =
     (case controller_setup H K B m of (ok, s, m) \<Rightarrow>
       if \<not> ok then None
       else if \<not> usb_ok B then None
       else Some \<lparr>core = bridge_core_init, controllers = s, flash = m,
         session = (if cyw43_ok B then snd (noise_ik_init (hw_crypto H) (device_private K) True zero_ctx) else zero_ctx),
         cmd_ack_status = 0, ble_now_ms = 0\<rparr>)"

subsection \<open>The machine\<close>

text \<open>
  A frame from a transport, the clock of the main loop, its call of \<open>bridge_core_tick\<close>, the
  \<open>bridge_core_next\<close> of the USB drain, and the abort of a lost or suspended host.
\<close>

datatype device_op = Frame call_env bytes nat | Clock u32 | Loop_Tick u32 | Type_Next u32 | Host_Abort

datatype device_result = Response bytes | Core_Result core_result | Done

fun device_step :: "hardware \<Rightarrow> device_op \<Rightarrow> device \<Rightarrow> device_result \<times> device" where
  "device_step H (Frame E data cap) d =
     (case command_process_frame H E data cap d of (resp, d) \<Rightarrow> (Response resp, d))"
| "device_step H (Clock now) d = (Done, d\<lparr>ble_now_ms := now\<rparr>)"
| "device_step H (Loop_Tick now) d =
     (case core_step (Op_Tick now) (core d) of (r, c) \<Rightarrow> (Core_Result r, d\<lparr>core := c\<rparr>))"
| "device_step H (Type_Next now) d =
     (case core_step (Op_Next now) (core d) of (r, c) \<Rightarrow> (Core_Result r, d\<lparr>core := c\<rparr>))"
| "device_step H Host_Abort d =
     (case core_step Op_Abort (core d) of (r, c) \<Rightarrow> (Core_Result r, d\<lparr>core := c\<rparr>))"

text \<open>The core call an accepted frame makes.\<close>

definition frame_core_ops :: "hardware \<Rightarrow> bytes \<Rightarrow> device \<Rightarrow> core_op list" where
  "frame_core_ops H data d =
     (case received H data d of None \<Rightarrow> []
      | Some p \<Rightarrow> if p = [] then [] else (case core_call p (ble_now_ms d) of None \<Rightarrow> [] | Some x \<Rightarrow> [x]))"

fun core_ops_of :: "hardware \<Rightarrow> device_op \<Rightarrow> device \<Rightarrow> core_op list" where
  "core_ops_of H (Frame E data cap) d = frame_core_ops H data d"
| "core_ops_of H (Clock now) d = []"
| "core_ops_of H (Loop_Tick now) d = [Op_Tick now]"
| "core_ops_of H (Type_Next now) d = [Op_Next now]"
| "core_ops_of H Host_Abort d = [Op_Abort]"

fun core_calls :: "hardware \<Rightarrow> device_op list \<Rightarrow> device \<Rightarrow> core_op list" where
  "core_calls H [] d = []"
| "core_calls H (x # xs) d = core_ops_of H x d @ core_calls H xs (snd (device_step H x d))"

subsection \<open>Boot establishes the invariant\<close>

lemma boot_or_seed_stored:
  assumes "flash_layout H" and "length key = 32"
    and "controller_store_flash_boot_or_seed (hw_erase H) (hw_program H) safe (hw_store_base H) (Some key) m =
      (CONTROLLER_STORE_OK, s, m')"
  shows "store_wf s \<and> stored H m' s"
proof -
  have hw: "nor_erase (hw_erase H)" "nor_program (hw_program H)" using assms(1) by (simp_all add: flash_layout_def)
  obtain st t where b: "boot_existing (hw_store_base H) m = (st, t)" by fastforce
  show ?thesis
  proof (cases "st = CONTROLLER_STORE_OK")
    case True
    then have "s = t" "m' = m" using assms(3) b by (simp_all add: controller_store_flash_boot_or_seed_def)
    moreover have "store_wf t" using b True decode_record_wf by (auto simp: boot_existing_decode split: option.splits if_splits)
    ultimately show ?thesis using b True by (simp add: stored_def)
  next
    case False
    then have nz: "key \<noteq> zero_key"
      using assms(3) b key_is_zero_iff [OF assms(2)]
      by (auto simp: controller_store_flash_boot_or_seed_def controller_store_initialise_def split: if_splits)
    note wf = first_store_wf [OF assms(2) nz] and i = initialise_first [OF assms(2) nz]
    have "st = CONTROLLER_STORE_OK \<longrightarrow> generation t \<noteq> generation (first_store key)" using False by simp
    note c = commit_outcome [OF hw wf b this]
    obtain cst m1 where e: "controller_store_flash_commit (hw_erase H) (hw_program H) safe (hw_store_base H)
        (Some (first_store key)) m = (cst, m1)" by fastforce
    have "cst = CONTROLLER_STORE_OK" "s = first_store key" "m' = m1"
      using assms(3) False b i e by (auto simp: controller_store_flash_boot_or_seed_def split: if_splits)
    moreover from this have safe using c(2) e by (cases safe) simp_all
    ultimately show ?thesis using wf c(1) e False by (auto simp: stored_def)
  qed
qed

lemma setup_stored:
  assumes "flash_layout H" and "length (recovery_public K) = 32" and "length (initiator_public K) = 32"
    and "controller_setup H K B m = (True, s, m')"
  shows "store_wf s \<and> stored H m' s"
proof -
  obtain st s1 m1 where b: "controller_store_flash_boot_or_seed (hw_erase H) (hw_program H) (seed_safe B) (hw_store_base H)
         (Some (recovery_public K)) m = (st, s1, m1)" by (metis prod_cases3)
  obtain ast s2 i where a: "controller_store_add s1 0 (initiator_public K) ROLE_ADMIN = (ast, s2, i)" by (metis prod_cases3)
  obtain cst m2 where c: "controller_store_flash_commit (hw_erase H) (hw_program H) (import_safe B)
               (hw_store_base H) (Some s2) m1 = (cst, m2)" by fastforce
  have ok: "st = CONTROLLER_STORE_OK" using assms(4) b by (auto simp: controller_setup_def split: if_splits)
  have one: "store_wf s1" "stored H m1 s1" using boot_or_seed_stored [OF assms(1,2)] b ok by blast+
  show ?thesis
  proof (cases "generation s1 = 1 \<and> daily_slots_empty (slots s1) 1 (CONTROLLER_STORE_SLOT_COUNT - 1) True")
    case True
    then have o: "ast = CONTROLLER_STORE_OK" "cst = CONTROLLER_STORE_OK" "s = s2" "m' = m2"
      using assms(4) b ok a c by (auto simp: controller_setup_def split: if_splits)
    have w: "store_wf s2" by (rule add_wf [OF one(1) assms(3) a])
    from a o(1) have "generation s2 = generation s1 + 1" by (rule add_OK) simp
    from commit_stored [OF assms(1) w one(2) this c] show ?thesis using w o by simp
  next
    case False
    then show ?thesis using assms(4) b ok one by (auto simp: controller_setup_def split: if_splits)
  qed
qed

lemma init_not_ready: "\<not> ready (snd (noise_ik_init C priv given zero_ctx))"
  using reset_closes(1) by (simp add: noise_ik_init_def zero_ctx_def Let_def split: option.split)

lemma boot_ok:
  assumes "flash_layout H" and "length (recovery_public K) = 32" and "length (initiator_public K) = 32"
    and "device_boot H K B m = Some d"
  shows "device_ok H d" and "core d = bridge_core_init" and "\<not> ready (session d)"
proof -
  obtain s m1 where s: "controller_setup H K B m = (True, s, m1)"
    and d: "d = \<lparr>core = bridge_core_init, controllers = s, flash = m1,
         session = (if cyw43_ok B then snd (noise_ik_init (hw_crypto H) (device_private K) True zero_ctx) else zero_ctx),
         cmd_ack_status = 0, ble_now_ms = 0\<rparr>"
    using assms(4) by (auto simp: device_boot_def split: prod.splits if_splits)
  show r: "\<not> ready (session d)" using init_not_ready by (simp add: d zero_ctx_def)
  show "core d = bridge_core_init" by (simp add: d)
  show "device_ok H d"
    using setup_stored [OF assms(1-3) s] r by (simp add: device_ok_def session_bound_def core_ok_init d)
qed

subsection \<open>The first boot\<close>

text \<open>A build whose two public keys can be enrolled, a device with erased store sectors, a boot without refused flash access.\<close>

definition fresh_start :: "hardware \<Rightarrow> build_keys \<Rightarrow> boot_env \<Rightarrow> flash_mem \<Rightarrow> bool" where
  "fresh_start H K B m \<longleftrightarrow> flash_layout H \<and> sectors_are_erased (hw_store_base H) m \<and>
     length (recovery_public K) = 32 \<and> length (initiator_public K) = 32 \<and> recovery_public K \<noteq> zero_key \<and>
     initiator_public K \<noteq> zero_key \<and> initiator_public K \<noteq> recovery_public K \<and> seed_safe B \<and> import_safe B"

lemma first_store_nth: "i < 5 \<Longrightarrow> slots (first_store key) ! i =
  (if i = 0 then \<lparr>slot_role = ROLE_RECOVERY_ADMIN, public_key = key\<rparr> else \<lparr>slot_role = ROLE_NONE, public_key = zero_key\<rparr>)"
  by (cases i) (simp_all add: first_store_def)

lemma first_lookup:
  assumes "length key = 32" and "key \<noteq> zero_key" and "length k = 32"
  shows "store_lookup (first_store key) k = (if k = key then Some (0, ROLE_RECOVERY_ADMIN) else None)"
proof -
  have "store_lookup (first_store key) k = Some (i, r) \<longleftrightarrow> i = 0 \<and> r = ROLE_RECOVERY_ADMIN \<and> k = key" for i r
    unfolding store_lookup_iff [OF first_store_wf [OF assms(1,2)] assms(3)] using first_store_nth [of i key]
    by (auto simp: ROLE_NONE_def ROLE_RECOVERY_ADMIN_def split: if_splits)
  then show ?thesis by (metis not_None_eq surj_pair)
qed

lemma first_enrol:
  assumes "length key = 32" and "key \<noteq> zero_key" and "length k = 32" and "k \<noteq> zero_key" and "k \<noteq> key"
  shows "\<exists>t. controller_store_add (first_store key) 0 k ROLE_ADMIN = (CONTROLLER_STORE_OK, t, Some 1) \<and>
    generation t = 2 \<and> store_wf t \<and> store_enrol (first_store key) 0 k ROLE_ADMIN = Some (t, 1)"
proof -
  have f: "fst (controller_store_find (first_store key) k) \<noteq> CONTROLLER_STORE_OK"
    using first_lookup [OF assms(1-3)] assms(5) by (simp add: store_lookup_def controller_store_find_slot split: if_splits)
  have ad: "controller_store_is_admin (first_store key) 0"
    by (simp add: controller_store_is_admin_def first_store_def CONTROLLER_STORE_SLOT_COUNT_def)
  have fr: "free_slot (slots (first_store key)) 1 4 = Some 1"
    using first_store_nth [of 1 key] by (simp add: numeral_eq_Suc)
  have z: "\<not> key_is_zero k" using key_is_zero_iff [OF assms(3)] assms(4) by simp
  obtain t where t: "controller_store_add (first_store key) 0 k ROLE_ADMIN = (CONTROLLER_STORE_OK, t, Some 1)" "generation t = 2"
    using f ad fr z by (simp add: controller_store_add_def CONTROLLER_STORE_SLOT_COUNT_def first_store_def)
  moreover have "store_wf t" by (rule add_wf [OF first_store_wf [OF assms(1,2)] assms(3) t(1)])
  ultimately show ?thesis by (simp add: store_enrol_def)
qed

lemma no_daily_slots:
  "daily_slots_empty (slots (first_store key)) 1 (CONTROLLER_STORE_SLOT_COUNT - 1) True"
  using first_store_nth [of _ key] by (simp add: CONTROLLER_STORE_SLOT_COUNT_def numeral_eq_Suc)

text \<open>The two halves of the first boot: seeding, and importing the first controller into a seeded store.\<close>

lemma fresh_seed:
  assumes "flash_layout H" and "sectors_are_erased (hw_store_base H) m" and "length key = 32" and "key \<noteq> zero_key"
  shows "\<exists>m'. controller_store_flash_boot_or_seed (hw_erase H) (hw_program H) True (hw_store_base H) (Some key) m =
      (CONTROLLER_STORE_OK, first_store key, m') \<and> stored H m' (first_store key)"
proof -
  let ?base = "hw_store_base H"
  have hw: "nor_erase (hw_erase H)" "nor_program (hw_program H)" using assms(1) by (simp_all add: flash_layout_def)
  have b: "boot_existing ?base m = (CONTROLLER_STORE_ERR_FORMAT, controller_store_empty)"
    using assms(2) [unfolded sectors_are_erased_iff] decode_erased [of m ?base] decode_erased [of m "?base + 4096"]
    by (simp add: boot_existing_decode)
  note wf = first_store_wf [OF assms(3,4)] and i = initialise_first [OF assms(3,4)]
  have "CONTROLLER_STORE_ERR_FORMAT = CONTROLLER_STORE_OK \<longrightarrow> generation controller_store_empty \<noteq> generation (first_store key)" by simp
  from commit_outcome(1) [OF hw wf b this] obtain m1 where c:
    "controller_store_flash_commit (hw_erase H) (hw_program H) True ?base (Some (first_store key)) m = (CONTROLLER_STORE_OK, m1)"
    "boot_existing ?base m1 = (CONTROLLER_STORE_OK, first_store key)" by auto
  then show ?thesis using b assms(2) i by (simp add: controller_store_flash_boot_or_seed_def stored_def)
qed

lemma seeded_setup:
  assumes "flash_layout H" and "import_safe B" and "length key = 32" and "key \<noteq> zero_key"
    and "length (initiator_public K) = 32" and "initiator_public K \<noteq> zero_key" and "initiator_public K \<noteq> key"
    and "controller_store_flash_boot_or_seed (hw_erase H) (hw_program H) (seed_safe B) (hw_store_base H) (Some (recovery_public K)) m =
      (CONTROLLER_STORE_OK, first_store key, m1)" and "stored H m1 (first_store key)"
  shows "\<exists>s m'. controller_setup H K B m = (True, s, m') \<and> stored H m' s \<and> store_wf s \<and> generation s = 2 \<and>
    store_enrol (first_store key) 0 (initiator_public K) ROLE_ADMIN = Some (s, 1)"
proof -
  let ?base = "hw_store_base H"
  have hw: "nor_erase (hw_erase H)" "nor_program (hw_program H)" using assms(1) by (simp_all add: flash_layout_def)
  obtain t where t: "controller_store_add (first_store key) 0 (initiator_public K) ROLE_ADMIN = (CONTROLLER_STORE_OK, t, Some 1)"
    "generation t = 2" "store_wf t" "store_enrol (first_store key) 0 (initiator_public K) ROLE_ADMIN = Some (t, 1)"
    using first_enrol [OF assms(3-7)] by blast
  have g: "generation (first_store key) = 1" by (simp add: first_store_def)
  have c: "boot_existing ?base m1 = (CONTROLLER_STORE_OK, first_store key)" using assms(9) by (simp add: stored_def)
  have "CONTROLLER_STORE_OK = CONTROLLER_STORE_OK \<longrightarrow> generation (first_store key) \<noteq> generation t" by (simp add: g t(2))
  from commit_outcome(1) [OF hw t(3) c this] obtain m2 where d:
    "controller_store_flash_commit (hw_erase H) (hw_program H) True ?base (Some t) m1 = (CONTROLLER_STORE_OK, m2)"
    "boot_existing ?base m2 = (CONTROLLER_STORE_OK, t)" using g t(2) by auto
  have "controller_setup H K B m = (True, t, m2)"
    using assms(2,8) g t(1) d(1) no_daily_slots by (simp add: controller_setup_def)
  then show ?thesis using t d(2) by (simp add: stored_def)
qed

lemma fresh_setup:
  assumes "fresh_start H K B m"
  shows "\<exists>s m'. controller_setup H K B m = (True, s, m') \<and> stored H m' s \<and> store_wf s \<and> generation s = 2 \<and>
    store_enrol (first_store (recovery_public K)) 0 (initiator_public K) ROLE_ADMIN = Some (s, 1)"
proof -
  have l: "length (recovery_public K) = 32" "recovery_public K \<noteq> zero_key" "length (initiator_public K) = 32" "initiator_public K \<noteq> zero_key"
    "initiator_public K \<noteq> recovery_public K" and f: "flash_layout H" "import_safe B" "seed_safe B"
    "sectors_are_erased (hw_store_base H) m" using assms by (simp_all add: fresh_start_def)
  obtain m1 where "controller_store_flash_boot_or_seed (hw_erase H) (hw_program H) True (hw_store_base H) (Some (recovery_public K)) m =
      (CONTROLLER_STORE_OK, first_store (recovery_public K), m1)" "stored H m1 (first_store (recovery_public K))"
    using fresh_seed [OF f(1,4) l(1,2)] by blast
  then show ?thesis using seeded_setup [OF f(1,2) l] f(3) by simp
qed

lemma later_setup:
  assumes "stored H m s" and "generation s \<noteq> 1"
  shows "controller_setup H K B m = (True, s, m)"
  using assms by (simp add: controller_setup_def stored_def controller_store_flash_boot_or_seed_def)

subsection \<open>Steps\<close>

definition device_inv :: "hardware \<Rightarrow> device \<Rightarrow> bool" where
  "device_inv H d \<longleftrightarrow> flash_layout H \<and> device_ok H d"

lemma device_ok_core_step: "device_ok H d \<Longrightarrow> device_ok H (d\<lparr>core := snd (core_step x (core d))\<rparr>)"
  by (simp add: device_ok_def core_ok_step)

lemma device_step_core:
  "device_step H (Loop_Tick now) d = (Core_Result (fst (core_step (Op_Tick now) (core d))), d\<lparr>core := snd (core_step (Op_Tick now) (core d))\<rparr>)"
  "device_step H (Type_Next now) d = (Core_Result (fst (core_step (Op_Next now) (core d))), d\<lparr>core := snd (core_step (Op_Next now) (core d))\<rparr>)"
  "device_step H Host_Abort d = (Core_Result (fst (core_step Op_Abort (core d))), d\<lparr>core := snd (core_step Op_Abort (core d))\<rparr>)"
  by (simp_all split: prod.split del: core_step.simps)

lemma device_inv_step: "device_inv H d \<Longrightarrow> device_inv H (snd (device_step H x d))"
proof (cases x)
  case (Frame E data cap)
  assume i: "device_inv H d"
  obtain resp d' where f: "command_process_frame H E data cap d = (resp, d')" by fastforce
  then show ?thesis using i device_ok_frame [of H d E data cap resp d'] by (simp add: device_inv_def Frame)
next
  case (Clock now)
  assume "device_inv H d"
  then show ?thesis by (simp add: device_inv_def device_ok_def Clock)
qed (simp_all add: device_inv_def device_step_core device_ok_core_step del: device_step.simps core_step.simps)

interpretation device: guarded_machine "device_step H" "device_inv H" for H
  by unfold_locales (rule device_inv_step)

text \<open>The core sees exactly the calls in \<open>core_ops_of\<close>, whatever else a step does.\<close>

lemma admin_keeps_core:
  "ble_handle_controller_add H E p d = (st, d') \<Longrightarrow> core d' = core d"
  "ble_handle_controller_revoke H E p d = (st, d') \<Longrightarrow> core d' = core d"
  "ble_handle_set_radio H E p d = (st, d') \<Longrightarrow> core d' = core d"
  "ble_handle_clear_radio H E d = (st, d') \<Longrightarrow> core d' = core d"
  by (auto simp: ble_handle_controller_add_def ble_handle_controller_revoke_def ble_handle_set_radio_def
      ble_handle_clear_radio_def Let_def split: if_splits prod.splits option.splits)

lemma core_call_None: "\<not> is_core_command p \<Longrightarrow> core_call p now = None"
  by (simp add: core_call_def is_core_command_def)

lemma command_session: "bridge_command H E p d = Some (st, d') \<Longrightarrow> session d' = session d"
  by (auto simp: bridge_command_def ble_handle_stage_def ble_handle_confirm_def ble_handle_cancel_def ble_handle_tick_def
      ble_handle_controller_add_def ble_handle_controller_revoke_def ble_handle_set_radio_def ble_handle_clear_radio_def
      Let_def split: if_splits prod.splits option.splits)

lemma command_core:
  assumes "bridge_command H E p d = Some (st, d')"
  shows "core d' = snd (run_ops core_step (case core_call p (ble_now_ms d) of None \<Rightarrow> [] | Some x \<Rightarrow> [x]) (core d))"
  using assms
proof (cases rule: bridge_command_cases)
  case bridge
  then show ?thesis by (auto simp: core_apply_def split: option.splits)
next
  case add
  then show ?thesis using admin_keeps_core(1) [OF add(2)] core_call_None [of p]
    by (simp add: is_core_command_def cmd_codes)
next
  case revoke
  then show ?thesis using admin_keeps_core(2) [OF revoke(2)] core_call_None [of p]
    by (simp add: is_core_command_def cmd_codes)
next
  case set_radio
  then show ?thesis using admin_keeps_core(3) [OF set_radio(2)] core_call_None [of p]
    by (simp add: is_core_command_def cmd_codes)
next
  case clear_radio
  then show ?thesis using admin_keeps_core(4) [OF clear_radio(2)] core_call_None [of p]
    by (simp add: is_core_command_def cmd_codes)
qed

lemma no_bridge_command: "bridge_command H E p d = None \<Longrightarrow> \<not> is_core_command p"
  by (auto simp: bridge_command_def is_core_command_def split: if_splits)

text \<open>An authenticated command that has no status of its own leaves everything but the status byte.\<close>

lemma authenticated_cases:
  assumes "ble_handle_authenticated_command H E p d = (armed, d')"
  obtains (status) st c where "p \<noteq> []" "bridge_command H E p d = Some (st, c)" "armed"
      "d' = c\<lparr>cmd_ack_status := status_code st\<rparr>"
  | (other) b where "p = [] \<or> bridge_command H E p d = None" "d' = d\<lparr>cmd_ack_status := b\<rparr>"
proof (cases "p = [] \<or> bridge_command H E p d = None")
  case True
  then show ?thesis using assms
    by (auto simp: ble_handle_authenticated_command_def split: option.splits prod.splits if_splits intro: other)
next
  case False
  then obtain st c where b: "bridge_command H E p d = Some (st, c)" by fastforce
  then show ?thesis using assms False status [OF _ b]
    by (simp add: ble_handle_authenticated_command_def)
qed

lemma authenticated_core:
  assumes "ble_handle_authenticated_command H E p d = (armed, d')"
  shows "core d' = snd (run_ops core_step (if p = [] then [] else case core_call p (ble_now_ms d) of
    None \<Rightarrow> [] | Some x \<Rightarrow> [x]) (core d))"
  using assms
proof (cases rule: authenticated_cases)
  case (status st c)
  then show ?thesis using command_core [OF status(2)] by simp
next
  case (other b)
  then show ?thesis using core_call_None [OF no_bridge_command] by fastforce
qed

lemma decrypted_long:
  assumes "noise_decrypt_packet C (Some p) True cap n = ((True, x), m)"
  shows "24 \<le> length p"
  using assms by (rule decrypt_cases) simp_all

lemma frame_core:
  assumes "command_process_frame H E data cap d = (resp, d')"
  shows "core d' = snd (run_ops core_step (frame_core_ops H data d) (core d))"
  using assms
proof (cases rule: frame_cases)
  case ignored
  then show ?thesis by (simp add: frame_core_ops_def)
next
  case (handshake ok response n)
  then have "received H data d = None" by (simp add: received_def cmd_codes)
  then show ?thesis using handshake by (simp add: frame_core_ops_def)
next
  case (command plaintext n armed c)
  have "received H data d = Some plaintext"
    using command(1,2) decrypted_long [OF command(2)] by (auto simp: received_iff)
  moreover have "core d' = core c" using command(4) by auto
  ultimately show ?thesis using authenticated_core [OF command(3)] by (simp add: frame_core_ops_def)
qed

subsection \<open>Runs\<close>

abbreviation after_ops :: "hardware \<Rightarrow> device_op list \<Rightarrow> device \<Rightarrow> device" where
  "after_ops H xs d \<equiv> snd (run_ops (device_step H) xs d)"

lemma step_core: "core (snd (device_step H x d)) = snd (run_ops core_step (core_ops_of H x d) (core d))"
proof (cases x)
  case (Frame E data cap)
  obtain resp d' where f: "command_process_frame H E data cap d = (resp, d')" by fastforce
  then show ?thesis using frame_core [OF f] by (simp add: Frame)
qed (simp_all add: device_step_core del: device_step.simps(3-5) core_step.simps)

lemma run_core: "core (after_ops H xs d) = snd (run_ops core_step (core_calls H xs d) (core d))"
  by (induction xs arbitrary: d) (simp_all add: run_ops_append step_core)

lemma one_core_op: "length (core_ops_of H x d) \<le> 1"
  by (cases x) (simp_all add: frame_core_ops_def split: option.split)

fun is_job_call :: "core_op \<Rightarrow> bool" where
  "is_job_call (Op_Stage own ident lay md fl input now ttl) \<longleftrightarrow> True"
| "is_job_call (Op_Confirm own ident now) \<longleftrightarrow> True"
| "is_job_call _ \<longleftrightarrow> False"

text \<open>A frame that was accepted asked for the core call \<open>x\<close>.\<close>

definition commanded :: "hardware \<Rightarrow> bytes \<Rightarrow> device \<Rightarrow> core_op \<Rightarrow> bool" where
  "commanded H data d x \<longleftrightarrow>
     (\<exists>p. received H data d = Some p \<and> p \<noteq> [] \<and> core_call p (ble_now_ms d) = Some x)"

lemma core_ops_of_job:
  assumes "core_ops_of H x d = [c]" and "is_job_call c"
  obtains E data cap where "x = Frame E data cap" "commanded H data d c"
  using assms by (cases x) (auto simp: frame_core_ops_def commanded_def split: option.splits if_splits)

lemma core_calls_origin:
  assumes "core_calls H xs d = as @ c # bs" and "is_job_call c"
  shows "\<exists>ys E data cap zs. xs = ys @ Frame E data cap # zs \<and> core_calls H ys d = as \<and>
    commanded H data (after_ops H ys d) c \<and>
    core_calls H zs (after_ops H (ys @ [Frame E data cap]) d) = bs"
  using assms(1)
proof (induction xs arbitrary: d as)
  case (Cons x xs)
  let ?d = "snd (device_step H x d)"
  show ?case
  proof (cases "\<exists>as'. as = core_ops_of H x d @ as'")
    case True
    then obtain as' where a: "as = core_ops_of H x d @ as'" by blast
    with Cons.prems have "core_calls H xs ?d = as' @ c # bs" by simp
    from Cons.IH [OF this] obtain ys E data cap zs where
      "xs = ys @ Frame E data cap # zs" "core_calls H ys ?d = as'" "commanded H data (after_ops H ys ?d) c"
      "core_calls H zs (after_ops H (ys @ [Frame E data cap]) ?d) = bs" by blast
    then show ?thesis by (intro exI [of _ "x # ys"] exI [of _ E] exI [of _ data] exI [of _ cap] exI [of _ zs])
      (simp add: a del: device_step.simps)
  next
    case False
    then have o: "core_ops_of H x d \<noteq> []" by (metis append_Nil)
    with one_core_op [of H x d] obtain e where e: "core_ops_of H x d = [e]"
      by (cases "core_ops_of H x d") (auto simp: Suc_le_eq)
    have "as = []" using False Cons.prems e by (cases as) simp_all
    with Cons.prems e have c: "core_ops_of H x d = [c]" "core_calls H xs ?d = bs" by simp_all
    from core_ops_of_job [OF c(1) assms(2)] obtain E data cap where "x = Frame E data cap" "commanded H data d c" .
    then show ?thesis using \<open>as = []\<close> c(2)
      by (intro exI [of _ "[]"] exI [of _ E] exI [of _ data] exI [of _ cap] exI [of _ xs]) simp
  qed
qed simp

text \<open>The session of a device in its invariant belongs to a controller enrolled now.\<close>

definition enrolled_session :: "device \<Rightarrow> bool" where
  "enrolled_session d \<longleftrightarrow> ready (session d) \<and> authenticated_slot (session d) < 5 \<and>
     authenticated_role (session d) \<noteq> ROLE_NONE \<and>
     slot_role (slots (controllers d) ! authenticated_slot (session d)) = authenticated_role (session d)"

lemma received_enrolled:
  assumes "device_ok H d" and "received H data d = Some p"
  shows "enrolled_session d"
proof -
  obtain n where "noise_decrypt_packet (hw_crypto H) (Some (drop 1 data)) True NOISE_IK_MAX_PLAINTEXT (session d) = ((True, p), n)"
    using assms(2) by (auto simp: received_iff)
  then have "ready (session d)" by (rule decrypt_cases) simp_all
  then show ?thesis using assms(1) by (simp add: enrolled_session_def device_ok_def session_bound_def)
qed

lemma commanded_enrolled: "device_ok H d \<Longrightarrow> commanded H data d c \<Longrightarrow> enrolled_session d"
  using received_enrolled by (auto simp: commanded_def)

lemma history_calls: "map fst (history_of xs) = xs"
  by (simp add: history_of_def)

lemma device_run_ok: "flash_layout H \<Longrightarrow> device_ok H d \<Longrightarrow> device_ok H (after_ops H xs d)"
  using device.run_keeps [of H d xs] by (simp add: device_inv_def)

text \<open>Power-on with keys of the right size.\<close>

definition powered_on :: "hardware \<Rightarrow> device \<Rightarrow> bool" where
  "powered_on H d \<longleftrightarrow> flash_layout H \<and> (\<exists>K B m. length (recovery_public K) = 32 \<and>
     length (initiator_public K) = 32 \<and> device_boot H K B m = Some d)"

lemma powered_on_ok: "powered_on H d \<Longrightarrow> flash_layout H \<and> device_ok H d \<and> core d = bridge_core_init \<and> \<not> ready (session d)"
  using boot_ok by (auto simp: powered_on_def)

lemma key_was_commanded:
  assumes "powered_on H d" and "fst (device_step H (Type_Next t) (after_ops H xs d)) = Core_Result (BRIDGE_OK, k)"
  shows "\<exists>ys E data cap zs F data' cap' ws own ident lay md fl input since ttl now before rest.
    xs = ys @ Frame E data cap # zs @ Frame F data' cap' # ws \<and>
    commanded H data (after_ops H ys d) (Op_Stage own ident lay md fl input since ttl) \<and>
    enrolled_session (after_ops H ys d) \<and>
    commanded H data' (after_ops H (ys @ Frame E data cap # zs) d) (Op_Confirm own ident now) \<and>
    enrolled_session (after_ops H (ys @ Frame E data cap # zs) d) \<and>
    now - since < ttl \<and> text_keys lay md fl input (before @ k # rest)"
proof -
  note p = powered_on_ok [OF assms(1)]
  let ?cs = "core_calls H xs d"
  have "core (after_ops H xs d) = after_power_up ?cs" using p by (simp add: run_core after_power_up_def)
  then have n: "fst (core_step (Op_Next t) (after_power_up ?cs)) = (BRIDGE_OK, k)"
    using assms(2) by (simp add: device_step_core(2) del: device_step.simps)
  obtain own ident rest where "snd (abs_core (after_power_up ?cs)) = Typing own ident (k # rest)"
    using next_key_typing [OF after_power_up_ok n] .
  then have "job_origin (history_of ?cs) (Typing own ident (k # rest))"
    using core_trace_origin [OF after_power_up_trace, of ?cs] by simp
  then obtain lay md fl input h3 now since ttl h1 h2 where o: "text_keys lay md fl input (keys_out h3 @ k # rest)"
    "now - since < ttl" "history_of ?cs = h1 @ (Op_Stage own ident lay md fl input since ttl, BRIDGE_OK, zero_stroke) # h2
      @ (Op_Confirm own ident now, BRIDGE_OK, zero_stroke) # h3" by (rule job_origin_TypingE) blast
  have cs: "?cs = map fst h1 @ Op_Stage own ident lay md fl input since ttl # map fst h2 @ Op_Confirm own ident now # map fst h3"
    using arg_cong [OF o(3), of "map fst"] by (simp add: history_calls)
  obtain ys E data cap us where a: "xs = ys @ Frame E data cap # us"
    "commanded H data (after_ops H ys d) (Op_Stage own ident lay md fl input since ttl)"
    "core_calls H us (after_ops H (ys @ [Frame E data cap]) d) = map fst h2 @ Op_Confirm own ident now # map fst h3"
    using core_calls_origin [OF cs] by auto
  obtain zs F data' cap' ws where b: "us = zs @ Frame F data' cap' # ws"
    "commanded H data' (after_ops H zs (after_ops H (ys @ [Frame E data cap]) d)) (Op_Confirm own ident now)"
    using core_calls_origin [OF a(3)] by auto
  have e: "after_ops H zs (after_ops H (ys @ [Frame E data cap]) d) = after_ops H (ys @ Frame E data cap # zs) d"
    by (simp add: run_ops_append del: device_step.simps)
  have ok: "device_ok H (after_ops H vs d)" for vs by (rule device_run_ok) (use p in simp_all)
  show ?thesis
    using a(1,2) b(1) b(2) [unfolded e] o(1,2) commanded_enrolled [OF ok a(2)] commanded_enrolled [OF ok b(2) [unfolded e]]
    by (intro exI conjI) (assumption | simp)+
qed

subsection \<open>Properties\<close>

text \<open>C21: the device stays sound. Whatever boots from whatever flash, and whatever frames, clock values,
  typing and aborts follow in any order with any answers of the hardware: the core keeps its invariant,
  the roster is sound and is exactly what the next boot will find in flash, and an open session
  belongs to a controller that is still enrolled with the role it authenticated with.\<close>

theorem device_stays_sound:
  assumes "powered_on H d"
  shows "core_ok (core (after_ops H xs d)) \<and> store_wf (controllers (after_ops H xs d)) \<and>
    boot_existing (hw_store_base H) (flash (after_ops H xs d)) = (CONTROLLER_STORE_OK, controllers (after_ops H xs d)) \<and>
    session_bound (controllers (after_ops H xs d)) (session (after_ops H xs d))"
proof -
  have "device_ok H (after_ops H xs d)" using powered_on_ok [OF assms] device_run_ok by blast
  then show ?thesis by (simp add: device_ok_def stored_def)
qed

text \<open>C20: no key is typed that was not commanded. Every key the device hands to the USB keyboard is the next
  key of a text that an accepted frame staged and a later accepted frame confirmed, within
  the lifetime, for the same owner and identifier; both frames arrived in sessions of controllers
  that were enrolled at that moment.\<close>

theorem typed_keys_were_commanded:
  assumes "powered_on H d" and "fst (device_step H (Type_Next t) (after_ops H xs d)) = Core_Result (BRIDGE_OK, k)"
  shows "\<exists>ys E data cap zs F data' cap' ws own ident lay md fl input since ttl now before rest.
    xs = ys @ Frame E data cap # zs @ Frame F data' cap' # ws \<and>
    commanded H data (after_ops H ys d) (Op_Stage own ident lay md fl input since ttl) \<and>
    enrolled_session (after_ops H ys d) \<and>
    commanded H data' (after_ops H (ys @ Frame E data cap # zs) d) (Op_Confirm own ident now) \<and>
    enrolled_session (after_ops H (ys @ Frame E data cap # zs) d) \<and>
    now - since < ttl \<and> text_keys lay md fl input (before @ k # rest)"
  by (rule key_was_commanded [OF assms])

text \<open>C26: the first boot enrols exactly two controllers, later boots none. On erased store sectors the setup succeeds,
  with the recovery administrator in slot 0 and the compiled-in controller as an
  administrator in slot 1, and nobody else; and from then on setup finds this roster, with any compiled-in keys, and
  writes nothing.\<close>

theorem first_boot_enrols_both:
  assumes "fresh_start H K B m"
  shows "\<exists>s m'. controller_setup H K B m = (True, s, m') \<and>
    (\<forall>k. length k = 32 \<longrightarrow> store_lookup s k =
      (if k = recovery_public K then Some (0, ROLE_RECOVERY_ADMIN)
       else if k = initiator_public K then Some (1, ROLE_ADMIN) else None)) \<and>
    (\<forall>K' B'. controller_setup H K' B' m' = (True, s, m'))"
proof -
  have l: "length (recovery_public K) = 32" "recovery_public K \<noteq> zero_key" "length (initiator_public K) = 32"
    "initiator_public K \<noteq> recovery_public K" using assms by (simp_all add: fresh_start_def)
  obtain s m' where s: "controller_setup H K B m = (True, s, m')" "stored H m' s" "generation s = 2"
    "store_enrol (first_store (recovery_public K)) 0 (initiator_public K) ROLE_ADMIN = Some (s, 1)"
    using fresh_setup [OF assms] by blast
  have "store_lookup s k = (if k = recovery_public K then Some (0, ROLE_RECOVERY_ADMIN)
       else if k = initiator_public K then Some (1, ROLE_ADMIN) else None)" if "length k = 32" for k
    using lookup_after_enrol [OF first_store_wf [OF l(1,2)] l(3) that s(4)] first_lookup [OF l(1,2) that] l(4) by auto
  then show ?thesis using s(1) later_setup [OF s(2)] s(3) by auto
qed

text \<open>C24: a frame that is not a valid packet of the open session does nothing to the keyboard core, the roster
  or the flash, whoever sends it. It gets an answer only if it is a handshake message whose sender
  holds the key of an enrolled controller; and nothing but a handshake message touches the session.\<close>

theorem strangers_are_ignored:
  assumes "store_wf (controllers d)" and "command_process_frame H E data cap d = (resp, d')" and "received H data d = None"
  shows "d' = d\<lparr>session := session d'\<rparr> \<and>
    (session d' \<noteq> session d \<longrightarrow> data ! 0 = BLE_CMD_NOISE \<and> length data = 81) \<and>
    (resp \<noteq> [] \<longrightarrow> noise_is_ready (session d') \<and>
      (\<exists>k. claimed_static (hw_crypto H) (device_static_priv (session d)) (device_static_pub (session d)) (drop 1 data) = Some k \<and>
         store_lookup (controllers d) k = Some (noise_authenticated_slot (session d'), noise_authenticated_role (session d'))))"
  using assms(2)
proof (cases rule: frame_cases)
  case (handshake ok response n)
  show ?thesis
  proof (cases ok)
    case True
    from handshake(3) show ?thesis
    proof (cases rule: respond_cases)
      case opened
      show ?thesis
        by (rule opened_session [OF assms(1) _ opened(5)]) (use handshake in \<open>auto simp: session_defs\<close>)
    qed (use True in simp_all)
  qed (use handshake in simp)
next
  case (command plaintext n armed c)
  then have "received H data d = Some plaintext" using decrypted_long [OF command(2)] by (auto simp: received_iff)
  then show ?thesis using assms(3) by simp
qed simp

lemma commit_outside:
  assumes "nor_erase er" and "nor_program pr" and "store_wf t"
    and "controller_store_flash_commit er pr safe base (Some t) m = (st, m')" and "a < base \<or> base + 8192 \<le> a"
  shows "m' a = m a"
proof -
  note img = sector_image_props [OF assms(3)]
  have "a < commit_target base m \<or> commit_target base m + 4096 \<le> a"
    using commit_target_cases [of base m] assms(5) by auto
  then have "program_sector er pr (commit_target base m) (sector_image t) m a = m a"
    unfolding program_sector_def by (intro fold_misses [OF assms(1,2)] ballI sector_cmds_miss [OF img(1)])
  then show ?thesis using assms(4) img(2)
    by (auto simp: controller_store_flash_commit_def Let_def split: prod.splits if_splits)
qed

text \<open>What one bridge command may do to roster and flash.\<close>

definition administrative :: "hardware \<Rightarrow> call_env \<Rightarrow> bytes \<Rightarrow> device \<Rightarrow> device \<Rightarrow> bool" where
  "administrative H E p d d' \<longleftrightarrow> is_admin_session d \<and>
     ((p ! 0 = BLE_CMD_CONTROLLER_ADD \<or> p ! 0 = BLE_CMD_CONTROLLER_REVOKE) \<and>
        (\<forall>a. a < hw_store_base H \<or> hw_store_base H + 8192 \<le> a \<longrightarrow> flash d' a = flash d a) \<or>
      (p ! 0 = BLE_CMD_SET_RADIO \<or> p ! 0 = BLE_CMD_CLEAR_RADIO) \<and> \<not> env_mounted E \<and> controllers d' = controllers d \<and>
        (\<forall>a. a < hw_radio_off H \<or> hw_radio_off H + 4096 \<le> a \<longrightarrow> flash d' a = flash d a))"

lemma command_admin:
  assumes "flash_layout H" and "device_ok H d" and "bridge_command H E p d = Some (st, d')"
    and "controllers d' \<noteq> controllers d \<or> flash d' \<noteq> flash d"
  shows "administrative H E p d d'"
  using assms(3)
proof (cases rule: bridge_command_cases)
  case bridge
  then show ?thesis using assms(4) by (auto simp: core_apply_def split: option.splits)
next
  case add
  from add(2) show ?thesis
  proof (cases rule: add_command_cases)
    case (attempted t i st' m)
    have w: "store_wf t" using assms(2) attempted(2) by (intro add_wf [OF _ _ attempted(3)]) (simp_all add: device_ok_def)
    have "flash d' = m" using attempted(5) by (auto split: if_splits)
    then show ?thesis using assms(1) attempted(1) add(1) commit_outside [OF _ _ w attempted(4)]
      by (simp add: administrative_def flash_layout_def)
  qed (use assms(4) in simp)
next
  case revoke
  from revoke(2) show ?thesis
  proof (cases rule: revoke_command_cases)
    case (attempted t st' m)
    have w: "store_wf t" using assms(2) by (intro revoke_wf [OF _ attempted(4)]) (simp add: device_ok_def)
    have "flash d' = m" using attempted(6) by (auto split: if_splits)
    then show ?thesis using assms(1) attempted(1) revoke(1) commit_outside [OF _ _ w attempted(5)]
      by (simp add: administrative_def flash_layout_def)
  qed (use assms(4) in simp)
next
  case set_radio
  then show ?thesis using set_radio_effect [OF assms(1) set_radio(2)] assms(4)
    by (auto simp: administrative_def radio_effect_def)
next
  case clear_radio
  then show ?thesis using clear_radio_effect [OF assms(1) clear_radio(2)] assms(4)
    by (auto simp: administrative_def radio_effect_def)
qed

text \<open>C23: only an administrator administers. If a frame changes the roster or the flash, it was a valid packet of
  a session that belongs to an administrator, holding an enrolment or a revocation, which
  write only the two store sectors, or a change of the Wi-Fi credentials, which happens only while no USB host is
  mounted, writes only their sector and leaves the roster alone.\<close>

theorem only_administrators_write:
  assumes "flash_layout H" and "device_ok H d" and "command_process_frame H E data cap d = (resp, d')"
    and "controllers d' \<noteq> controllers d \<or> flash d' \<noteq> flash d"
  shows "\<exists>p. received H data d = Some p \<and> administrative H E p d d'"
  using assms(3)
proof (cases rule: frame_cases)
  case (command plaintext n armed c)
  let ?d = "d\<lparr>session := n\<rparr>"
  have r: "received H data d = Some plaintext"
    using command(1,2) decrypted_long [OF command(2)] by (auto simp: received_iff)
  have ok: "device_ok H ?d" using assms(2) session_bound_transport(1) [OF command(2)] by (simp add: device_ok_def)
  have adm: "is_admin_session ?d \<longleftrightarrow> is_admin_session d"
    using command(2) by (rule decrypt_cases) (auto simp: is_admin_session_def noise_authenticated_slot_def)
  have e: "controllers d' = controllers c" "flash d' = flash c" using command(4) by auto
  from command(3) show ?thesis
  proof (cases rule: authenticated_cases)
    case (status st b)
    have "administrative H E plaintext ?d b"
      using command_admin [OF assms(1) ok status(2)] assms(4) e status(4) by simp
    then show ?thesis using r adm e status(4) by (auto simp: administrative_def)
  qed (use assms(4) e in simp)
qed (use assms(4) in simp_all)

text \<open>C22: revocation takes effect at once and for good. After a revocation that answered success the key of the
  slot is unknown, also to the next boot; no session of it is open, no handshake with it succeeds;
  every other controller is where it was.\<close>

theorem revocation_is_final:
  assumes "flash_layout H" and "device_ok H d" and "bridge_command H E p d = Some (BRIDGE_OK, d')"
    and "p ! 0 = BLE_CMD_CONTROLLER_REVOKE" and "length k = 32" and "store_lookup (controllers d) k = Some (unat (p ! 1), r)"
  shows "store_lookup (controllers d') k = None \<and>
    boot_existing (hw_store_base H) (flash d') = (CONTROLLER_STORE_OK, controllers d') \<and>
    noise_authenticated_slot (session d') \<noteq> unat (p ! 1) \<and>
    (length msg = 80 \<and> claimed_static (hw_crypto H) (device_static_priv (session d')) (device_static_pub (session d')) msg = Some k
      \<longrightarrow> \<not> fst (fst (noise_ik_handshake_respond (hw_crypto H) (controllers d') gen (Some msg) out cap (session d')))) \<and>
    (length k' = 32 \<and> k' \<noteq> k \<longrightarrow> store_lookup (controllers d') k' = store_lookup (controllers d) k')"
proof -
  have h: "ble_handle_controller_revoke H E p d = (BRIDGE_OK, d')"
    using assms(3,4) by (simp add: bridge_command_def cmd_codes)
  have ok: "device_ok H d'" by (rule device_ok_command [OF assms(1-3)])
  have w: "store_wf (controllers d)" "store_wf (controllers d')" using assms(2) ok by (simp_all add: device_ok_def)
  from h show ?thesis
  proof (cases rule: revoke_command_cases)
    case (attempted t st' m)
    have d': "controllers d' = t" "session d' = session d" using attempted(6) by (auto split: if_splits)
    have t: "store_revoke (controllers d) (noise_authenticated_slot (session d)) (unat (p ! 1)) = Some t"
      using attempted(4) by (simp add: store_revoke_def)
    have none: "store_lookup (controllers d') k = None"
      unfolding d' by (rule controllers.revoked_is_unknown [OF w(1) assms(5,6) t])
    moreover have "\<not> fst (fst (noise_ik_handshake_respond (hw_crypto H) (controllers d') gen (Some msg) out cap (session d')))"
      if m: "length msg = 80" "claimed_static (hw_crypto H) (device_static_priv (session d')) (device_static_pub (session d')) msg = Some k"
    proof
      obtain oko response n where e: "noise_ik_handshake_respond (hw_crypto H) (controllers d') gen (Some msg) out cap (session d') =
        ((oko, response), n)" by (metis prod.collapse)
      assume "fst (fst (noise_ik_handshake_respond (hw_crypto H) (controllers d') gen (Some msg) out cap (session d')))"
      with e have oko by simp
      from e show False
      proof (cases rule: respond_cases)
        case opened
        show False by (rule opened_session [OF w(2) m(1) opened(5)]) (use m(2) none in simp)
      qed (use \<open>oko\<close> in simp_all)
    qed
    moreover have "store_lookup (controllers d') k' = store_lookup (controllers d) k'" if "length k' = 32" "k' \<noteq> k"
    proof -
      have "j \<noteq> unat (p ! 1)" if "store_lookup (controllers d) k' = Some (j, r')" for j r'
        using controllers.slot_one_key [OF w(1) assms(5) \<open>length k' = 32\<close> assms(6)] that \<open>k' \<noteq> k\<close> by blast
      then show ?thesis unfolding d' controllers.lookup_revoke [OF w(1) \<open>length k' = 32\<close> t] by (auto split: option.split)
    qed
    moreover have "boot_existing (hw_store_base H) (flash d') = (CONTROLLER_STORE_OK, controllers d')"
      using ok by (simp add: device_ok_def stored_def)
    moreover have "noise_authenticated_slot (session d') \<noteq> unat (p ! 1)" using attempted(3) d'(2) by simp
    ultimately show ?thesis by blast
  qed simp
qed

text \<open>C25: the receipt tells the client what happened. When a client whose ends are paired with the device sends a
  bridge command, the device executes exactly that command, and the client
  accepts the answer as the receipt of that execution's status: success exactly when the
  command succeeded, otherwise its error code. The ends stay paired.\<close>

theorem receipts_tell_what_happened:
  assumes "same_suite (hw_crypto H) P" and "paired (session d) c"
    and "receive_nonce (session d) \<noteq> UINT64_MAX" and "send_nonce (session d) \<noteq> UINT64_MAX"
    and "p \<noteq> []" and "length p \<le> 1038"
    and "bridge_command H E p (d\<lparr>session := (session d)\<lparr>receive_nonce := receive_nonce (session d) + 1\<rparr>\<rparr>) = Some (st, e)"
  shows "\<exists>packet c1 resp d' c2. encrypt_packet P p c = (Inr packet, c1) \<and>
    command_process_frame H E packet BRIDGE_TRANSPORT_RESPONSE_MAX d = (resp, d') \<and>
    d' = e\<lparr>cmd_ack_status := status_code st, session := session d'\<rparr> \<and>
    verify_transport_ack P resp c1 = (if st = BRIDGE_OK then Inr 0 else Inl (DeviceRejected (status_code st)), c2) \<and>
    paired (session d') c2"
proof -
  have "length p \<le> NOISE_IK_MAX_PLAINTEXT" using assms(6) by (simp add: NOISE_IK_MAX_PLAINTEXT_def)
  then obtain w c1 m where "encrypt_packet P p c = (Inr (CMD_ENCRYPTED # w), c1)" "length w = length p + 24"
    and a: "encrypt_packet P p c = (Inr (CMD_ENCRYPTED # w), c1)" "length w = length p + 24"
    "noise_decrypt_packet (hw_crypto H) (Some w) True NOISE_IK_MAX_PLAINTEXT (session d) = ((True, p), m)" "paired m c1"
    "m = (session d)\<lparr>receive_nonce := receive_nonce (session d) + 1\<rparr>"
    by (rule command_arrives [OF assms(1,2,3) _ assms(6)]) blast
  have "send_nonce m \<noteq> UINT64_MAX" and "30 \<le> (53 :: nat)" using assms(4) a(5) by simp_all
  then obtain x c2 k where b: "noise_encrypt_transport_ack (hw_crypto H) (status_code st) True 53 m = ((True, x), k)"
    "verify_transport_ack P (CMD_ENCRYPTED # x) c1 = (verdict (status_code st), c2)" "paired k c2"
    by (rule receipt_arrives [OF assms(1) a(4)]) blast
  have cap: "BRIDGE_TRANSPORT_RESPONSE_MAX - Suc 0 = 53" by (simp add: BRIDGE_TRANSPORT_RESPONSE_MAX_def NOISE_IK_RESPONSE_LEN_def)
  have code: "CMD_ENCRYPTED = BLE_CMD_ENCRYPTED" "BLE_CMD_ENCRYPTED \<noteq> BLE_CMD_NOISE" by (simp_all add: CMD_ENCRYPTED_def cmd_codes)
  have "ble_handle_authenticated_command H E p (d\<lparr>session := m\<rparr>) = (True, e\<lparr>cmd_ack_status := status_code st\<rparr>)"
    using assms(5,7) by (simp add: ble_handle_authenticated_command_def a(5))
  then have "command_process_frame H E (CMD_ENCRYPTED # w) BRIDGE_TRANSPORT_RESPONSE_MAX d =
      (CMD_ENCRYPTED # x, e\<lparr>cmd_ack_status := status_code st, session := k\<rparr>)"
    using a(2,3) b(1) code command_session [OF assms(7)] a(5) by (cases w) (simp_all add: command_process_frame_def cap)
  moreover have "verdict (status_code st) = (if st = BRIDGE_OK then Inr 0 else Inl (DeviceRejected (status_code st)))"
    by (cases st) (simp_all add: verdict_def)
  ultimately show ?thesis using a(1) b(2,3) by auto
qed

text \<open>A stage command reads nothing outside its packet. Whatever bytes follow the packet in memory, and
  whatever its 16-bit length field says, also where the header length added to it wraps around, the core gets the
  same answer.\<close>

lemma stage_command_reads_within_packet:
  assumes "14 \<le> length p" and "unat (14 + le16_at p 12) \<le> length p"
  shows "bridge_core_stage (core d) own ident lay md fl (Some (drop 14 p @ memory)) (unat (le16_at p 12)) now ttl =
    bridge_core_stage (core d) own ident lay md fl (Some (drop 14 p)) (unat (le16_at p 12)) now ttl"
proof -
  let ?n = "unat (le16_at p 12)"
  have h: "?n \<le> length (drop 14 p) \<or> BRIDGE_MAX_INPUT_BYTES < ?n" using stage_length_wrap [OF assms] by simp
  show ?thesis
  proof (cases "?n \<le> length (drop 14 p)")
    case True
    then show ?thesis using stage_as_op [of ?n "drop 14 p"] stage_as_op [of ?n "drop 14 p @ memory"] by simp
  next
    case False
    then have "BRIDGE_MAX_INPUT_BYTES < ?n" using h by simp
    then show ?thesis by (simp add: bridge_core_stage_def Let_def)
  qed
qed

subsection \<open>A concrete run\<close>

text \<open>
  A fresh device whose recovery administrator is \<open>demo_key\<close>: a handshake, a stage command for the
  text \<^verbatim>\<open>aA\<close> and its confirmation.
\<close>

definition demo_hw :: hardware where
  "demo_hw = \<lparr>hw_erase = demo_erase, hw_program = demo_program, hw_store_base = 4096, hw_radio_off = 0, hw_crypto = demo_crypto\<rparr>"

definition demo_build :: build_keys where
  "demo_build = \<lparr>recovery_public = demo_key, initiator_public = replicate 32 9, device_private = zero_key\<rparr>"

definition demo_power :: boot_env where
  "demo_power = \<lparr>seed_safe = True, import_safe = True, cyw43_ok = True, usb_ok = True\<rparr>"

definition demo_env :: call_env where
  "demo_env = \<lparr>env_flash_safe = True, env_mounted = False, env_keypair = Some (replicate 32 7, replicate 32 8), env_net = None\<rparr>"

definition demo_unit :: device where
  "demo_unit = the (device_boot demo_hw demo_build demo_power blank_flash)"

lemma demo_fresh: "fresh_start demo_hw demo_build demo_power blank_flash"
proof -
  have "demo_key ! 0 = 7" "zero_key ! 0 = 0" "replicate 32 (9 :: u8) ! 0 = 9" by (simp_all add: demo_key_def zero_key_def)
  then have "replicate 32 9 \<noteq> zero_key" "replicate 32 9 \<noteq> demo_key" by force+
  then show ?thesis using demo_key_props demo_hardware
    by (simp add: fresh_start_def flash_layout_def demo_hw_def demo_build_def demo_power_def sectors_are_erased_iff blank_flash_def)
qed

lemma demo_unit_boot:
  "device_boot demo_hw demo_build demo_power blank_flash = Some demo_unit" "powered_on demo_hw demo_unit"
  "store_lookup (controllers demo_unit) demo_key = Some (0, ROLE_RECOVERY_ADMIN)"
  "store_lookup (controllers demo_unit) (replicate 32 9) = Some (1, ROLE_ADMIN)" "generation (controllers demo_unit) = 2"
  "controllers_set (session demo_unit)" "length (device_static_pub (session demo_unit)) = 32" "ble_now_ms demo_unit = 0"
proof -
  obtain s m where s: "controller_setup demo_hw demo_build demo_power blank_flash = (True, s, m)" "store_wf s"
    "store_enrol (first_store demo_key) 0 (replicate 32 9) ROLE_ADMIN = Some (s, 1)" "generation s = 2"
    using fresh_setup [OF demo_fresh] by (auto simp: demo_build_def)
  let ?n = "snd (noise_ik_init demo_crypto zero_key True zero_ctx)"
  have b: "device_boot demo_hw demo_build demo_power blank_flash = Some \<lparr>core = bridge_core_init, controllers = s, flash = m,
      session = ?n, cmd_ack_status = 0, ble_now_ms = 0\<rparr>"
    using s(1) by (simp add: device_boot_def demo_power_def) (simp add: demo_hw_def demo_build_def)
  then have u: "demo_unit = \<lparr>core = bridge_core_init, controllers = s, flash = m, session = ?n, cmd_ack_status = 0, ble_now_ms = 0\<rparr>"
    by (simp add: demo_unit_def)
  show d: "device_boot demo_hw demo_build demo_power blank_flash = Some demo_unit" using b u by simp
  show "powered_on demo_hw demo_unit" using d demo_fresh by (auto simp: powered_on_def fresh_start_def)
  have n: "?n = (snd (reset_handshake_state demo_crypto (zero_ctx\<lparr>controllers_set := True, device_static_priv := zero_key,
      device_static_pub := demo_add (clamp zero_key) basepoint\<rparr>)))"
    by (simp add: noise_ik_init_def Let_def demo_dh)
  then show "controllers_set (session demo_unit)" "length (device_static_pub (session demo_unit)) = 32"
    by (simp_all add: u reset_handshake_state_def Let_def demo_mix demo_add_nth(2))
  show "ble_now_ms demo_unit = 0" by (simp add: u)
  have "store_lookup s demo_key = store_lookup (first_store demo_key) demo_key"
    using lookup_after_enrol [OF first_store_wf [OF demo_key_props] _ demo_key_props(1) s(3)] demo_fresh
    by (auto simp: fresh_start_def demo_build_def)
  then show "store_lookup (controllers demo_unit) demo_key = Some (0, ROLE_RECOVERY_ADMIN)"
    using first_lookup [OF demo_key_props demo_key_props(1)] by (simp add: u)
  show "store_lookup (controllers demo_unit) (replicate 32 9) = Some (1, ROLE_ADMIN)"
    using lookup_after_enrol [OF first_store_wf [OF demo_key_props] _ _ s(3)] by (simp add: u)
  show "generation (controllers demo_unit) = 2" using s(4) by (simp add: u)
qed

definition demo_hello_frame :: bytes where "demo_hello_frame = BLE_CMD_NOISE # demo_hello"

definition demo_online :: device where
  "demo_online = snd (device_step demo_hw (Frame demo_env demo_hello_frame BRIDGE_TRANSPORT_RESPONSE_MAX) demo_unit)"

lemma demo_frame_cap: "BRIDGE_TRANSPORT_RESPONSE_MAX - 1 = 53" "BRIDGE_TRANSPORT_RESPONSE_MAX - Suc 0 = 53"
  by (simp_all add: BRIDGE_TRANSPORT_RESPONSE_MAX_def NOISE_IK_RESPONSE_LEN_def)

lemma demo_goes_online:
  "ready (session demo_online)" "receive_nonce (session demo_online) = 0" "send_nonce (session demo_online) = 0"
  "ble_now_ms demo_online = 0" "authenticated_slot (session demo_online) = 0" "controllers demo_online = controllers demo_unit"
  "\<exists>resp. command_process_frame demo_hw demo_env demo_hello_frame BRIDGE_TRANSPORT_RESPONSE_MAX demo_unit = (resp, demo_online) \<and> resp \<noteq> []"
  "\<exists>n. demo_online = demo_unit\<lparr>session := n\<rparr>"
proof -
  have w: "store_wf (controllers demo_unit)" using powered_on_ok [OF demo_unit_boot(2)] by (simp add: device_ok_def)
  note u = demo_unit_boot
  have hw: "hw_crypto demo_hw = demo_crypto" by (simp add: demo_hw_def)
  obtain x m where h: "noise_ik_handshake_respond demo_crypto (controllers demo_unit) (Some (replicate 32 7, replicate 32 8))
      (Some demo_hello) True 53 (session demo_unit) = ((True, x), m)"
    using demo_opens [OF w u(3,6)] u(7) by auto
  from h obtain e: "length demo_hello = 80"
    "handshake_steps demo_crypto (controllers demo_unit) (Some (replicate 32 7, replicate 32 8)) demo_hello (session demo_unit) = (Some x, m)"
    by (cases rule: respond_cases) simp_all
  have o: "ready m \<and> receive_nonce m = 0 \<and> send_nonce m = 0 \<and> length x = 53 \<and> store_lookup (controllers demo_unit) demo_key =
      Some (authenticated_slot m, authenticated_role m)"
    by (rule opened_session [OF w e(1,2)])
      (use u(7) in \<open>simp add: claimed_static_def demo_dh demo_hello_parts zero_key_split zero_nonce zero_tag demo_hello_def demo_key_def\<close>)
  have f: "command_process_frame demo_hw demo_env demo_hello_frame BRIDGE_TRANSPORT_RESPONSE_MAX demo_unit =
      (BLE_CMD_NOISE # x, demo_unit\<lparr>session := m\<rparr>)"
    using h o e(1) by (simp add: command_process_frame_def demo_hello_frame_def demo_frame_cap hw demo_env_def
      NOISE_IK_INIT_MESSAGE_LEN_def NOISE_IK_RESPONSE_LEN_def)
  then have d: "demo_online = demo_unit\<lparr>session := m\<rparr>" by (simp add: demo_online_def)
  show "ready (session demo_online)" "receive_nonce (session demo_online) = 0" "send_nonce (session demo_online) = 0"
    "ble_now_ms demo_online = 0" "authenticated_slot (session demo_online) = 0" "controllers demo_online = controllers demo_unit"
    using o u(3,8) by (simp_all add: d)
  show "\<exists>resp. command_process_frame demo_hw demo_env demo_hello_frame BRIDGE_TRANSPORT_RESPONSE_MAX demo_unit = (resp, demo_online) \<and> resp \<noteq> []"
    using f d by simp
  show "\<exists>n. demo_online = demo_unit\<lparr>session := n\<rparr>" using d by blast
qed

text \<open>A command frame with the next counter is accepted, and the session is ready for the next one.\<close>

definition demo_command :: "u64 \<Rightarrow> bytes \<Rightarrow> device_op" where
  "demo_command v p = Frame demo_env (BLE_CMD_ENCRYPTED # demo_sealed v p) BRIDGE_TRANSPORT_RESPONSE_MAX"

lemma demo_received:
  assumes "ready (session d)" and "receive_nonce (session d) = v" and "v \<noteq> UINT64_MAX" and "length p \<le> 1038"
  shows "received demo_hw (BLE_CMD_ENCRYPTED # demo_sealed v p) d = Some p"
proof -
  have "le64_bytes v \<noteq> []" using length_le64_bytes [of v] by (metis list.size(3) zero_neq_numeral)
  then show ?thesis using demo_unseals [OF assms] by (simp add: received_iff demo_hw_def) (simp add: demo_sealed_def)
qed

lemma demo_accepts:
  assumes "ready (session d)" and "receive_nonce (session d) = v" and "v \<noteq> UINT64_MAX" and "length p \<le> 1038"
  defines "d' \<equiv> snd (device_step demo_hw (demo_command v p) d)"
  shows "ready (session d') \<and> receive_nonce (session d') = v + 1 \<and> authenticated_slot (session d') = authenticated_slot (session d)"
proof -
  obtain resp where f: "command_process_frame demo_hw demo_env (BLE_CMD_ENCRYPTED # demo_sealed v p)
      BRIDGE_TRANSPORT_RESPONSE_MAX d = (resp, d')"
    by (cases "command_process_frame demo_hw demo_env (BLE_CMD_ENCRYPTED # demo_sealed v p) BRIDGE_TRANSPORT_RESPONSE_MAX d")
      (simp add: d'_def demo_command_def)
  note u = demo_unseals [OF assms(1-4)]
  from f show ?thesis
  proof (cases rule: frame_cases)
    case ignored
    then show ?thesis using demo_received [OF assms(1-4)] by simp
  next
    case (handshake ok response n)
    then show ?thesis by (simp add: cmd_codes)
  next
    case (command plaintext n armed c)
    have n: "n = (session d)\<lparr>receive_nonce := v + 1\<rparr>" using command(2) u by (simp add: demo_hw_def)
    have c: "session c = n" using command(3)
      by (rule authenticated_cases) (use command_session in force)+
    show ?thesis using command(4) assms(1) n c
      by (auto elim!: encrypt_ack_cases)
  qed
qed

definition demo_stage_packet :: bytes where
  "demo_stage_packet = [1, 1, 0, 0, 0, 7, 0, 0, 0, 1, 2, 0, 2, 0, 0x61, 0x41]"
definition demo_confirm_packet :: bytes where
  "demo_confirm_packet = [2, 1, 0, 0, 0, 7, 0, 0, 0]"

lemma demo_core_calls:
  "core_call demo_stage_packet 5 = Some (Op_Stage 1 7 BRIDGE_LAYOUT_US BRIDGE_MODE_TEXT 0 [0x61, 0x41] 5 15000)"
  "core_call demo_confirm_packet 900 = Some (Op_Confirm 1 7 900)"
  by (simp_all add: core_call_def demo_stage_packet_def demo_confirm_packet_def cmd_codes le32_at_def le16_at_def
      stage_text_def BRIDGE_TTL_MS_def BRIDGE_MAX_TTL_MS_def Let_def)

definition demo_session_ops :: "device_op list" where
  "demo_session_ops = [Frame demo_env demo_hello_frame BRIDGE_TRANSPORT_RESPONSE_MAX, Clock 5,
     demo_command 0 demo_stage_packet, Clock 900, demo_command 1 demo_confirm_packet]"

lemma frame_keeps_clock: "command_process_frame H E data cap d = (resp, d') \<Longrightarrow> ble_now_ms d' = ble_now_ms d"
proof (erule frame_cases)
  fix plaintext n armed c
  assume a: "ble_handle_authenticated_command H E plaintext (d\<lparr>session := n\<rparr>) = (armed, c)"
    and b: "\<not> armed \<and> resp = [] \<and> d' = c \<or>
       armed \<and> (\<exists>ok receipt k. noise_encrypt_transport_ack (hw_crypto H) (cmd_ack_status c) True (cap - 1) (session c) =
         ((ok, receipt), k) \<and> d' = c\<lparr>session := k\<rparr> \<and> resp = (if ok then BLE_CMD_ENCRYPTED # receipt else []))"
  have "ble_now_ms e = ble_now_ms f" if "bridge_command H E p f = Some (st, e)" for e f p st
    using that by (auto simp: bridge_command_def ble_handle_stage_def ble_handle_confirm_def ble_handle_cancel_def ble_handle_tick_def
      ble_handle_controller_add_def ble_handle_controller_revoke_def ble_handle_set_radio_def ble_handle_clear_radio_def
      Let_def split: if_splits prod.splits option.splits)
  with a have "ble_now_ms c = ble_now_ms d" by (cases rule: authenticated_cases) force+
  then show ?thesis using b by auto
qed simp_all

lemma demo_core_calls_of_run:
  "core_calls demo_hw demo_session_ops demo_unit =
     [Op_Stage 1 7 BRIDGE_LAYOUT_US BRIDGE_MODE_TEXT 0 [0x61, 0x41] 5 15000, Op_Confirm 1 7 900]"
proof -
  let ?d1 = "demo_online\<lparr>ble_now_ms := 5\<rparr>" and ?s = "demo_command 0 demo_stage_packet"
  let ?d2 = "(snd (device_step demo_hw ?s ?d1))\<lparr>ble_now_ms := 900\<rparr>"
  have m: "(0 :: u64) \<noteq> UINT64_MAX" "(1 :: u64) \<noteq> UINT64_MAX" by (simp_all add: UINT64_MAX_def)
  have l: "length demo_stage_packet \<le> 1038" "length demo_confirm_packet \<le> 1038"
    "demo_stage_packet \<noteq> []" "demo_confirm_packet \<noteq> []" by (simp_all add: demo_stage_packet_def demo_confirm_packet_def)
  have r1: "ready (session ?d1)" "receive_nonce (session ?d1) = 0" using demo_goes_online(1,2) by simp_all
  have r2: "ready (session ?d2)" "receive_nonce (session ?d2) = 1"
    using demo_accepts [OF r1 m(1) l(1)] by simp_all
  have h: "received demo_hw demo_hello_frame demo_unit = None"
    by (simp add: received_def demo_hello_frame_def cmd_codes)
  show ?thesis
    unfolding demo_session_ops_def core_calls.simps demo_online_def [symmetric]
    using demo_received [OF r1 m(1) l(1)] demo_received [OF r2 m(2) l(2)] h l(3,4) demo_core_calls
    by (simp add: demo_command_def frame_core_ops_def del: device_step.simps(1))
qed

lemma demo_run_types:
  "fst (device_step demo_hw (Type_Next 901) (after_ops demo_hw demo_session_ops demo_unit)) =
     Core_Result (BRIDGE_OK, \<lparr>modifier = 0, usage = 4\<rparr>)"
proof -
  have "core (after_ops demo_hw demo_session_ops demo_unit) = after_power_up demo_calls"
    using powered_on_ok [OF demo_unit_boot(2)] demo_core_calls_of_run by (simp add: run_core after_power_up_def demo_calls_def)
  then show ?thesis using demo_next by (simp add: device_step_core(2) del: device_step.simps core_step.simps)
qed

theorem first_boot_enrols_both_witness:
  "\<exists>s m'. controller_setup demo_hw demo_build demo_power blank_flash = (True, s, m') \<and>
    store_lookup s demo_key = Some (0, ROLE_RECOVERY_ADMIN) \<and> controller_setup demo_hw demo_build demo_power m' = (True, s, m')"
  using first_boot_enrols_both [OF demo_fresh] demo_key_props(1) by (auto simp: demo_build_def)

theorem device_stays_sound_witness:
  "core_ok (core (after_ops demo_hw demo_session_ops demo_unit)) \<and>
   store_wf (controllers (after_ops demo_hw demo_session_ops demo_unit))"
  using device_stays_sound [OF demo_unit_boot(2), of demo_session_ops] by simp

theorem typed_keys_were_commanded_witness:
  "\<exists>ys E data cap zs F data' cap' ws own ident lay md fl input since ttl now before rest.
    demo_session_ops = ys @ Frame E data cap # zs @ Frame F data' cap' # ws \<and>
    commanded demo_hw data (after_ops demo_hw ys demo_unit) (Op_Stage own ident lay md fl input since ttl) \<and>
    enrolled_session (after_ops demo_hw ys demo_unit) \<and>
    commanded demo_hw data' (after_ops demo_hw (ys @ Frame E data cap # zs) demo_unit) (Op_Confirm own ident now) \<and>
    enrolled_session (after_ops demo_hw (ys @ Frame E data cap # zs) demo_unit) \<and>
    now - since < ttl \<and> text_keys lay md fl input (before @ \<lparr>modifier = 0, usage = 4\<rparr> # rest)"
  by (rule typed_keys_were_commanded [OF demo_unit_boot(2) demo_run_types])

lemma demo_unit_ok: "flash_layout demo_hw" "device_ok demo_hw demo_unit" "store_wf (controllers demo_unit)"
  "device_ok demo_hw demo_online"
proof -
  show u: "flash_layout demo_hw" "device_ok demo_hw demo_unit" using powered_on_ok [OF demo_unit_boot(2)] by simp_all
  then show "store_wf (controllers demo_unit)" by (simp add: device_ok_def)
  obtain resp where "command_process_frame demo_hw demo_env demo_hello_frame BRIDGE_TRANSPORT_RESPONSE_MAX demo_unit = (resp, demo_online)"
    using demo_goes_online(7) by blast
  then show "device_ok demo_hw demo_online" by (rule device_ok_frame [OF u(1,2)])
qed

theorem strangers_are_ignored_witness:
  "demo_online = demo_unit\<lparr>session := session demo_online\<rparr> \<and> noise_is_ready (session demo_online)"
proof -
  obtain resp where f: "command_process_frame demo_hw demo_env demo_hello_frame BRIDGE_TRANSPORT_RESPONSE_MAX demo_unit = (resp, demo_online)"
    and "resp \<noteq> []" using demo_goes_online(7) by blast
  moreover have "received demo_hw demo_hello_frame demo_unit = None"
    by (simp add: received_def demo_hello_frame_def cmd_codes)
  ultimately show ?thesis using strangers_are_ignored [OF demo_unit_ok(3) f] by blast
qed

text \<open>An administrator's revocation of another enrolled controller succeeds.\<close>

lemma revocation_succeeds:
  assumes "flash_layout H" and "device_ok H d" and "is_admin_session d" and "env_flash_safe E"
    and "slot_role (slots (controllers d) ! i) \<noteq> ROLE_NONE" and "0 < i" "i < 5" and "i \<noteq> noise_authenticated_slot (session d)"
    and "generation (controllers d) < generation (controllers d) + 1"
  shows "\<exists>d'. bridge_command H E [BLE_CMD_CONTROLLER_REVOKE, of_nat i] d = Some (BRIDGE_OK, d') \<and> controllers d' \<noteq> controllers d"
proof -
  have hw: "nor_erase (hw_erase H)" "nor_program (hw_program H)" using assms(1) by (simp_all add: flash_layout_def)
  have w: "store_wf (controllers d)" and st: "boot_existing (hw_store_base H) (flash d) = (CONTROLLER_STORE_OK, controllers d)"
    using assms(2) by (simp_all add: device_ok_def stored_def)
  let ?c = "noise_authenticated_slot (session d)"
  have i: "unat (of_nat i :: u8) = i" using assms(7) by (simp add: unat_of_nat)
  obtain t where t: "controller_store_revoke (controllers d) ?c i = (CONTROLLER_STORE_OK, t)"
    using assms(3,5-7) by (auto simp: controller_store_revoke_def is_admin_session_def controller_store_is_admin_def
        CONTROLLER_STORE_SLOT_COUNT_def)
  note r = revoke_OK [OF t refl]
  have g: "generation t = generation (controllers d) + 1" by (simp add: r(6))
  have ne: "t \<noteq> controllers d" using assms(9) g by force
  have "CONTROLLER_STORE_OK = CONTROLLER_STORE_OK \<longrightarrow> generation (controllers d) \<noteq> generation t" using assms(9) g by simp
  from commit_outcome(1) [OF hw revoke_wf [OF w t] st this] assms(9) g obtain m where
    "controller_store_flash_commit (hw_erase H) (hw_program H) True (hw_store_base H) (Some t) (flash d) = (CONTROLLER_STORE_OK, m)"
    by auto
  then have "ble_handle_controller_revoke H E [BLE_CMD_CONTROLLER_REVOKE, of_nat i] d = (BRIDGE_OK, d\<lparr>flash := m, controllers := t\<rparr>)"
    using assms(3,4,8) t by (simp add: ble_handle_controller_revoke_def is_admin_session_def i)
  then show ?thesis using ne by (intro exI [of _ "d\<lparr>flash := m, controllers := t\<rparr>"]) (simp add: bridge_command_def cmd_codes)
qed

definition demo_revoke_packet :: bytes where
  "demo_revoke_packet = [BLE_CMD_CONTROLLER_REVOKE, 1]"

lemma demo_admin:
  assumes "ready n" and "authenticated_slot n = 0"
  shows "is_admin_session (demo_unit\<lparr>session := n\<rparr>)"
proof -
  have "slot_role (slots (controllers demo_unit) ! 0) = ROLE_RECOVERY_ADMIN"
    using store_lookup_iff [OF demo_unit_ok(3) demo_key_props(1)] demo_unit_boot(3) by blast
  then show ?thesis using assms
    by (simp add: is_admin_session_def controller_store_is_admin_def noise_authenticated_slot_def CONTROLLER_STORE_SLOT_COUNT_def)
qed

lemma demo_revokes:
  assumes "ready n" and "authenticated_slot n = 0" and "device_ok demo_hw (demo_unit\<lparr>session := n\<rparr>)"
  shows "\<exists>d'. bridge_command demo_hw demo_env demo_revoke_packet (demo_unit\<lparr>session := n\<rparr>) = Some (BRIDGE_OK, d') \<and>
    controllers d' \<noteq> controllers demo_unit"
proof -
  have l: "length (replicate 32 (9 :: u8)) = 32" by simp
  have "slot_role (slots (controllers demo_unit) ! 1) \<noteq> ROLE_NONE"
    using iffD1 [OF store_lookup_iff [OF demo_unit_ok(3) l] demo_unit_boot(4)] by (elim conjE) simp
  then have r: "slot_role (slots (controllers (demo_unit\<lparr>session := n\<rparr>)) ! 1) \<noteq> ROLE_NONE" by simp
  have e: "env_flash_safe demo_env" by (simp add: demo_env_def)
  have a: "1 \<noteq> noise_authenticated_slot (session (demo_unit\<lparr>session := n\<rparr>))" using assms(1,2) by (simp add: noise_authenticated_slot_def)
  have g: "generation (controllers (demo_unit\<lparr>session := n\<rparr>)) < generation (controllers (demo_unit\<lparr>session := n\<rparr>)) + 1"
    by (simp add: demo_unit_boot(5))
  from revocation_succeeds [OF demo_unit_ok(1) assms(3) demo_admin [OF assms(1,2)] e r _ _ a g]
  show ?thesis by (simp add: demo_revoke_packet_def)
qed

lemma demo_online_unit:
  obtains n where "demo_online = demo_unit\<lparr>session := n\<rparr>" and "session demo_online = n"
proof -
  obtain n where n: "demo_online = demo_unit\<lparr>session := n\<rparr>" using demo_goes_online(8) by blast
  show ?thesis by (rule that [OF n]) (simp add: n)
qed

theorem revocation_is_final_witness:
  "\<exists>d'. bridge_command demo_hw demo_env demo_revoke_packet demo_online = Some (BRIDGE_OK, d') \<and>
     store_lookup (controllers d') (replicate 32 9) = None"
proof -
  obtain d' where d': "bridge_command demo_hw demo_env demo_revoke_packet demo_online = Some (BRIDGE_OK, d')"
  proof (rule demo_online_unit)
    fix n assume n: "demo_online = demo_unit\<lparr>session := n\<rparr>" "session demo_online = n"
    then show ?thesis using demo_revokes [of n] demo_goes_online(1,5) demo_unit_ok(4) that by auto
  qed
  have c: "demo_revoke_packet ! 0 = BLE_CMD_CONTROLLER_REVOKE" by (simp add: demo_revoke_packet_def)
  have l: "length (replicate 32 (9 :: u8)) = 32" by simp
  have "store_lookup (controllers demo_online) (replicate 32 9) = Some (unat (demo_revoke_packet ! 1), ROLE_ADMIN)"
    using demo_goes_online(6) demo_unit_boot(4) by (simp add: demo_revoke_packet_def)
  from revocation_is_final [OF demo_unit_ok(1,4) d' c l this] show ?thesis using d' by blast
qed

theorem only_administrators_write_witness:
  "\<exists>resp d' p. command_process_frame demo_hw demo_env (BLE_CMD_ENCRYPTED # demo_sealed 0 demo_revoke_packet)
     BRIDGE_TRANSPORT_RESPONSE_MAX demo_online = (resp, d') \<and>
     received demo_hw (BLE_CMD_ENCRYPTED # demo_sealed 0 demo_revoke_packet) demo_online = Some p \<and>
     administrative demo_hw demo_env p demo_online d'"
proof -
  let ?data = "BLE_CMD_ENCRYPTED # demo_sealed 0 demo_revoke_packet"
  let ?n = "(session demo_online)\<lparr>receive_nonce := 1\<rparr>"
  have m: "(0 :: u64) \<noteq> UINT64_MAX" and l: "length demo_revoke_packet \<le> 1038" "demo_revoke_packet \<noteq> []"
    by (simp_all add: UINT64_MAX_def demo_revoke_packet_def)
  obtain resp d' where f: "command_process_frame demo_hw demo_env ?data BRIDGE_TRANSPORT_RESPONSE_MAX demo_online = (resp, d')"
    by fastforce
  obtain n where n: "demo_online = demo_unit\<lparr>session := n\<rparr>" "session demo_online = n" by (rule demo_online_unit)
  have d: "demo_online\<lparr>session := ?n\<rparr> = demo_unit\<lparr>session := ?n\<rparr>" by (simp add: n)
  have "device_ok demo_hw (demo_unit\<lparr>session := ?n\<rparr>)"
    using demo_unit_ok(4) by (simp add: n device_ok_def session_bound_def)
  then obtain e where e: "bridge_command demo_hw demo_env demo_revoke_packet (demo_unit\<lparr>session := ?n\<rparr>) = Some (BRIDGE_OK, e)"
    "controllers e \<noteq> controllers demo_unit" using demo_revokes [of ?n] demo_goes_online(1,5) by auto
  from f have "controllers d' = controllers e"
  proof (cases rule: frame_cases)
    case ignored
    then show ?thesis using demo_received [OF demo_goes_online(1,2) m l(1)] by simp
  next
    case (handshake ok response n)
    then show ?thesis by (simp add: cmd_codes)
  next
    case (command plaintext n armed c)
    have "plaintext = demo_revoke_packet" "n = ?n"
      using command(2) demo_unseals [OF demo_goes_online(1,2) m l(1)] by (simp_all add: demo_hw_def)
    then have "controllers c = controllers e" using command(3) d e(1) l(2) by (auto simp: ble_handle_authenticated_command_def)
    then show ?thesis using command(4) by auto
  qed
  then have "controllers d' \<noteq> controllers demo_online \<or> flash d' \<noteq> flash demo_online" using e(2) demo_goes_online(6) by simp
  from only_administrators_write [OF demo_unit_ok(1,4) f this] f show ?thesis by blast
qed

definition demo_talking :: device where
  "demo_talking = demo_unit\<lparr>session := demo_session\<rparr>"

theorem receipts_tell_what_happened_witness:
  "\<exists>packet c1 resp d' c2. encrypt_packet demo_py [BLE_CMD_TICK, 0, 0, 0, 0] demo_peer = (Inr packet, c1) \<and>
    command_process_frame demo_hw demo_env packet BRIDGE_TRANSPORT_RESPONSE_MAX demo_talking = (resp, d') \<and>
    verify_transport_ack demo_py resp c1 = (Inr 0, c2) \<and> paired (session d') c2"
proof -
  have s: "same_suite (hw_crypto demo_hw) demo_py" using demo_same_suite by (simp add: demo_hw_def)
  have p: "paired (session demo_talking) demo_peer" using demo_paired by (simp add: demo_talking_def)
  have n: "receive_nonce (session demo_talking) \<noteq> UINT64_MAX" "send_nonce (session demo_talking) \<noteq> UINT64_MAX"
    by (simp_all add: demo_talking_def demo_session_def zero_ctx_def UINT64_MAX_def)
  have l: "[BLE_CMD_TICK, 0, 0, 0, 0] \<noteq> []" "length [BLE_CMD_TICK, 0, 0, 0, 0] \<le> 1038" by simp_all
  have t: "bridge_core_tick bridge_core_init v = (BRIDGE_OK, bridge_core_init)" for v
    by (simp add: bridge_core_tick_def)
  have "\<exists>e. bridge_command demo_hw demo_env [BLE_CMD_TICK, 0, 0, 0, 0] f = Some (BRIDGE_OK, e)" if "core f = bridge_core_init" for f
    using that t by (simp add: bridge_command_def ble_handle_tick_def) (simp add: cmd_codes)
  moreover have "core (demo_talking\<lparr>session := m\<rparr>) = bridge_core_init" for m
    using powered_on_ok [OF demo_unit_boot(2)] by (simp add: demo_talking_def)
  ultimately obtain e where "bridge_command demo_hw demo_env [BLE_CMD_TICK, 0, 0, 0, 0]
      (demo_talking\<lparr>session := (session demo_talking)\<lparr>receive_nonce := receive_nonce (session demo_talking) + 1\<rparr>\<rparr>) = Some (BRIDGE_OK, e)"
    by blast
  from receipts_tell_what_happened [OF s p n l this] show ?thesis by auto
qed

end
