(* ===== verification/Ble_Transport.thy ===== *)
theory Ble_Transport
  imports Device_Machine
begin

section \<open>The BLE transport (firmware/bridge_main.c)\<close>

text \<open>
  The command characteristic: writes are fragments that \<open>cmd_write_callback\<close> reassembles in a static
  buffer, reads return the last response. \<open>rx_fragment\<close> is the part of the callback that works on
  the buffer; the frame it delivers is what the callback passes to \<open>ble_handle_command\<close>. The client's
  side is \<open>fragment_packet\<close> of tools/pico_bridge_ctl.py. Also the advertising restart
  after a disconnect, a small state machine polled by the main loop.
\<close>

definition BLE_CMD_BUF_MAX :: nat where "BLE_CMD_BUF_MAX = NOISE_IK_MAX_PLAINTEXT + 64"
definition BLE_FRAG_MORE :: u8 where "BLE_FRAG_MORE = 1"

lemma ble_buf_max [simp]: "BLE_CMD_BUF_MAX = 1102"
  by (simp add: BLE_CMD_BUF_MAX_def NOISE_IK_MAX_PLAINTEXT_def)

record ble_rx =
  ble_cmd_buf :: bytes
  ble_cmd_pos :: u16
  ble_cmd_active :: bool

definition ble_rx_init :: ble_rx where
  "ble_rx_init = \<lparr>ble_cmd_buf = replicate BLE_CMD_BUF_MAX 0, ble_cmd_pos = 0, ble_cmd_active = False\<rparr>"

subsection \<open>Writes\<close>

text \<open>The sum in the size check is computed in \<open>int\<close> and cannot wrap.\<close>

definition rx_error :: "ble_rx \<Rightarrow> bytes option \<times> ble_rx" where
  "rx_error s = (None, s\<lparr>ble_cmd_active := False, ble_cmd_pos := 0\<rparr>)"

definition rx_accumulate :: "bool \<Rightarrow> bytes \<Rightarrow> ble_rx \<Rightarrow> bytes option \<times> ble_rx" where
  "rx_accumulate more_frag data s =
     (if unat (ble_cmd_pos s) + length data > BLE_CMD_BUF_MAX then rx_error s
      else let s = s\<lparr>ble_cmd_buf := memcpy_at (ble_cmd_buf s) (unat (ble_cmd_pos s)) data,
                     ble_cmd_pos := ble_cmd_pos s + of_nat (length data)\<rparr> in
        if \<not> more_frag then (Some (take (unat (ble_cmd_pos s)) (ble_cmd_buf s)),
          s\<lparr>ble_cmd_active := False, ble_cmd_pos := 0\<rparr>)
        else (None, s))"

definition rx_fragment :: "bytes \<Rightarrow> ble_rx \<Rightarrow> bytes option \<times> ble_rx" where
  "rx_fragment buffer s =
     (if length buffer < 1 then (None, s)
      else let frag_hdr = buffer ! 0; more_frag = (frag_hdr AND BLE_FRAG_MORE) \<noteq> 0; seq = drop_bit 1 frag_hdr;
          data = drop 1 buffer in
        if seq = 0 then
          (if length data < 1 then rx_error s
           else rx_accumulate more_frag data (s\<lparr>ble_cmd_active := True, ble_cmd_pos := 0\<rparr>))
        else if \<not> ble_cmd_active s then (None, s)
        else rx_accumulate more_frag data s)"

record ble_link =
  link_device :: device
  link_rx :: ble_rx
  cmd_char_read_data :: bytes
  cmd_char_read_len :: nat
  cmd_char_read_valid :: bool

definition ble_handle_command :: "hardware \<Rightarrow> call_env \<Rightarrow> bytes \<Rightarrow> ble_link \<Rightarrow> ble_link" where
  "ble_handle_command H E data b =
     (let b = b\<lparr>cmd_char_read_valid := False, cmd_char_read_len := 0\<rparr> in
      case command_process_frame H E data BRIDGE_TRANSPORT_RESPONSE_MAX (link_device b) of (resp, d) \<Rightarrow>
        let b = b\<lparr>link_device := d\<rparr> in
        if resp = [] then b
        else let off = (if resp ! 0 = BLE_CMD_NOISE then 1 else 0); n = length resp - off in
          if n > BLE_CMD_BUF_MAX then b
          else b\<lparr>cmd_char_read_data := memcpy_at (cmd_char_read_data b) 0 (take n (drop off resp)),
                 cmd_char_read_len := n, cmd_char_read_valid := True\<rparr>)"

definition cmd_write_callback :: "hardware \<Rightarrow> call_env \<Rightarrow> bytes \<Rightarrow> ble_link \<Rightarrow> ble_link" where
  "cmd_write_callback H E buffer b =
     (case rx_fragment buffer (link_rx b) of (frame, rx) \<Rightarrow>
        let b = b\<lparr>link_rx := rx\<rparr> in
        (case frame of None \<Rightarrow> b | Some data \<Rightarrow> ble_handle_command H E data b))"

subsection \<open>Reads\<close>

text \<open>The count returned and the bytes copied; \<open>None\<close> is the null buffer of a size query.\<close>

definition read_callback :: "bool \<Rightarrow> nat \<Rightarrow> nat option \<Rightarrow> ble_link \<Rightarrow> nat \<times> bytes" where
  "read_callback is_command_handle offset buffer_size b =
     (if is_command_handle \<and> cmd_char_read_valid b then
        (case buffer_size of None \<Rightarrow> (cmd_char_read_len b, [])
         | Some cap \<Rightarrow>
            if offset \<ge> cmd_char_read_len b then (0, [])
            else let remain = cmd_char_read_len b - offset; n = (if cap < remain then cap else remain) in
              (n, take n (drop offset (cmd_char_read_data b))))
      else (0, []))"

subsection \<open>Advertising\<close>

record advertiser =
  readvertise_needed :: bool
  readvertise_disable_ms :: u32

definition ble_event_handler :: "u16 \<Rightarrow> u16 \<Rightarrow> advertiser \<Rightarrow> advertiser" where
  "ble_event_handler disconnection_complete event a =
     (if event = disconnection_complete then a\<lparr>readvertise_needed := True\<rparr> else a)"

text \<open>The result is the list of calls of \<open>gap_advertisements_enable\<close>.\<close>

definition ble_readvertise_poll :: "u32 \<Rightarrow> advertiser \<Rightarrow> bool list \<times> advertiser" where
  "ble_readvertise_poll now_ms a =
     (if \<not> readvertise_needed a then ([], a)
      else if readvertise_disable_ms a = 0 then ([False], a\<lparr>readvertise_disable_ms := now_ms + 100\<rparr>)
      else if now_ms - readvertise_disable_ms a <s 0 then ([], a)
      else ([True], a\<lparr>readvertise_disable_ms := 0, readvertise_needed := False\<rparr>))"

text \<open>The advertising data: flags and the complete local name, at most 31 bytes.\<close>

fun copy_name :: "bytes \<Rightarrow> nat \<Rightarrow> bytes" where
  "copy_name [] pos = []"
| "copy_name (c # name) pos = (if pos < 31 then c # copy_name name (Suc pos) else [])"

definition adv_data :: "bytes \<Rightarrow> bytes" where
  "adv_data name = [0x02, 0x01, 0x06, of_nat (length name + 1), 0x09] @ copy_name name 5"

subsection \<open>The client's fragments\<close>

definition BLE_MTU_PAYLOAD :: nat where "BLE_MTU_PAYLOAD = 19"

text \<open>A header that does not fit in a byte makes Python's \<open>bytearray.append\<close> raise: \<open>None\<close>.\<close>

function fragment_loop :: "bytes \<Rightarrow> nat \<Rightarrow> nat \<Rightarrow> bytes list \<Rightarrow> bytes list option" where
  "fragment_loop packet offset seq fragments =
     (if offset < length packet then
        let frag_len = min BLE_MTU_PAYLOAD (length packet - offset);
            more_frag = offset + frag_len < length packet;
            hdr = 2 * seq + (if more_frag then 1 else 0) in
        if hdr > 255 then None
        else fragment_loop packet (offset + frag_len) (seq + 1)
          (fragments @ [of_nat hdr # take frag_len (drop offset packet)])
      else Some fragments)"
  by pat_completeness auto
termination
  by (relation "measure (\<lambda>(packet, offset, seq, fragments). length packet - offset)")
    (auto simp: BLE_MTU_PAYLOAD_def)

declare fragment_loop.simps [simp del]

definition fragment_packet :: "bytes \<Rightarrow> bytes list option" where
  "fragment_packet packet = fragment_loop packet 0 0 []"

subsection \<open>Reassembly\<close>

text \<open>
  What reassembly is meant to be: a fragment with sequence number 0 starts a frame, others extend it, the
  first without the MORE bit delivers it; too long a frame is dropped. The state is the frame so far.
\<close>

definition spec_append :: "bool \<Rightarrow> bytes \<Rightarrow> bytes option \<times> bytes option" where
  "spec_append more_frag x =
     (if length x > BLE_CMD_BUF_MAX then (None, None) else if more_frag then (None, Some x) else (Some x, None))"

definition spec_fragment :: "bytes \<Rightarrow> bytes option \<Rightarrow> bytes option \<times> bytes option" where
  "spec_fragment buffer acc =
     (case buffer of [] \<Rightarrow> (None, acc)
      | h # data \<Rightarrow>
        if h < 2 \<and> data = [] then (None, None)
        else (case (if h < 2 then Some [] else acc) of None \<Rightarrow> (None, None)
          | Some so_far \<Rightarrow> spec_append (odd h) (so_far @ data)))"

definition rx_ok :: "ble_rx \<Rightarrow> bool" where
  "rx_ok s \<longleftrightarrow> length (ble_cmd_buf s) = BLE_CMD_BUF_MAX \<and> unat (ble_cmd_pos s) \<le> BLE_CMD_BUF_MAX"

definition rx_abs :: "ble_rx \<Rightarrow> bytes option" where
  "rx_abs s = (if ble_cmd_active s then Some (take (unat (ble_cmd_pos s)) (ble_cmd_buf s)) else None)"

lemma frag_header: "(h AND BLE_FRAG_MORE) \<noteq> 0 \<longleftrightarrow> odd h" "drop_bit 1 h = (0 :: u8) \<longleftrightarrow> h < 2"
proof -
  show "(h AND BLE_FRAG_MORE) \<noteq> 0 \<longleftrightarrow> odd h" by (simp add: BLE_FRAG_MORE_def and_one_eq odd_iff_mod_2_eq_one)
  have "drop_bit 1 h = 0 \<longleftrightarrow> unat (drop_bit 1 h) = 0" by (simp add: unat_eq_0)
  also have "unat (drop_bit 1 h) = unat h div 2" by (simp add: drop_bit_eq_div unat_div)
  also have "unat h div 2 = 0 \<longleftrightarrow> h < 2" by (simp add: word_less_nat_alt div_eq_0_iff)
  finally show "drop_bit 1 h = (0 :: u8) \<longleftrightarrow> h < 2" .
qed

lemma accumulate:
  assumes "rx_ok s" and "ble_cmd_active s"
  shows "rx_ok (snd (rx_accumulate m data s))"
    and "spec_append m (take (unat (ble_cmd_pos s)) (ble_cmd_buf s) @ data) =
      (fst (rx_accumulate m data s), rx_abs (snd (rx_accumulate m data s)))"
proof -
  let ?p = "unat (ble_cmd_pos s)"
  have l: "length (take ?p (ble_cmd_buf s) @ data) = ?p + length data" using assms(1) by (simp add: rx_ok_def)
  have u: "unat (ble_cmd_pos s + of_nat (length data)) = ?p + length data" if "?p + length data \<le> 1102"
    using that by (simp add: unat_word_ariths unat_of_nat)
  note b = length_memcpy [of ?p data "ble_cmd_buf s"] take_memcpy [of ?p data "ble_cmd_buf s"]
  show "rx_ok (snd (rx_accumulate m data s))"
    using assms b u by (auto simp: rx_accumulate_def rx_error_def rx_ok_def Let_def)
  show "spec_append m (take ?p (ble_cmd_buf s) @ data) =
      (fst (rx_accumulate m data s), rx_abs (snd (rx_accumulate m data s)))"
    unfolding spec_append_def l using assms b u
    by (auto simp: rx_accumulate_def rx_error_def rx_ok_def rx_abs_def Let_def)
qed

lemma rx_fragment_Cons:
  "rx_fragment (h # data) s =
     (if h < 2 then if data = [] then rx_error s else rx_accumulate (odd h) data (s\<lparr>ble_cmd_active := True, ble_cmd_pos := 0\<rparr>)
      else if ble_cmd_active s then rx_accumulate (odd h) data s else (None, s))"
  by (simp add: rx_fragment_def frag_header [unfolded One_nat_def] Let_def Suc_le_eq)

lemma rx_error_abs: "rx_abs (snd (rx_error s)) = None" "fst (rx_error s) = None" "rx_ok (snd (rx_error s)) = (length (ble_cmd_buf s) = 1102)"
  by (simp_all add: rx_error_def rx_abs_def rx_ok_def)

lemma fragment_refines:
  assumes "rx_ok s"
  shows "rx_ok (snd (rx_fragment b s)) \<and>
    spec_fragment b (rx_abs s) = (fst (rx_fragment b s), rx_abs (snd (rx_fragment b s)))"
proof (cases b)
  case Nil
  then show ?thesis using assms by (simp add: rx_fragment_def spec_fragment_def)
next
  case (Cons h data)
  let ?s = "s\<lparr>ble_cmd_active := True, ble_cmd_pos := 0\<rparr>"
  consider "h < 2" "data = []" | "h < 2" "data \<noteq> []" | "\<not> h < 2" "ble_cmd_active s" | "\<not> h < 2" "\<not> ble_cmd_active s" by blast
  then show ?thesis
  proof cases
    case 1
    then show ?thesis using assms
      by (simp add: Cons rx_fragment_Cons rx_error_abs spec_fragment_def) (simp add: rx_ok_def)
  next
    case 2
    have "rx_ok ?s" "ble_cmd_active ?s" using assms by (simp_all add: rx_ok_def)
    note a = accumulate [OF this, of "odd h" data]
    show ?thesis unfolding Cons rx_fragment_Cons using 2 a by (simp add: spec_fragment_def)
  next
    case 3
    note a = accumulate [OF assms 3(2), of "odd h" data]
    show ?thesis unfolding Cons rx_fragment_Cons using 3 a by (simp add: spec_fragment_def rx_abs_def)
  next
    case 4
    then show ?thesis using assms by (simp add: Cons rx_fragment_Cons spec_fragment_def rx_abs_def)
  qed
qed

interpretation reassembly: refined_machine rx_fragment rx_ok spec_fragment rx_abs
  by unfold_locales (simp_all add: fragment_refines)

lemma rx_init_ok: "rx_ok ble_rx_init" "rx_abs ble_rx_init = None"
  by (simp_all add: rx_ok_def rx_abs_def ble_rx_init_def)

subsection \<open>Fragmenting and reassembling\<close>

lemma fragment_step:
  assumes "offset < length packet" and "n = min 19 (length packet - offset)"
    and "h = 2 * seq + (if offset + n < length packet then 1 else 0)"
  shows "fragment_loop packet offset seq fs =
    (if 255 < h then None else fragment_loop packet (offset + n) (seq + 1) (fs @ [of_nat h # take n (drop offset packet)]))"
    and "0 < n" and "offset + n \<le> length packet" and "n \<le> 19"
    and "offset + n < length packet \<Longrightarrow> n = 19"
  using assms by (auto simp: fragment_loop.simps [of packet offset] BLE_MTU_PAYLOAD_def Let_def)

lemma fragment_end: "\<not> offset < length packet \<Longrightarrow> fragment_loop packet offset seq fs = Some fs"
  by (simp add: fragment_loop.simps)

lemma fragments_extend: "fragment_loop packet offset seq fs = Some xs \<Longrightarrow> \<exists>gs. xs = fs @ gs"
proof (induction "length packet - offset" arbitrary: offset seq fs rule: less_induct)
  case less
  show ?case
  proof (cases "offset < length packet")
    case True
    define n where "n = min 19 (length packet - offset)"
    define h where "h = 2 * seq + (if offset + n < length packet then 1 else 0)"
    note f = fragment_step [OF True n_def h_def]
    have d: "length packet - (offset + n) < length packet - offset" using f(2) True by linarith
    have "fragment_loop packet (offset + n) (seq + 1) (fs @ [of_nat h # take n (drop offset packet)]) = Some xs"
      using less(2) f(1) by (simp split: if_splits)
    from less(1) [OF d this] show ?thesis by auto
  qed (use less(2) in \<open>simp add: fragment_end\<close>)
qed

lemma fragments_exist:
  assumes "offset = 19 * seq" and "length packet \<le> 2432"
  shows "\<exists>gs. fragment_loop packet offset seq fs = Some (fs @ gs) \<and> (\<forall>g \<in> set gs. length g \<le> 20)"
  using assms(1)
proof (induction "length packet - offset" arbitrary: offset seq fs rule: less_induct)
  case less
  show ?case
  proof (cases "offset < length packet")
    case True
    define n where "n = min 19 (length packet - offset)"
    define h where "h = 2 * seq + (if offset + n < length packet then 1 else 0)"
    note f = fragment_step [OF True n_def h_def]
    have h: "\<not> 255 < h" using True less(2) assms(2) f(5) by (auto simp: h_def split: if_splits)
    let ?f = "of_nat h # take n (drop offset packet) :: bytes"
    have l: "length ?f \<le> 20" using f(4) by simp
    show ?thesis
    proof (cases "offset + n < length packet")
      case more: True
      then have "length packet - (offset + n) < length packet - offset" "offset + n = 19 * (seq + 1)"
        using f(2,5) less(2) by simp_all
      from less(1) [OF this, of "fs @ [?f]"] obtain gs where
        "fragment_loop packet (offset + n) (seq + 1) (fs @ [?f]) = Some ((fs @ [?f]) @ gs)" "\<forall>g \<in> set gs. length g \<le> 20" by blast
      then show ?thesis using f(1) h l by (intro exI [of _ "?f # gs"]) simp
    next
      case False
      then show ?thesis using f(1) h l by (intro exI [of _ "[?f]"]) (simp add: fragment_end)
    qed
  qed (simp add: fragment_end)
qed

lemma header_byte:
  fixes seq :: nat and m :: bool
  assumes "h = 2 * seq + (if m then 1 else 0)" and "\<not> 255 < h"
  shows "(of_nat h :: u8) < 2 \<longleftrightarrow> seq = 0" and "odd (of_nat h :: u8) \<longleftrightarrow> m"
proof -
  have "unat (of_nat h :: u8) = h" using assms(2) by (simp add: unat_of_nat)
  then show "(of_nat h :: u8) < 2 \<longleftrightarrow> seq = 0" using assms(1) by (auto simp: word_less_nat_alt)
  have "odd (of_nat h :: u8) \<longleftrightarrow> odd h" by simp
  then show "odd (of_nat h :: u8) \<longleftrightarrow> m" using assms(1) by (cases m) simp_all
qed

text \<open>From a fragment on, the rest of the fragments completes the frame.\<close>

lemma fragments_run:
  assumes "fragment_loop packet offset seq fs = Some (fs @ gs)" and "offset < length packet" and "length packet \<le> 1102"
    and "if seq = 0 then offset = 0 else acc = Some (take offset packet)"
  shows "gs \<noteq> [] \<and> run_ops spec_fragment gs acc = (replicate (length gs - 1) None @ [Some packet], None)"
  using assms
proof (induction "length packet - offset" arbitrary: offset seq fs gs acc rule: less_induct)
  case less
  define n where "n = min 19 (length packet - offset)"
  define h where "h = 2 * seq + (if offset + n < length packet then 1 else 0)"
  note f = fragment_step [OF less(3) n_def h_def]
  let ?f = "of_nat h # take n (drop offset packet) :: bytes"
  have h: "\<not> 255 < h" and r: "fragment_loop packet (offset + n) (seq + 1) (fs @ [?f]) = Some (fs @ gs)"
    using less(2) f(1) by (simp_all split: if_splits)
  obtain hs where g: "gs = ?f # hs" using fragments_extend [OF r] by auto
  note b = header_byte [OF h_def h]
  have a: "(if (of_nat h :: u8) < 2 then Some [] else acc) = Some (take offset packet)" using b(1) less(5) by auto
  have x: "take offset packet @ take n (drop offset packet) = take (offset + n) packet" by (simp add: take_add)
  have "take n (drop offset packet) \<noteq> []" using f(2) less(3) by simp
  then have s: "spec_fragment ?f acc = spec_append (offset + n < length packet) (take (offset + n) packet)"
    unfolding spec_fragment_def list.case a option.case x b(2) by (simp only: simp_thms if_False)
  have l: "length (take (offset + n) packet) \<le> 1102" using less(4) by simp
  show ?case
  proof (cases "offset + n < length packet")
    case True
    have s': "spec_fragment ?f acc = (None, Some (take (offset + n) packet))"
      unfolding s spec_append_def using True l by simp
    have r': "fragment_loop packet (offset + n) (seq + 1) (fs @ [?f]) = Some ((fs @ [?f]) @ hs)" using r g by simp
    have d: "length packet - (offset + n) < length packet - offset" using f(2) True by simp
    have i: "if seq + 1 = 0 then offset + n = 0 else Some (take (offset + n) packet) = Some (take (offset + n) packet)" by simp
    from less(1) [OF d r' True less(4) i] show ?thesis using s' by (cases hs) (simp_all add: g)
  next
    case False
    then have "hs = []" using r g by (simp add: fragment_end)
    moreover have "spec_fragment ?f acc = (Some packet, None)"
      unfolding s spec_append_def using False f(3) l by simp
    ultimately show ?thesis by (simp add: g)
  qed
qed

subsection \<open>Commands over BLE\<close>

text \<open>The bytes a client reads for a response: the handshake response without its type byte.\<close>

definition answer_of :: "bytes \<Rightarrow> bytes" where
  "answer_of resp = (if resp = [] then [] else if resp ! 0 = BLE_CMD_NOISE then drop 1 resp else resp)"

definition link_ok :: "ble_link \<Rightarrow> bool" where
  "link_ok b \<longleftrightarrow> rx_ok (link_rx b) \<and> length (cmd_char_read_data b) = BLE_CMD_BUF_MAX"

lemma handled_command:
  assumes "link_ok b" and "command_process_frame H E data BRIDGE_TRANSPORT_RESPONSE_MAX (link_device b) = (resp, d)"
    and "length resp \<le> 54" and "b' = ble_handle_command H E data b"
  shows "link_device b' = d" and "link_rx b' = link_rx b" and "link_ok b'"
    and "read_callback True 0 None b' = (length (answer_of resp), [])"
    and "read_callback True i (Some n) b' = (length (take n (drop i (answer_of resp))), take n (drop i (answer_of resp)))"
proof -
  let ?a = "answer_of resp"
  have l: "length ?a \<le> 54" using assms(3) by (auto simp: answer_of_def)
  have b': "b' = (if resp = [] then b\<lparr>cmd_char_read_valid := False, cmd_char_read_len := 0, link_device := d\<rparr>
      else b\<lparr>link_device := d, cmd_char_read_data := memcpy_at (cmd_char_read_data b) 0 ?a,
        cmd_char_read_len := length ?a, cmd_char_read_valid := True\<rparr>)"
    using assms(2,3) by (simp add: assms(4) ble_handle_command_def answer_of_def Let_def)
  show "link_device b' = d" "link_rx b' = link_rx b" "link_ok b'"
    using assms(1) l by (simp_all add: b' link_ok_def length_memcpy)
  show "read_callback True 0 None b' = (length ?a, [])"
    by (simp add: b' read_callback_def) (simp add: answer_of_def)
  have "take (length ?a) (memcpy_at (cmd_char_read_data b) 0 ?a) = ?a" by (simp add: memcpy_at_def)
  then have m: "take m (drop i (memcpy_at (cmd_char_read_data b) 0 ?a)) = take m (drop i ?a)" if "m \<le> length ?a - i" for m
    using that by (simp add: memcpy_at_def)
  show "read_callback True i (Some n) b' = (length (take n (drop i ?a)), take n (drop i ?a))"
  proof (cases "resp = [] \<or> length ?a \<le> i")
    case True
    then show ?thesis by (auto simp: b' read_callback_def) (auto simp: answer_of_def)
  next
    case False
    then show ?thesis using m by (simp add: b' read_callback_def Let_def min_def)
  qed
qed

lemma write_none: "rx_fragment f (link_rx b) = (None, rx) \<Longrightarrow> cmd_write_callback H E f b = b\<lparr>link_rx := rx\<rparr>"
  by (simp add: cmd_write_callback_def)

text \<open>Fragments that deliver nothing before the last one run like the buffer alone.\<close>

lemma writes_until_last:
  assumes "run_ops rx_fragment fs (link_rx b) = (replicate (length fs - 1) None @ [Some p], rx)" and "fs \<noteq> []"
  shows "fold (cmd_write_callback H E) fs b = ble_handle_command H E p (b\<lparr>link_rx := rx\<rparr>)"
  using assms
proof (induction fs arbitrary: b)
  case (Cons f fs)
  show ?case
  proof (cases "fs = []")
    case True
    then show ?thesis using Cons.prems by (cases "rx_fragment f (link_rx b)") (simp add: cmd_write_callback_def)
  next
    case False
    obtain r s where f: "rx_fragment f (link_rx b) = (r, s)" by fastforce
    have e: "replicate (length (f # fs) - 1) None @ [Some p] = None # replicate (length fs - 1) None @ [Some p]"
      using False by (cases fs) simp_all
    have "r = None" "run_ops rx_fragment fs s = (replicate (length fs - 1) None @ [Some p], rx)"
      using Cons.prems(1) unfolding e by (simp_all add: f prod_eq_iff)
    moreover from this have "cmd_write_callback H E f b = b\<lparr>link_rx := s\<rparr>" using f by (intro write_none) simp
    ultimately show ?thesis using Cons.IH [of "b\<lparr>link_rx := s\<rparr>"] False by simp
  qed
qed simp

text \<open>The fragments of a frame make the device process it once, and every read afterwards sees its answer.\<close>

lemma fragments_deliver:
  assumes "link_ok b" and "p \<noteq> []" and "length p \<le> BLE_CMD_BUF_MAX" and "aead_lengths (hw_crypto H)"
    and "command_process_frame H E p BRIDGE_TRANSPORT_RESPONSE_MAX (link_device b) = (resp, d)"
  obtains fs where "fragment_packet p = Some fs" "\<forall>f \<in> set fs. length f \<le> 20"
    "link_device (fold (cmd_write_callback H E) fs b) = d" "link_ok (fold (cmd_write_callback H E) fs b)"
    "\<not> ble_cmd_active (link_rx (fold (cmd_write_callback H E) fs b))"
    "read_callback True 0 None (fold (cmd_write_callback H E) fs b) = (length (answer_of resp), [])"
    "\<And>i n. snd (read_callback True i (Some n) (fold (cmd_write_callback H E) fs b)) = take n (drop i (answer_of resp))"
proof -
  have l: "length p \<le> 1102" "length p \<le> 2432" using assms(3) by simp_all
  obtain fs where fs: "fragment_loop p 0 0 [] = Some fs" "\<forall>f \<in> set fs. length f \<le> 20"
    using fragments_exist [of 0 0 p "[]"] l(2) by auto
  have ok: "rx_ok (link_rx b)" using assms(1) by (simp add: link_ok_def)
  let ?rx = "snd (run_ops rx_fragment fs (link_rx b))"
  have "fs \<noteq> [] \<and> run_ops spec_fragment fs (rx_abs (link_rx b)) = (replicate (length fs - 1) None @ [Some p], None)"
    using fragments_run [of p 0 0 "[]" fs] fs(1) assms(2) l(1) by simp
  then have r: "fs \<noteq> []" "run_ops rx_fragment fs (link_rx b) = (replicate (length fs - 1) None @ [Some p], ?rx)" "rx_abs ?rx = None"
    using reassembly.run_refines [OF ok, of fs] by (simp_all add: prod_eq_iff)
  have w: "fold (cmd_write_callback H E) fs b = ble_handle_command H E p (b\<lparr>link_rx := ?rx\<rparr>)"
    by (rule writes_until_last [OF r(2,1)])
  have lo: "link_ok (b\<lparr>link_rx := ?rx\<rparr>)" using assms(1) reassembly.run_keeps [OF ok, of fs] by (simp add: link_ok_def)
  have "command_process_frame H E p BRIDGE_TRANSPORT_RESPONSE_MAX (link_device (b\<lparr>link_rx := ?rx\<rparr>)) = (resp, d)"
    using assms(5) by simp
  note h = handled_command [OF lo this response_length [OF assms(4,5)] w]
  have "\<not> ble_cmd_active ?rx" using r(3) by (simp add: rx_abs_def split: if_splits)
  then show ?thesis using that [of fs] fs h by (simp add: fragment_packet_def)
qed

subsection \<open>Properties\<close>

text \<open>C28: reassembly is what it is meant to be, and stays inside its buffer. From power-on, for any sequence of
  writes with any contents, the fixed buffer with its 16-bit position delivers exactly the frames that the
  specification on lists delivers, holds exactly its partial frame, and never exceeds its 1102 bytes.\<close>

theorem reassembly_meets_spec:
  "run_ops spec_fragment ws None = (fst (run_ops rx_fragment ws ble_rx_init), rx_abs (snd (run_ops rx_fragment ws ble_rx_init))) \<and>
   rx_ok (snd (run_ops rx_fragment ws ble_rx_init))"
  using reassembly.run_refines [OF rx_init_ok(1)] reassembly.run_keeps [OF rx_init_ok(1)] by (simp add: rx_init_ok(2))

text \<open>C29: a command sent in fragments arrives, and its answer comes back. Whatever was in the buffer, the client's
  fragments (at most 20 bytes each) of a frame of up to 1102 bytes make the device process exactly that
  frame, once; afterwards the characteristic has the length of the answer and any read at any offset returns the
  bytes of the answer there: the receipt with its type byte, or the handshake response without it.\<close>

theorem ble_command_round_trip:
  assumes "link_ok b" and "p \<noteq> []" and "length p \<le> BLE_CMD_BUF_MAX" and "aead_lengths (hw_crypto H)"
    and "command_process_frame H E p BRIDGE_TRANSPORT_RESPONSE_MAX (link_device b) = (resp, d)"
  shows "\<exists>fs. fragment_packet p = Some fs \<and> (\<forall>f \<in> set fs. length f \<le> 20) \<and>
    (let b' = fold (cmd_write_callback H E) fs b in
      link_device b' = d \<and> link_ok b' \<and> \<not> ble_cmd_active (link_rx b') \<and>
      read_callback True 0 None b' = (length (answer_of resp), []) \<and>
      snd (read_callback True i (Some n) b') = take n (drop i (answer_of resp)))"
proof -
  obtain fs where "fragment_packet p = Some fs" "\<forall>f \<in> set fs. length f \<le> 20"
    "link_device (fold (cmd_write_callback H E) fs b) = d" "link_ok (fold (cmd_write_callback H E) fs b)"
    "\<not> ble_cmd_active (link_rx (fold (cmd_write_callback H E) fs b))"
    "read_callback True 0 None (fold (cmd_write_callback H E) fs b) = (length (answer_of resp), [])"
    "\<And>i n. snd (read_callback True i (Some n) (fold (cmd_write_callback H E) fs b)) = take n (drop i (answer_of resp))"
    using fragments_deliver [OF assms] by blast
  then show ?thesis by (simp add: Let_def)
qed

text \<open>Advertising comes back after a disconnect. The first poll after the event switches advertising off;
  polls less than 100 ms later do nothing; the first later one (within the \<open>2^31\<close> ms that a signed
  comparison of 32-bit times can tell) switches it on again and ends the procedure. The one exception is a
  first poll exactly 100 ms before the counter wraps, whose deadline 0 is taken for none.\<close>

lemma advertising_restarts:
  assumes "t0 + 100 \<noteq> 0" and "\<forall>e \<in> set es. e < 100" and "100 \<le> e1" and "unat e1 < 0x80000000 + 100"
  shows "run_ops ble_readvertise_poll (t0 # map ((+) t0) es @ [t0 + e1])
      (ble_event_handler code code \<lparr>readvertise_needed = needed, readvertise_disable_ms = 0\<rparr>) =
    ([False] # replicate (length es) [] @ [[True]], \<lparr>readvertise_needed = False, readvertise_disable_ms = 0\<rparr>)"
proof -
  let ?a = "\<lparr>readvertise_needed = True, readvertise_disable_ms = t0 + 100\<rparr>"
  have sub: "t0 + e - (t0 + 100) = e - 100" for e :: u32 by simp
  have "run_ops ble_readvertise_poll (map ((+) t0) es @ [t0 + e1]) ?a =
      (replicate (length es) [] @ [[True]], \<lparr>readvertise_needed = False, readvertise_disable_ms = 0\<rparr>)"
    using assms(2)
  proof (induction es)
    case Nil
    have "\<not> e1 - 100 <s 0" by (rule after_deadline(2)) (use assms(3,4) in simp_all)
    then show ?case using assms(1) by (simp add: ble_readvertise_poll_def)
  next
    case (Cons e es)
    have "e - 100 <s 0" by (rule after_deadline(1)) (use Cons.prems in simp_all)
    then have "ble_readvertise_poll (t0 + e) ?a = ([], ?a)" using assms(1) by (simp add: ble_readvertise_poll_def)
    then show ?case using Cons by simp
  qed
  then show ?thesis by (simp add: ble_readvertise_poll_def ble_event_handler_def)
qed

definition demo_link :: ble_link where
  "demo_link = \<lparr>link_device = demo_unit, link_rx = ble_rx_init, cmd_char_read_data = replicate 1102 0,
     cmd_char_read_len = 0, cmd_char_read_valid = False\<rparr>"

theorem ble_command_round_trip_witness:
  "\<exists>fs resp d. command_process_frame demo_hw demo_env demo_hello_frame BRIDGE_TRANSPORT_RESPONSE_MAX demo_unit = (resp, d) \<and>
    fragment_packet demo_hello_frame = Some fs \<and>
    snd (read_callback True 0 (Some 512) (fold (cmd_write_callback demo_hw demo_env) fs demo_link)) = take 512 (answer_of resp)"
proof -
  obtain resp d where f: "command_process_frame demo_hw demo_env demo_hello_frame BRIDGE_TRANSPORT_RESPONSE_MAX (link_device demo_link) = (resp, d)"
    by fastforce
  have a: "aead_lengths (hw_crypto demo_hw)" by (simp add: aead_lengths_def demo_hw_def length_demo_tag)
  have b: "link_ok demo_link" by (simp add: link_ok_def demo_link_def rx_init_ok)
  have c: "demo_hello_frame \<noteq> []" "length demo_hello_frame \<le> BLE_CMD_BUF_MAX"
    by (simp_all add: demo_hello_frame_def demo_hello_parts(3))
  from ble_command_round_trip [OF b c a f, of 0 512] f show ?thesis by (auto simp: Let_def demo_link_def)
qed

end
