(* ===== verification/Usb_Hid.thy ===== *)
theory Usb_Hid
  imports Core_Protocol
begin

section \<open>The USB keyboard (firmware/bridge_main.c)\<close>

text \<open>
  The HID callbacks and \<open>usb_hid_drain\<close>, which turns strokes of the core into keyboard reports.
  TinyUSB and the clock are the parameter \<open>U\<close>, a record of functions on an unknown port state: whether the
  endpoint is ready, an attempt to queue a report, one run of \<open>tud_task\<close>, which may deliver callbacks, and a
  reading of the millisecond clock. The two loops are partial functions: \<open>None\<close> is a drain that never
  returns. The reports that the port accepted are collected in a trace.
\<close>

datatype hid_report_type = Report_Input | Report_Output | Report_Other

record hid_state =
  hid_leds :: u8
  hid_idle_dirty :: bool
  exec_since_ms :: u32
  usb_now_ms :: u32
  hid_core :: bridge_core

subsection \<open>Callbacks\<close>

text \<open>The bytes written to the buffer of a GET REPORT request; their number is the result.\<close>

definition tud_hid_get_report_cb :: "u8 \<Rightarrow> u8 \<Rightarrow> hid_report_type \<Rightarrow> nat \<Rightarrow> hid_state \<Rightarrow> bytes" where
  "tud_hid_get_report_cb inst report_id report_type reqlen s =
     (if inst \<noteq> 0 \<or> report_id \<noteq> 0 then []
      else if report_type = Report_Input then replicate (if reqlen < 8 then reqlen else 8) 0
      else if report_type = Report_Output \<and> reqlen \<noteq> 0 then [hid_leds s]
      else [])"

definition tud_hid_set_report_cb :: "u8 \<Rightarrow> u8 \<Rightarrow> hid_report_type \<Rightarrow> bytes \<Rightarrow> hid_state \<Rightarrow> hid_state" where
  "tud_hid_set_report_cb inst report_id report_type buffer s =
     (if inst = 0 \<and> report_id = 0 \<and> report_type = Report_Output \<and> length buffer = 1
      then s\<lparr>hid_leds := buffer ! 0 AND 0x1f, hid_idle_dirty := True\<rparr> else s)"

definition tud_hid_set_protocol_cb :: "hid_state \<Rightarrow> hid_state" where
  "tud_hid_set_protocol_cb s = s\<lparr>hid_idle_dirty := True\<rparr>"

definition tud_hid_set_idle_cb :: "hid_state \<Rightarrow> bool \<times> hid_state" where
  "tud_hid_set_idle_cb s = (True, s\<lparr>hid_idle_dirty := True\<rparr>)"

definition tud_mount_cb :: "hid_state \<Rightarrow> hid_state" where
  "tud_mount_cb s = s\<lparr>hid_idle_dirty := True\<rparr>"

definition tud_umount_cb :: "hid_state \<Rightarrow> hid_state" where
  "tud_umount_cb s = s\<lparr>hid_idle_dirty := True, hid_leds := 0, hid_core := bridge_core_abort (hid_core s)\<rparr>"

definition tud_suspend_cb :: "hid_state \<Rightarrow> hid_state" where
  "tud_suspend_cb s = s\<lparr>hid_idle_dirty := True, hid_core := bridge_core_abort (hid_core s)\<rparr>"

definition tud_resume_cb :: "hid_state \<Rightarrow> hid_state" where
  "tud_resume_cb s = s\<lparr>hid_idle_dirty := True\<rparr>"

text \<open>The callbacks \<open>tud_task\<close> may deliver that change the state.\<close>

datatype usb_event = Set_Report u8 u8 hid_report_type bytes | Set_Protocol | Set_Idle | Mount | Umount | Suspend | Resume

fun usb_event_step :: "usb_event \<Rightarrow> hid_state \<Rightarrow> hid_state" where
  "usb_event_step (Set_Report inst report_id report_type buffer) s = tud_hid_set_report_cb inst report_id report_type buffer s"
| "usb_event_step Set_Protocol s = tud_hid_set_protocol_cb s"
| "usb_event_step Set_Idle s = snd (tud_hid_set_idle_cb s)"
| "usb_event_step Mount s = tud_mount_cb s"
| "usb_event_step Umount s = tud_umount_cb s"
| "usb_event_step Suspend s = tud_suspend_cb s"
| "usb_event_step Resume s = tud_resume_cb s"

subsection \<open>The drain\<close>

record 'e usb_port =
  port_ready :: "'e \<Rightarrow> bool"
  port_report :: "u8 \<Rightarrow> bytes \<Rightarrow> 'e \<Rightarrow> bool \<times> 'e"
  port_task :: "'e \<Rightarrow> usb_event list \<times> 'e"
  port_clock :: "'e \<Rightarrow> u32 \<times> 'e"

text \<open>The stall guard at the top; the flag is the early return.\<close>

definition stall_guard :: "hid_state \<Rightarrow> bool \<times> hid_state" where
  "stall_guard s =
     (if core_state (hid_core s) = BRIDGE_STATE_EXECUTING then
        (if exec_since_ms s = 0 then (False, s\<lparr>exec_since_ms := usb_now_ms s\<rparr>)
         else if usb_now_ms s - exec_since_ms s > 2000
         then (True, s\<lparr>hid_core := bridge_core_abort (hid_core s), exec_since_ms := 0\<rparr>)
         else (False, s))
      else (False, s\<lparr>exec_since_ms := 0\<rparr>))"

text \<open>One round of the inner loop, which waits for the press report to be sent.\<close>

definition wait_round :: "'e usb_port \<Rightarrow> hid_state \<times> 'e \<Rightarrow> hid_state \<times> 'e" where
  "wait_round U p =
     (case p of (s, e) \<Rightarrow>
      case port_task U e of (events, e) \<Rightarrow>
      case port_clock U e of (now, e) \<Rightarrow> ((fold usb_event_step events s)\<lparr>usb_now_ms := now\<rparr>, e))"

partial_function (option) wait_ready :: "'e usb_port \<Rightarrow> u32 \<Rightarrow> hid_state \<times> 'e \<Rightarrow> (hid_state \<times> 'e) option" where
  "wait_ready U deadline p =
     (if \<not> port_ready U (snd p) \<and> usb_now_ms (fst p) < deadline then wait_ready U deadline (wait_round U p) else Some p)"

datatype hid_report = Press u8 u8 | Release

text \<open>
  One pass of the outer loop: the reports that were accepted and whether the loop goes on. A key press
  takes one stroke from the core, then a press report, the wait, and a release report; each
  failure leaves the loop.
\<close>

definition drain_round :: "'e usb_port \<Rightarrow> hid_state \<times> 'e \<Rightarrow> (hid_report list \<times> bool \<times> hid_state \<times> 'e) option" where
  "drain_round U p =
     (case p of (s, e) \<Rightarrow>
      case bridge_core_next (hid_core s) (usb_now_ms s) of (st, c, stroke) \<Rightarrow>
      let s = s\<lparr>hid_core := c\<rparr> in
      if st \<noteq> BRIDGE_OK then Some ([], False, s, e)
      else if usage stroke \<noteq> 0 then
        (case port_report U (modifier stroke) [usage stroke, 0, 0, 0, 0, 0] e of (ok, e) \<Rightarrow>
          if \<not> ok then Some ([], False, s, e)
          else let pressed = Press (modifier stroke) (usage stroke) in
            Option.bind (wait_ready U (usb_now_ms s + 100) (s, e)) (\<lambda>(s, e).
              if \<not> port_ready U e then Some ([pressed], False, s, e)
              else (case port_report U 0 [0, 0, 0, 0, 0, 0] e of (ok, e) \<Rightarrow>
                if \<not> ok then Some ([pressed], False, s, e) else Some ([pressed, Release], True, s, e))))
      else Some ([], True, s, e))"

partial_function (option) drain_loop ::
  "'e usb_port \<Rightarrow> hid_report list \<Rightarrow> hid_state \<times> 'e \<Rightarrow> (hid_report list \<times> hid_state \<times> 'e) option" where
  "drain_loop U trace p =
     (if \<not> port_ready U (snd p) then Some (trace, p)
      else Option.bind (drain_round U p) (\<lambda>r.
        if fst (snd r) then drain_loop U (trace @ fst r) (snd (snd r)) else Some (trace @ fst r, snd (snd r))))"

definition usb_hid_drain :: "'e usb_port \<Rightarrow> hid_state \<times> 'e \<Rightarrow> (hid_report list \<times> hid_state \<times> 'e) option" where
  "usb_hid_drain U p =
     (case stall_guard (fst p) of (stalled, s) \<Rightarrow>
        if stalled then Some ([], s, snd p) else drain_loop U [] (s, snd p))"

subsection \<open>Waiting ends\<close>

text \<open>
  What the firmware needs of its clock: from any port state on, whatever the reading \<open>t\<close>, either the
  endpoint becomes ready or some later reading of the clock is at least \<open>t\<close>.
\<close>

definition port_after :: "'e usb_port \<Rightarrow> 'e \<Rightarrow> 'e" where
  "port_after U e = snd (port_clock U (snd (port_task U e)))"

definition port_time :: "'e usb_port \<Rightarrow> 'e \<Rightarrow> u32" where
  "port_time U e = fst (port_clock U (snd (port_task U e)))"

definition clock_advances :: "'e usb_port \<Rightarrow> bool" where
  "clock_advances U \<longleftrightarrow> (\<forall>e t. \<exists>k. port_ready U ((port_after U ^^ Suc k) e) \<or> t \<le> port_time U ((port_after U ^^ k) e))"

lemma wait_round_parts:
  "snd (wait_round U p) = port_after U (snd p)" "usb_now_ms (fst (wait_round U p)) = port_time U (snd p)"
  "hid_core (fst (wait_round U p)) = hid_core (fold usb_event_step (fst (port_task U (snd p))) (fst p))"
  by (simp_all add: wait_round_def port_after_def port_time_def split: prod.split)

lemma wait_ready_returns:
  assumes "clock_advances U"
  shows "\<exists>q. wait_ready U deadline p = Some q"
proof -
  obtain k where "port_ready U ((port_after U ^^ Suc k) (snd p)) \<or> deadline \<le> port_time U ((port_after U ^^ k) (snd p))"
    using assms by (auto simp: clock_advances_def)
  then show ?thesis
  proof (induction k arbitrary: p)
    case 0
    then have "wait_ready U deadline (wait_round U p) = Some (wait_round U p)"
      by (subst wait_ready.simps) (auto simp: wait_round_parts)
    then show ?case by (subst wait_ready.simps) simp
  next
    case (Suc k)
    then have "port_ready U ((port_after U ^^ Suc k) (snd (wait_round U p))) \<or>
        deadline \<le> port_time U ((port_after U ^^ k) (snd (wait_round U p)))"
      by (simp add: wait_round_parts funpow_swap1)
    from Suc.IH [OF this] show ?case by (subst wait_ready.simps) simp
  qed
qed

text \<open>What a wait keeps: any property of the core that an abort keeps.\<close>

lemma events_core:
  "hid_core (fold usb_event_step events s) = hid_core s \<or>
   hid_core (fold usb_event_step events s) = bridge_core_abort (hid_core s)"
proof (induction events arbitrary: s)
  case (Cons ev events)
  have "hid_core (usb_event_step ev s) = hid_core s \<or> hid_core (usb_event_step ev s) = bridge_core_abort (hid_core s)"
    by (cases ev) (simp_all add: tud_hid_set_report_cb_def tud_hid_set_protocol_cb_def tud_hid_set_idle_cb_def
        tud_mount_cb_def tud_umount_cb_def tud_suspend_cb_def tud_resume_cb_def)
  moreover have "bridge_core_abort (bridge_core_abort c) = bridge_core_abort c" for c by (simp add: bridge_core_abort_def)
  ultimately show ?case using Cons.IH [of "usb_event_step ev s"] by auto
qed simp

lemma events_since: "exec_since_ms (fold usb_event_step events s) = exec_since_ms s"
proof (induction events arbitrary: s)
  case (Cons ev events)
  have "exec_since_ms (usb_event_step ev s) = exec_since_ms s"
    by (cases ev) (simp_all add: tud_hid_set_report_cb_def tud_hid_set_protocol_cb_def tud_hid_set_idle_cb_def
        tud_mount_cb_def tud_umount_cb_def tud_suspend_cb_def tud_resume_cb_def)
  then show ?case using Cons.IH [of "usb_event_step ev s"] by simp
qed simp

definition same_or_aborted :: "hid_state \<Rightarrow> hid_state \<Rightarrow> bool" where
  "same_or_aborted t s \<longleftrightarrow> exec_since_ms t = exec_since_ms s \<and>
     (hid_core t = hid_core s \<or> hid_core t = bridge_core_abort (hid_core s))"

lemma wait_round_keeps: "same_or_aborted t (fst (wait_round U p)) \<Longrightarrow> same_or_aborted t (fst p)"
  using events_core [of "fst (port_task U (snd p))" "fst p"] events_since [of "fst (port_task U (snd p))" "fst p"]
  by (auto simp: same_or_aborted_def wait_round_def bridge_core_abort_def split: prod.splits)

lemma wait_ready_keeps:
  assumes "wait_ready U deadline p = Some q"
  shows "same_or_aborted (fst q) (fst p)"
proof (rule wait_ready.raw_induct [where P = "\<lambda>U deadline p q. same_or_aborted (fst q) (fst p)", OF _ assms])
  fix wait and U :: "'a usb_port" and deadline p q
  assume "\<And>U deadline p q. wait U deadline p = Some q \<Longrightarrow> same_or_aborted (fst q) (fst p)"
    and "(if \<not> port_ready U (snd p) \<and> usb_now_ms (fst p) < deadline then wait U deadline (wait_round U p) else Some p) = Some q"
  then show "same_or_aborted (fst q) (fst p)"
    using wait_round_keeps [of "fst q" U p] by (cases "\<not> port_ready U (snd p) \<and> usb_now_ms (fst p) < deadline")
      (auto simp: same_or_aborted_def)
qed

lemma abort_pending: "pending (bridge_core_abort c) = []" "core_ok c \<Longrightarrow> core_ok (bridge_core_abort c)"
  by (simp_all add: bridge_core_abort_def core_ok_terminate)

subsection \<open>A pass of the drain\<close>

lemma next_gives_pending:
  assumes "core_ok c" and "bridge_core_next c now = (BRIDGE_OK, d, k)"
  shows "pending c = k # pending d" and "usage k \<noteq> 0" and "core_ok d"
proof -
  from assms(2) show p: "pending c = k # pending d"
  proof (cases rule: bridge_core_next_cases)
    case ok
    then have "cursor c < stroke_count c" using assms(1) by (simp add: core_ok_def job_active_def)
    then show ?thesis using pending_simps [of c zero_stroke] ok by simp
  qed simp_all
  have "core_state c = BRIDGE_STATE_EXECUTING" using assms(2) by (rule bridge_core_next_cases) simp_all
  then have "hid_range k" using assms(1) p by (simp add: core_ok_def job_active_def)
  then show "usage k \<noteq> 0" by (auto simp: hid_range_def)
  show "core_ok d" by (rule core_ok_next [OF assms])
qed

lemma next_other_pending:
  assumes "core_ok c" and "bridge_core_next c now = (st, d, k)" and "st \<noteq> BRIDGE_OK"
  shows "pending d = pending c \<or> pending d = []"
  using assms(2) by (rule bridge_core_next_cases) (use assms(3) in simp_all)

lemma drain_round_cases:
  assumes "drain_round U (s, e) = Some (tr, go, t, f)" and "core_ok (hid_core s)"
  obtains (idle) "tr = []" "\<not> go" "core_ok (hid_core t)" "exec_since_ms t = exec_since_ms s"
      "pending (hid_core t) = pending (hid_core s) \<or> pending (hid_core t) = []"
  | (key) k rest where "pending (hid_core s) = k # rest" "core_ok (hid_core t)" "exec_since_ms t = exec_since_ms s"
      "pending (hid_core t) = rest \<or> pending (hid_core t) = []"
      "(\<not> go \<and> (tr = [] \<or> tr = [Press (modifier k) (usage k)])) \<or> (go \<and> tr = [Press (modifier k) (usage k), Release])"
proof -
  obtain st c k where n: "bridge_core_next (hid_core s) (usb_now_ms s) = (st, c, k)" by (metis prod_cases3)
  show ?thesis
  proof (cases "st = BRIDGE_OK")
    case False
    then have "tr = []" "\<not> go" "t = s\<lparr>hid_core := c\<rparr>" using assms(1) n by (simp_all add: drain_round_def)
    then show ?thesis using idle core_ok_next [OF assms(2) n] next_other_pending [OF assms(2) n False] by simp
  next
    case True
    note p = next_gives_pending [OF assms(2) n [unfolded True]]
    let ?s = "s\<lparr>hid_core := c\<rparr>" and ?press = "Press (modifier k) (usage k)"
    obtain ok e1 where r: "port_report U (modifier k) [usage k, 0, 0, 0, 0, 0] e = (ok, e1)" by fastforce
    show ?thesis
    proof (cases ok)
      case False
      then have "tr = []" "\<not> go" "t = ?s" using assms(1) n True p(2) r by (simp_all add: drain_round_def Let_def)
      then show ?thesis using key [OF p(1)] p(3) by simp
    next
      case ok: True
      then obtain s2 e2 where w: "wait_ready U (usb_now_ms s + 100) (?s, e1) = Some (s2, e2)"
        using assms(1) n True p(2) r by (auto simp: drain_round_def Let_def bind_eq_Some_conv)
      have k: "same_or_aborted s2 ?s" using wait_ready_keeps [OF w] by simp
      have "t = s2 \<and> ((\<not> go \<and> tr = [?press]) \<or> (go \<and> tr = [?press, Release]))"
        using assms(1) n True p(2) r ok w by (auto simp: drain_round_def Let_def split: if_splits prod.splits)
      then show ?thesis using key [OF p(1)] k p(3) abort_pending by (auto simp: same_or_aborted_def)
    qed
  qed
qed

text \<open>What the host has seen after some keys: each pressed and released. The last key may be cut short.\<close>

definition key_reports :: "bridge_stroke list \<Rightarrow> hid_report list" where
  "key_reports ks = concat (map (\<lambda>k. [Press (modifier k) (usage k), Release]) ks)"

definition typed :: "bridge_stroke list \<Rightarrow> hid_report list \<Rightarrow> bridge_stroke list \<Rightarrow> bool" where
  "typed ks tr rest \<longleftrightarrow> (\<exists>done cut left. ks = done @ cut @ left \<and> (rest = left \<or> rest = []) \<and>
     (tr = key_reports done \<and> length cut \<le> 1 \<or>
      (\<exists>k. cut = [k] \<and> tr = key_reports done @ [Press (modifier k) (usage k)])))"

lemma typed_nothing: "rest = ks \<or> rest = [] \<Longrightarrow> typed ks [] rest"
  by (auto simp: typed_def key_reports_def intro: exI [of _ "[]"])

lemma typed_Cons: "typed ks tr rest \<Longrightarrow> typed (k # ks) (Press (modifier k) (usage k) # Release # tr) rest"
proof -
  assume "typed ks tr rest"
  then obtain don cut left where "ks = don @ cut @ left" "rest = left \<or> rest = []"
    "tr = key_reports don \<and> length cut \<le> 1 \<or> (\<exists>k. cut = [k] \<and> tr = key_reports don @ [Press (modifier k) (usage k)])"
    by (auto simp: typed_def)
  then show ?thesis
    unfolding typed_def by (intro exI [of _ "k # don"] exI [of _ cut] exI [of _ left]) (auto simp: key_reports_def)
qed

lemma typed_cut:
  "rest = ks \<or> rest = [] \<Longrightarrow> tr = [] \<or> tr = [Press (modifier k) (usage k)] \<Longrightarrow> typed (k # ks) tr rest"
  unfolding typed_def by (intro exI [of _ "[]"] exI [of _ "[k]"] exI [of _ ks]) (auto simp: key_reports_def)

lemma typed_rest_nil: "typed [] tr rest \<Longrightarrow> tr = [] \<and> rest = []"
  by (auto simp: typed_def key_reports_def)

definition drain_types :: "hid_report list \<Rightarrow> hid_state \<Rightarrow> hid_report list \<Rightarrow> hid_state \<Rightarrow> bool" where
  "drain_types trace s trace' t \<longleftrightarrow> (core_ok (hid_core s) \<longrightarrow> (\<exists>tr. trace' = trace @ tr \<and>
     typed (pending (hid_core s)) tr (pending (hid_core t)) \<and> core_ok (hid_core t) \<and> exec_since_ms t = exec_since_ms s))"

lemma drain_pass_types:
  assumes IH: "\<And>trace p r. loop U trace p = Some r \<Longrightarrow> drain_types trace (fst p) (fst r) (fst (snd r))"
    and step: "(if \<not> port_ready U (snd p) then Some (trace, p) else Option.bind (drain_round U p)
      (\<lambda>r. if fst (snd r) then loop U (trace @ fst r) (snd (snd r)) else Some (trace @ fst r, snd (snd r)))) = Some r"
  shows "drain_types trace (fst p) (fst r) (fst (snd r))"
  unfolding drain_types_def
proof
  assume ok: "core_ok (hid_core (fst p))"
  obtain s e where p: "p = (s, e)" by fastforce
  let ?s = "pending (hid_core s)" and ?t = "fst (snd r)"
  show "\<exists>tr. fst r = trace @ tr \<and> typed (pending (hid_core (fst p))) tr (pending (hid_core ?t)) \<and>
    core_ok (hid_core ?t) \<and> exec_since_ms ?t = exec_since_ms (fst p)"
  proof (cases "port_ready U e")
    case False
    then have "r = (trace, s, e)" using step by (simp add: p)
    then show ?thesis using ok typed_nothing [of ?s ?s] by (simp add: p)
  next
    case True
    then obtain x where x: "drain_round U (s, e) = Some x"
      "(if fst (snd x) then loop U (trace @ fst x) (snd (snd x)) else Some (trace @ fst x, snd (snd x))) = Some r"
      using step unfolding p snd_conv by (auto simp only: not_True_eq_False if_False bind_eq_Some_conv)
    obtain tr go t f where xp: "x = (tr, go, t, f)" by (metis prod_cases4)
    have d: "drain_round U (s, e) = Some (tr, go, t, f)"
      and r: "(if go then loop U (trace @ tr) (t, f) else Some (trace @ tr, t, f)) = Some r"
      using x by (simp_all add: xp split: if_splits)
    have ok': "core_ok (hid_core s)" using ok by (simp add: p)
    from d ok' show ?thesis
    proof (cases rule: drain_round_cases)
      case idle
      then show ?thesis using r typed_nothing by (auto simp: p)
    next
      case (key k rest)
      show ?thesis
      proof (cases go)
        case True
        then have tr: "tr = [Press (modifier k) (usage k), Release]" using key(5) by simp
        have "drain_types (trace @ tr) t (fst r) ?t" using IH [of "trace @ tr" "(t, f)" r] r True by simp
        then obtain tr' where t: "fst r = (trace @ tr) @ tr'" "typed (pending (hid_core t)) tr' (pending (hid_core ?t))"
          "core_ok (hid_core ?t)" "exec_since_ms ?t = exec_since_ms t"
          using key(2) by (auto simp: drain_types_def)
        have "typed rest tr' (pending (hid_core ?t))"
          using key(4)
        proof
          assume "pending (hid_core t) = []"
          with t(2) have "tr' = [] \<and> pending (hid_core ?t) = []" using typed_rest_nil by simp
          then show ?thesis using typed_nothing [of "[]" rest] by simp
        qed (use t(2) in simp)
        then show ?thesis using t(1,3,4) key(1,3) tr typed_Cons by (auto simp: p)
      next
        case False
        then show ?thesis using r key typed_cut [of "pending (hid_core t)" rest tr k] by (auto simp: p)
      qed
    qed
  qed
qed

lemma drain_loop_types:
  assumes "drain_loop U trace p = Some r"
  shows "drain_types trace (fst p) (fst r) (fst (snd r))"
proof (rule drain_loop.raw_induct [where P = "\<lambda>U trace p r. drain_types trace (fst p) (fst r) (fst (snd r))", OF _ assms])
  fix loop and U :: "'a usb_port" and trace p r
  assume "\<And>U trace p r. loop U trace p = Some r \<Longrightarrow> drain_types trace (fst p) (fst r) (fst (snd r))"
    and "(if \<not> port_ready U (snd p) then Some (trace, p) else Option.bind (drain_round U p)
      (\<lambda>r. if fst (snd r) then loop U (trace @ fst r) (snd (snd r)) else Some (trace @ fst r, snd (snd r)))) = Some r"
  then show "drain_types trace (fst p) (fst r) (fst (snd r))" by (rule drain_pass_types)
qed

lemma drain_round_returns:
  assumes "clock_advances U"
  shows "\<exists>r. drain_round U p = Some r"
proof -
  obtain s e where p: "p = (s, e)" by fastforce
  obtain st c k where n: "bridge_core_next (hid_core s) (usb_now_ms s) = (st, c, k)" by (metis prod_cases3)
  obtain ok e1 where r: "port_report U (modifier k) [usage k, 0, 0, 0, 0, 0] e = (ok, e1)" by fastforce
  obtain s2 e2 where w: "wait_ready U (usb_now_ms s + 100) (s\<lparr>hid_core := c\<rparr>, e1) = Some (s2, e2)"
    using wait_ready_returns [OF assms] by fastforce
  then show ?thesis by (auto simp: p drain_round_def n r Let_def split: prod.splits)
qed

lemma drain_loop_returns:
  assumes "clock_advances U"
  shows "core_ok (hid_core (fst p)) \<Longrightarrow> \<exists>r. drain_loop U trace p = Some r"
proof (induction "size (hid_core (fst p))" arbitrary: p trace rule: less_induct)
  case less
  obtain s e where p: "p = (s, e)" by fastforce
  obtain tr go t f where d: "drain_round U (s, e) = Some (tr, go, t, f)"
    using drain_round_returns [OF assms, of "(s, e)"] by (metis prod_cases4)
  have ok: "core_ok (hid_core s)" using less(2) by (simp add: p)
  show ?case
  proof (cases "go \<and> port_ready U e")
    case False
    then show ?thesis by (subst drain_loop.simps) (auto simp: p d)
  next
    case True
    from d ok have "core_ok (hid_core t) \<and> size (hid_core t) < size (hid_core s)"
      by (cases rule: drain_round_cases) (use True in \<open>auto simp: size_core\<close>)
    then have "\<exists>r. drain_loop U (trace @ tr) (t, f) = Some r" by (intro less(1)) (simp_all add: p)
    then obtain r where "drain_loop U (trace @ tr) (t, f) = Some r" by blast
    then have "drain_loop U trace p = Some r" using True by (subst drain_loop.simps) (simp add: p d)
    then show ?thesis by blast
  qed
qed

lemma stall_guard_core:
  assumes "core_ok (hid_core s)" and "stall_guard s = (stalled, t)"
  shows "core_ok (hid_core t)" and "\<not> stalled \<Longrightarrow> hid_core t = hid_core s" and "stalled \<Longrightarrow> pending (hid_core t) = []"
  using assms abort_pending by (auto simp: stall_guard_def split: if_splits)

lemma drain_returns:
  assumes "clock_advances U"
  shows "core_ok (hid_core (fst p)) \<Longrightarrow> \<exists>r. usb_hid_drain U p = Some r"
proof -
  assume ok: "core_ok (hid_core (fst p))"
  obtain stalled s where g: "stall_guard (fst p) = (stalled, s)" by fastforce
  have "\<exists>r. drain_loop U [] (s, snd p) = Some r"
    by (rule drain_loop_returns [OF assms]) (use stall_guard_core(1) [OF ok g] in simp)
  then show ?thesis using g by (auto simp: usb_hid_drain_def)
qed

lemma drain_typed:
  assumes "usb_hid_drain U (s, e) = Some (tr, t, f)" and "core_ok (hid_core s)"
  shows "typed (pending (hid_core s)) tr (pending (hid_core t))"
proof -
  obtain stalled s' where g: "stall_guard s = (stalled, s')" by fastforce
  note c = stall_guard_core [OF assms(2) g]
  show ?thesis
  proof (cases stalled)
    case True
    then show ?thesis using assms(1) g c(3) typed_nothing by (simp add: usb_hid_drain_def)
  next
    case False
    then have "drain_loop U [] (s', e) = Some (tr, t, f)" using assms(1) g by (simp add: usb_hid_drain_def)
    from drain_loop_types [OF this] c(1,2) False show ?thesis by (auto simp: drain_types_def)
  qed
qed

subsection \<open>Properties\<close>

text \<open>C31: the drain returns. If the clock advances, \<open>usb_hid_drain\<close> terminates from every state of the firmware and
  of the port, whatever callbacks arrive while it waits: both loops end, the inner one at its deadline,
  the outer one when the port is busy, a report is refused or the core has nothing to type.\<close>

theorem usb_hid_drain_returns:
  assumes "clock_advances U" and "core_ok (hid_core s)"
  shows "\<exists>tr t f. usb_hid_drain U (s, e) = Some (tr, t, f) \<and> core_ok (hid_core t)"
proof -
  obtain r where r: "usb_hid_drain U (s, e) = Some r" using drain_returns [OF assms(1), of "(s, e)"] assms(2) by auto
  obtain stalled s' where g: "stall_guard s = (stalled, s')" by fastforce
  have "core_ok (hid_core (fst (snd r)))"
  proof (cases stalled)
    case True
    then show ?thesis using r g stall_guard_core(1) [OF assms(2) g] by (auto simp: usb_hid_drain_def)
  next
    case False
    then have "drain_loop U [] (s', e) = Some r" using r g by (simp add: usb_hid_drain_def)
    from drain_loop_types [OF this] stall_guard_core(1) [OF assms(2) g] show ?thesis by (auto simp: drain_types_def)
  qed
  then show ?thesis using r by (cases r) auto
qed



text \<open>A port that is always ready, with a clock that counts its readings.\<close>

definition demo_port :: "nat usb_port" where
  "demo_port = \<lparr>port_ready = (\<lambda>e. True), port_report = (\<lambda>m keys e. (True, e)), port_task = (\<lambda>e. ([], e)),
     port_clock = (\<lambda>e. (of_nat e, Suc e))\<rparr>"

definition demo_keyboard :: "u32 \<Rightarrow> hid_state" where
  "demo_keyboard since = \<lparr>hid_leds = 0, hid_idle_dirty = False, exec_since_ms = since, usb_now_ms = 3000,
     hid_core = after_power_up demo_calls\<rparr>"

lemma demo_clock: "clock_advances demo_port"
  by (simp add: clock_advances_def demo_port_def)

lemma demo_keyboard_ok: "core_ok (hid_core (demo_keyboard since))"
  "core_state (hid_core (demo_keyboard since)) = BRIDGE_STATE_EXECUTING"
  using after_power_up_ok demo_typing by (simp_all add: demo_keyboard_def abs_core_typing)

theorem usb_hid_drain_returns_witness:
  "\<exists>tr t f. usb_hid_drain demo_port (demo_keyboard 0, 3000) = Some (tr, t, f) \<and> core_ok (hid_core t)"
  by (rule usb_hid_drain_returns [OF demo_clock demo_keyboard_ok(1)])



end
