(* ===== verification/Usb_Descriptors.thy ===== *)
theory Usb_Descriptors
  imports Usb_Hid
begin

section \<open>The USB descriptors (firmware/usb_descriptors.c)\<close>

text \<open>
  The identity strings and the descriptor tables. The static buffer of the string callback is part of the state,
  so what it holds from earlier calls is in the model. A C string that is read is a byte list that holds its
  terminating zero. The second half reads the report descriptor as a host does and states what a keyboard report means to it.
\<close>

record usb_identity =
  serial_string :: bytes
  product_string :: bytes
  descriptor_buffer :: "u16 list"

definition usb_text :: "string \<Rightarrow> bytes" where
  "usb_text s = map of_char s"

definition usb_identity_init :: usb_identity where
  "usb_identity_init = \<lparr>serial_string = usb_text ''UNSET'' @ replicate 28 0,
     product_string = usb_text ''PicoBridge idle / CYW43 FAIL'' @ [0], descriptor_buffer = replicate 64 0\<rparr>"

fun copy_serial :: "bytes \<Rightarrow> nat \<Rightarrow> nat \<Rightarrow> bytes \<Rightarrow> nat \<times> bytes" where
  "copy_serial serial n 0 buf = (n, buf)"
| "copy_serial serial n (Suc m) buf =
     (if serial ! n \<noteq> 0 then copy_serial serial (Suc n) m (buf[n := serial ! n]) else (n, buf))"

definition bridge_usb_set_identity :: "bytes option \<Rightarrow> bool \<Rightarrow> usb_identity \<Rightarrow> usb_identity" where
  "bridge_usb_set_identity serial radio_ok u =
     (case (case serial of None \<Rightarrow> (0, serial_string u) | Some p \<Rightarrow> copy_serial p 0 32 (serial_string u)) of
        (n, buf) \<Rightarrow> u\<lparr>serial_string := buf[n := 0],
          product_string := usb_text (if radio_ok then ''PicoBridge idle / CYW43 OK'' else ''PicoBridge idle / CYW43 FAIL'') @ [0]\<rparr>)"

fun widen_string :: "bytes \<Rightarrow> nat \<Rightarrow> nat \<Rightarrow> u16 list \<Rightarrow> nat \<times> u16 list" where
  "widen_string s n 0 buf = (n, buf)"
| "widen_string s n (Suc m) buf =
     (if s ! n \<noteq> 0 then widen_string s (Suc n) m (buf[n + 1 := ucast (s ! n)]) else (n, buf))"

text \<open>The result is the address of the buffer or null; the buffer is in the state.\<close>

definition tud_descriptor_string_cb :: "u8 \<Rightarrow> u16 \<Rightarrow> usb_identity \<Rightarrow> bool \<times> usb_identity" where
  "tud_descriptor_string_cb index langid u =
     (if index = 0 then (True, u\<lparr>descriptor_buffer := (descriptor_buffer u)[0 := 0x0304, 1 := 0x0409]\<rparr>)
      else if langid \<noteq> 0x0409 then (False, u)
      else (case (if index = 1 then Some (usb_text ''Local PicoBridge prototype'' @ [0])
                  else if index = 2 then Some (product_string u)
                  else if index = 3 then Some (serial_string u) else None) of
          None \<Rightarrow> (False, u)
        | Some s \<Rightarrow> (case widen_string s 0 63 (descriptor_buffer u) of
            (n, buf) \<Rightarrow> (True, u\<lparr>descriptor_buffer := buf[0 := 0x0300 OR of_nat (2 * n + 2)]\<rparr>))))"

definition device_descriptor :: bytes where
  "device_descriptor = [18, 1, 0x00, 0x02, 0, 0, 0, 64, 0xfe, 0xca, 0x10, 0x40, 0x01, 0x00, 1, 2, 3, 1]"

definition keyboard_report :: bytes where
  "keyboard_report = [
     0x05, 0x01, 0x09, 0x06, 0xa1, 0x01,
     0x05, 0x07, 0x19, 0xe0, 0x29, 0xe7, 0x15, 0x00, 0x25, 0x01,
     0x75, 0x01, 0x95, 0x08, 0x81, 0x02,
     0x95, 0x01, 0x75, 0x08, 0x81, 0x01,
     0x95, 0x05, 0x75, 0x01, 0x05, 0x08, 0x19, 0x01, 0x29, 0x05, 0x91, 0x02,
     0x95, 0x01, 0x75, 0x03, 0x91, 0x01,
     0x95, 0x06, 0x75, 0x08, 0x15, 0x00, 0x25, 0x65,
     0x05, 0x07, 0x19, 0x00, 0x29, 0x65, 0x81, 0x00, 0xc0]"

definition configuration :: bytes where
  "configuration = [
     9, 2, 34, 0, 1, 1, 0, 0x80, 250,
     9, 4, 0, 0, 1, 3, 1, 1, 0,
     9, 0x21, 0x11, 0x01, 0, 1, 0x22, of_nat (length keyboard_report), 0,
     7, 5, 0x81, 3, 8, 0, 10]"

definition tud_descriptor_device_cb :: bytes where
  "tud_descriptor_device_cb = device_descriptor"

definition tud_descriptor_configuration_cb :: "u8 \<Rightarrow> bytes option" where
  "tud_descriptor_configuration_cb index = (if index = 0 then Some configuration else None)"

definition tud_hid_descriptor_report_cb :: "u8 \<Rightarrow> bytes option" where
  "tud_hid_descriptor_report_cb inst = (if inst = 0 then Some keyboard_report else None)"

subsection \<open>Strings\<close>

text \<open>A string as the host reads it: type 3, the length in bytes in the low byte, one code unit per character.\<close>

definition host_string :: "u16 list \<Rightarrow> u16 list option" where
  "host_string d =
     (if drop_bit 8 (d ! 0) = 3 then Some (take ((unat (d ! 0 AND 0xff) - 2) div 2) (drop 1 d)) else None)"

definition identity_ok :: "usb_identity \<Rightarrow> bool" where
  "identity_ok u \<longleftrightarrow> length (serial_string u) = 33 \<and> 0 \<in> set (serial_string u) \<and>
     product_string u \<in> {usb_text ''PicoBridge idle / CYW43 OK'' @ [0], usb_text ''PicoBridge idle / CYW43 FAIL'' @ [0]} \<and>
     length (descriptor_buffer u) = 64"

lemma copy_serial_eq:
  "n + m \<le> length buf \<Longrightarrow> 0 \<in> set serial \<or> n + m \<le> length serial \<Longrightarrow> (\<forall>i < n. serial ! i \<noteq> 0) \<Longrightarrow>
     copy_serial serial n m buf =
       (n + length (c_string (take m (drop n serial))), memcpy_at buf n (c_string (take m (drop n serial))))"
proof (induction m arbitrary: n buf)
  case 0
  then show ?case by (simp add: c_string_def memcpy_at_def)
next
  case (Suc m)
  have n: "n < length serial"
  proof (rule ccontr)
    assume l: "\<not> n < length serial"
    then have "0 \<in> set serial" using Suc.prems(2) by simp
    then obtain i where "i < length serial" "serial ! i = 0" by (auto simp: in_set_conv_nth)
    then show False using Suc.prems(3) l by simp
  qed
  then have d: "drop n serial = serial ! n # drop (Suc n) serial" by (simp add: Cons_nth_drop_Suc)
  show ?case
  proof (cases "serial ! n = 0")
    case True
    then show ?thesis by (simp add: d c_string_def memcpy_at_def)
  next
    case False
    then have "\<forall>i < Suc n. serial ! i \<noteq> 0" using Suc.prems(3) less_Suc_eq by auto
    then have "copy_serial serial (Suc n) m (buf[n := serial ! n]) =
        (Suc n + length (c_string (take m (drop (Suc n) serial))), memcpy_at (buf[n := serial ! n]) (Suc n) (c_string (take m (drop (Suc n) serial))))"
      using Suc.prems by (intro Suc.IH) auto
    moreover have "memcpy_at (buf[n := serial ! n]) (Suc n) xs = memcpy_at buf n (serial ! n # xs)" for xs
      using Suc.prems(1) by (simp add: memcpy_at_def upd_conv_take_nth_drop min_def take_update_swap ac_simps)
    ultimately show ?thesis using False d by (simp add: c_string_def)
  qed
qed

lemma widen_string_eq:
  "n + m < length buf \<Longrightarrow> 0 \<in> set (drop n s) \<Longrightarrow>
     (let k = length (c_string (take m (drop n s))) in
      fst (widen_string s n m buf) = n + k \<and> length (snd (widen_string s n m buf)) = length buf \<and>
      take (n + k + 1) (snd (widen_string s n m buf)) = take (n + 1) buf @ map ucast (c_string (take m (drop n s))))"
proof (induction m arbitrary: n buf)
  case 0
  then show ?case by (simp add: c_string_def)
next
  case (Suc m)
  then have n: "n < length s" by (metis drop_eq_Nil2 empty_iff list.set(1) not_le)
  then have d: "drop n s = s ! n # drop (Suc n) s" by (simp add: Cons_nth_drop_Suc)
  show ?case
  proof (cases "s ! n = 0")
    case True
    then show ?thesis by (simp add: d c_string_def)
  next
    case False
    let ?buf = "buf[n + 1 := ucast (s ! n)]"
    have "take (Suc n + 1) ?buf = take (n + 1) buf @ [ucast (s ! n)]"
      using Suc.prems(1) by (simp add: take_Suc_conv_app_nth)
    then show ?thesis using Suc.IH [of "Suc n" ?buf] Suc.prems False d by (auto simp: c_string_def Let_def)
  qed
qed

lemma c_string_prefix: "length xs \<le> m \<Longrightarrow> 0 \<notin> set xs \<Longrightarrow> c_string (xs @ 0 # ys) = xs \<and> c_string (take (Suc m) (xs @ 0 # ys)) = xs"
proof -
  assume l: "length xs \<le> m" and n: "0 \<notin> set xs"
  then obtain k where "Suc m - length xs = Suc k" by (metis Suc_diff_le)
  then have "take (Suc m) (xs @ 0 # ys) = xs @ 0 # take k ys" using l by simp
  moreover have "c_string (xs @ 0 # zs) = xs" for zs using n by (simp add: c_string_def takeWhile_append)
  ultimately show ?thesis by metis
qed

lemma c_string_no_zero: "0 \<notin> set (c_string s)"
  by (auto simp: c_string_def dest: set_takeWhileD)

lemma c_string_take: "c_string (take m s) = take m (c_string s)"
proof (induction s arbitrary: m)
  case (Cons c s)
  then show ?case by (cases m) (simp_all add: c_string_def)
qed (simp add: c_string_def)

lemma header_word:
  assumes "m < 256"
  shows "drop_bit 8 (0x0300 OR of_nat m :: u16) = 3" "unat ((0x0300 OR of_nat m :: u16) AND 0xff) = m"
proof -
  let ?w = "of_nat m :: u16"
  have w: "unat ?w = m" using assms by (simp add: unsigned_of_nat take_bit_nat_eq_self)
  have "unat (drop_bit 8 ?w) = drop_bit 8 (unat ?w)" by (rule unat_drop_bit_eq)
  also have "\<dots> = 0" unfolding w using assms by (simp add: drop_bit_eq_div)
  finally have "unat (drop_bit 8 ?w) = 0" .
  then have "drop_bit 8 ?w = 0" by (simp add: unat_eq_0)
  then show "drop_bit 8 (0x0300 OR ?w) = 3" by (simp only: drop_bit_or) simp
  have "(0x0300 OR ?w) AND 0xff = take_bit 8 (0x0300 OR ?w)" by (simp add: take_bit_eq_mask mask_eq_exp_minus_1)
  also have "\<dots> = take_bit 8 ?w" by (simp only: take_bit_or) simp
  finally show "unat ((0x0300 OR ?w) AND 0xff) = m"
    using assms by (simp only: unsigned_take_bit_eq w) (simp add: take_bit_nat_eq_self)
qed

text \<open>The text of an index.\<close>

definition identity_text :: "usb_identity \<Rightarrow> u8 \<Rightarrow> bytes" where
  "identity_text u index =
     (if index = 1 then usb_text ''Local PicoBridge prototype'' else c_string (if index = 2 then product_string u else serial_string u))"

lemma string_callback:
  assumes "identity_ok u" "index \<in> {1, 2, 3}"
  obtains w where "tud_descriptor_string_cb index 0x0409 u = (True, w)" "identity_ok w"
    "serial_string w = serial_string u" "product_string w = product_string u"
    "host_string (descriptor_buffer w) = Some (map ucast (identity_text u index))"
proof -
  define s where "s = (if index = 1 then usb_text ''Local PicoBridge prototype'' @ [0] else if index = 2 then product_string u else serial_string u)"
  have zero: "0 \<in> set s" and short: "length s \<le> 63" using assms by (auto simp: s_def identity_ok_def usb_text_def)
  have content: "c_string (take 63 s) = identity_text u index"
    using short assms(2) by (auto simp: s_def identity_text_def usb_text_def c_string_def)
  let ?r = "widen_string s 0 63 (descriptor_buffer u)" and ?k = "length (c_string (take 63 s))"
  have k: "?k \<le> 63" using length_takeWhile_le [of "\<lambda>c. c \<noteq> 0" "take 63 s"] by (simp add: c_string_def)
  have buf: "length (descriptor_buffer u) = 64" using assms(1) by (simp add: identity_ok_def)
  have r: "fst ?r = ?k" "length (snd ?r) = 64"
      "take (?k + 1) (snd ?r) = take 1 (descriptor_buffer u) @ map ucast (c_string (take 63 s))"
    using widen_string_eq [of 0 63 "descriptor_buffer u" s] zero buf by (simp_all add: Let_def)
  let ?w = "u\<lparr>descriptor_buffer := (snd ?r)[0 := 0x0300 OR of_nat (2 * fst ?r + 2)]\<rparr>"
  have called: "tud_descriptor_string_cb index 0x0409 u = (True, ?w)"
    using assms(2) unfolding tud_descriptor_string_cb_def s_def by (auto split: prod.split)
  have ok: "identity_ok ?w" using assms(1) r(2) by (simp add: identity_ok_def)
  have host: "host_string (descriptor_buffer ?w) = Some (map ucast (identity_text u index))"
  proof -
    have "take ?k (drop 1 (snd ?r)) = drop 1 (take (?k + 1) (snd ?r))" by (simp add: drop_take)
    also have "\<dots> = map ucast (c_string (take 63 s))" using buf unfolding r(3) by (cases "descriptor_buffer u") auto
    finally have "take ?k (drop 1 (snd ?r)) = map ucast (identity_text u index)" using content by simp
    moreover have "snd ?r \<noteq> []" using r(2) by auto
    ultimately show ?thesis unfolding host_string_def r(1) using header_word [of "2 * ?k + 2"] k r(2) by simp
  qed
  show ?thesis by (rule that [OF called ok _ _ host]) simp_all
qed

lemma set_identity:
  assumes "identity_ok u" "0 \<in> set serial \<or> 32 \<le> length serial"
  shows "identity_ok (bridge_usb_set_identity (Some serial) ok u)"
    and "c_string (serial_string (bridge_usb_set_identity (Some serial) ok u)) = take 32 (c_string serial)"
    and "product_string (bridge_usb_set_identity (Some serial) ok u) =
      usb_text (if ok then ''PicoBridge idle / CYW43 OK'' else ''PicoBridge idle / CYW43 FAIL'') @ [0]"
proof -
  let ?t = "take 32 (c_string serial)"
  have buf: "length (serial_string u) = 33" using assms(1) by (simp add: identity_ok_def)
  have c: "copy_serial serial 0 32 (serial_string u) = (length ?t, memcpy_at (serial_string u) 0 ?t)"
    using copy_serial_eq [of 0 32 "serial_string u" serial] assms(2) buf by (simp add: c_string_take)
  have "(memcpy_at (serial_string u) 0 ?t)[length ?t := 0] = ?t @ 0 # drop (Suc (length ?t)) (serial_string u)"
    using buf by (simp add: memcpy_at_def list_update_append upd_conv_take_nth_drop)
  then have s: "serial_string (bridge_usb_set_identity (Some serial) ok u) = ?t @ 0 # drop (Suc (length ?t)) (serial_string u)"
    by (simp add: bridge_usb_set_identity_def c)
  have z: "0 \<notin> set ?t" using c_string_no_zero [of serial] by (auto dest: in_set_takeD)
  show "c_string (serial_string (bridge_usb_set_identity (Some serial) ok u)) = ?t"
    unfolding s using c_string_prefix [of ?t 32] z by simp
  show p: "product_string (bridge_usb_set_identity (Some serial) ok u) =
      usb_text (if ok then ''PicoBridge idle / CYW43 OK'' else ''PicoBridge idle / CYW43 FAIL'') @ [0]"
    by (simp add: bridge_usb_set_identity_def c)
  show "identity_ok (bridge_usb_set_identity (Some serial) ok u)"
    using assms(1) buf unfolding identity_ok_def p s by (simp add: bridge_usb_set_identity_def c)
qed

subsection \<open>The report descriptor as a host reads it\<close>

text \<open>Short items (HID 1.11, 6.2.2.2): the prefix without its size bits, and the value.\<close>

function hid_items :: "bytes \<Rightarrow> (u8 \<times> nat) list" where
  "hid_items [] = []"
| "hid_items (b # xs) =
     (let width = [0, 1, 2, 4] ! unat (b AND 3) in
      (b AND 0xfc, foldr (\<lambda>c v. unat c + 256 * v) (take width xs) 0) # hid_items (drop width xs))"
  by pat_completeness auto
termination
  by (relation "measure length") auto

record hid_field =
  field_main :: u8
  field_flags :: nat
  field_page :: nat
  field_usages :: "nat \<times> nat"
  field_maximum :: nat
  field_size :: nat
  field_count :: nat

text \<open>The main items with the globals and locals in force; the locals end at a main item.\<close>

fun hid_fields :: "(u8 \<times> nat) list \<Rightarrow> hid_field \<Rightarrow> hid_field list" where
  "hid_fields [] f = []"
| "hid_fields ((tag, v) # items) f =
     (if tag = 0x04 then hid_fields items (f\<lparr>field_page := v\<rparr>)
      else if tag = 0x24 then hid_fields items (f\<lparr>field_maximum := v\<rparr>)
      else if tag = 0x74 then hid_fields items (f\<lparr>field_size := v\<rparr>)
      else if tag = 0x94 then hid_fields items (f\<lparr>field_count := v\<rparr>)
      else if tag = 0x18 then hid_fields items (f\<lparr>field_usages := (v, snd (field_usages f))\<rparr>)
      else if tag = 0x28 then hid_fields items (f\<lparr>field_usages := (fst (field_usages f), v)\<rparr>)
      else if tag = 0x80 \<or> tag = 0x90 then
        f\<lparr>field_main := tag, field_flags := v\<rparr> # hid_fields items (f\<lparr>field_usages := (0, 0)\<rparr>)
      else hid_fields items f)"

definition no_field :: hid_field where
  "no_field = \<lparr>field_main = 0, field_flags = 0, field_page = 0, field_usages = (0, 0), field_maximum = 0, field_size = 0, field_count = 0\<rparr>"

definition report_fields :: "bytes \<Rightarrow> hid_field list" where
  "report_fields d = hid_fields (hid_items d) no_field"

definition read_bits :: "bytes \<Rightarrow> nat \<Rightarrow> nat \<Rightarrow> nat" where
  "read_bits r offset width = horner_sum of_bool 2 (map (\<lambda>j. bit (r ! (j div 8)) (j mod 8)) [offset..<offset + width])"

text \<open>
  The usages a report presses. A constant field presses nothing; in a variable field each element
  stands for its own usage; an element of an array is the index of a usage, and no usage outside the field's range.
\<close>

definition field_presses :: "hid_field \<Rightarrow> bytes \<Rightarrow> nat \<Rightarrow> (nat \<times> nat) list" where
  "field_presses f r offset =
     (let vs = map (\<lambda>i. (i, read_bits r (offset + i * field_size f) (field_size f))) [0..<field_count f]; low = fst (field_usages f) in
      if odd (field_flags f) then []
      else if odd (field_flags f div 2) then map (\<lambda>(i, v). (field_page f, low + i)) (filter (\<lambda>(i, v). v \<noteq> 0) vs)
      else map (\<lambda>(i, v). (field_page f, low + v)) (filter (\<lambda>(i, v). v \<noteq> 0 \<and> v \<le> field_maximum f \<and> low + v \<le> snd (field_usages f)) vs))"

fun presses :: "hid_field list \<Rightarrow> bytes \<Rightarrow> nat \<Rightarrow> (nat \<times> nat) list" where
  "presses [] r offset = []"
| "presses (f # fs) r offset = field_presses f r offset @ presses fs r (offset + field_size f * field_count f)"

definition input_fields :: "bytes \<Rightarrow> hid_field list" where
  "input_fields d = filter (\<lambda>f. field_main f = 0x80) (report_fields d)"

lemma input_fields_keyboard:
  "input_fields keyboard_report =
    [\<lparr>field_main = 0x80, field_flags = 2, field_page = 7, field_usages = (0xe0, 0xe7), field_maximum = 1, field_size = 1, field_count = 8\<rparr>,
     \<lparr>field_main = 0x80, field_flags = 1, field_page = 7, field_usages = (0, 0), field_maximum = 1, field_size = 8, field_count = 1\<rparr>,
     \<lparr>field_main = 0x80, field_flags = 0, field_page = 7, field_usages = (0, 0x65), field_maximum = 0x65, field_size = 8, field_count = 6\<rparr>]"
  by code_simp

lemma output_fields_keyboard:
  "map (\<lambda>f. (field_page f, field_size f * field_count f)) (filter (\<lambda>f. field_main f = 0x90) (report_fields keyboard_report)) = [(8, 5), (8, 3)]"
  by code_simp

lemma no_report_id: "0x84 \<notin> set (map fst (hid_items keyboard_report))"
  by code_simp

lemma read_byte: "k < length r \<Longrightarrow> read_bits r (8 * k) 8 = unat (r ! k)"
proof -
  have "[8 * k..<8 * k + 8] = map (\<lambda>j. 8 * k + j) [0..<8]" using map_add_upt [of "8 * k" 8] by (simp add: add.commute)
  then have "read_bits r (8 * k) 8 = horner_sum of_bool 2 (map (\<lambda>j. bit (r ! (k + j div 8)) (j mod 8)) [0..<8])"
    by (simp add: read_bits_def comp_def)
  also have "\<dots> = horner_sum of_bool 2 (map (bit (r ! k)) [0..<8])"
    by (intro arg_cong [where f = "horner_sum of_bool 2"] map_cong refl) simp
  also have "\<dots> = horner_sum of_bool 2 (map (bit (unat (r ! k))) [0..<8])"
    by (intro arg_cong [where f = "horner_sum of_bool 2"] map_cong refl) (simp add: bit_unsigned_iff)
  also have "\<dots> = take_bit 8 (unat (r ! k))" by (rule horner_sum_bit_eq_take_bit)
  finally show ?thesis by (simp add: take_bit_nat_eq_self)
qed

lemma read_bit: "read_bits r n (Suc 0) = of_bool (bit (r ! (n div 8)) (n mod 8))"
  by (simp add: read_bits_def)


definition keyboard_bytes :: "u8 \<Rightarrow> bytes \<Rightarrow> bytes" where
  "keyboard_bytes m keys = m # 0 # keys"

definition host_sees :: "hid_report \<Rightarrow> (nat \<times> nat) set" where
  "host_sees r = set (presses (input_fields keyboard_report)
     (case r of Press m u \<Rightarrow> keyboard_bytes m [u, 0, 0, 0, 0, 0] | Release \<Rightarrow> keyboard_bytes 0 [0, 0, 0, 0, 0, 0]) 0)"

lemma presses_keyboard:
  assumes "length keys = 6"
  shows "set (presses (input_fields keyboard_report) (keyboard_bytes m keys) 0) =
    {(7, 0xe0 + i) | i. i < 8 \<and> bit m i} \<union> {(7, unat u) | u. u \<in> set keys \<and> u \<noteq> 0 \<and> unat u \<le> 0x65}"
proof -
  let ?r = "keyboard_bytes m keys"
  have mods: "read_bits ?r i (Suc 0) = of_bool (bit m i)" if "i < 8" for i
    using that by (simp add: read_bit keyboard_bytes_def)
  have key: "read_bits ?r (16 + i * 8) 8 = unat (keys ! i)" if "i < 6" for i
    using read_byte [of "i + 2" ?r] that assms by (simp add: keyboard_bytes_def algebra_simps)
  have 1: "set (field_presses \<lparr>field_main = 0x80, field_flags = 2, field_page = 7, field_usages = (0xe0, 0xe7), field_maximum = 1, field_size = 1, field_count = 8\<rparr> ?r 0)
      = {(7, 0xe0 + i) | i. i < 8 \<and> bit m i}"
    by (auto simp: field_presses_def mods image_iff) (auto intro!: exI [of _ "Suc 0"])
  have 2: "set (field_presses \<lparr>field_main = 0x80, field_flags = 0, field_page = 7, field_usages = (0, 0x65), field_maximum = 0x65, field_size = 8, field_count = 6\<rparr> ?r 16)
      = {(7, unat u) | u. u \<in> set keys \<and> u \<noteq> 0 \<and> unat u \<le> 0x65}"
    using assms by (auto simp: field_presses_def key image_iff in_set_conv_nth unat_gt_0) blast+
  show ?thesis
    using 1 2 unfolding input_fields_keyboard by (simp add: field_presses_def)
qed

lemma host_sees_simps: "4 \<le> unat u \<Longrightarrow> unat u \<le> 0x65 \<Longrightarrow> host_sees (Press m u) = {(7, 0xe0 + i) | i. i < 8 \<and> bit m i} \<union> {(7, unat u)}"
  "host_sees Release = {}"
  by (auto simp: host_sees_def presses_keyboard)

lemma typed_presses: "typed ks tr rest \<Longrightarrow> Press m u \<in> set tr \<Longrightarrow> \<exists>k \<in> set ks. m = modifier k \<and> u = usage k"
  by (auto simp: typed_def key_reports_def)


subsection \<open>Properties\<close>

text \<open>C37: the host sees the keys that were staged. A host that reads the report descriptor of this firmware and then the
  reports of one drain sees, in every key report, exactly the modifiers and the one key of a pending stroke of the job,
  and nothing pressed in every release: no stroke lies outside the usages the descriptor declares, so none is dropped by the host. The
  report the descriptor declares is eight bytes, the packet size of the endpoint.\<close>

theorem host_sees_the_strokes:
  assumes "usb_hid_drain U (s, e) = Some (tr, t, f)" and "core_ok (hid_core s)"
  shows "(\<forall>r \<in> set tr. case r of
      Press m u \<Rightarrow> (\<exists>k \<in> set (pending (hid_core s)). m = modifier k \<and> u = usage k) \<and>
        host_sees r = {(7, 0xe0 + i) | i. i < 8 \<and> bit m i} \<union> {(7, unat u)}
    | Release \<Rightarrow> host_sees r = {}) \<and>
    (\<Sum>h\<leftarrow>input_fields keyboard_report. field_size h * field_count h) = 8 * unat (configuration ! 31)"
proof -
  note typed = drain_typed [OF assms]
  have range: "hid_range k" if "k \<in> set (pending (hid_core s))" for k
    using assms(2) that by (auto simp: core_ok_def job_wiped_def pending_def split: if_splits)
  have "case r of
      Press m u \<Rightarrow> (\<exists>k \<in> set (pending (hid_core s)). m = modifier k \<and> u = usage k) \<and>
        host_sees r = {(7, 0xe0 + i) | i. i < 8 \<and> bit m i} \<union> {(7, unat u)}
    | Release \<Rightarrow> host_sees r = {}" if r: "r \<in> set tr" for r
  proof (cases r)
    case (Press m u)
    then obtain k where k: "k \<in> set (pending (hid_core s))" "m = modifier k" "u = usage k"
      using typed_presses [OF typed] r by blast
    then show ?thesis using range [OF k(1)] Press host_sees_simps(1) [of u m] by (auto simp: hid_range_def)
  qed (simp add: host_sees_simps)
  moreover have "(\<Sum>h\<leftarrow>input_fields keyboard_report. field_size h * field_count h) = 8 * unat (configuration ! 31)"
    by (simp add: input_fields_keyboard configuration_def)
  ultimately show ?thesis by blast
qed

text \<open>C38: the identity strings reach the host. After the identity was set, from every earlier state and with whatever the shared
  buffer holds, the string descriptors the host asks for in English are well formed and carry the vendor text, the radio status and the first 32
  characters of the serial, whole and nothing else; other languages and other indices are refused and change nothing.\<close>

theorem identity_reaches_the_host:
  assumes "identity_ok u" and "0 \<in> set serial \<or> 32 \<le> length serial"
  shows "let v = bridge_usb_set_identity (Some serial) ok u;
      content = (\<lambda>index. if index = 1 then usb_text ''Local PicoBridge prototype''
        else if index = 2 then usb_text (if ok then ''PicoBridge idle / CYW43 OK'' else ''PicoBridge idle / CYW43 FAIL'')
        else take 32 (c_string serial)) in
    \<forall>index langid. index \<noteq> 0 \<longrightarrow>
      (if langid = 0x0409 \<and> index \<le> 3
       then fst (tud_descriptor_string_cb index langid v) \<and> identity_ok (snd (tud_descriptor_string_cb index langid v)) \<and>
         host_string (descriptor_buffer (snd (tud_descriptor_string_cb index langid v))) = Some (map ucast (content index))
       else tud_descriptor_string_cb index langid v = (False, v))"
proof -
  define v where "v = bridge_usb_set_identity (Some serial) ok u"
  note v = set_identity [OF assms, of ok, folded v_def]
  have product: "c_string (product_string v) = usb_text (if ok then ''PicoBridge idle / CYW43 OK'' else ''PicoBridge idle / CYW43 FAIL'')"
    unfolding v(3) by (simp add: c_string_def usb_text_def)
  have small: "index \<in> {1, 2, 3}" if "index \<noteq> 0" "index \<le> 3" for index :: u8
  proof -
    have "unat index = 1 \<or> unat index = 2 \<or> unat index = 3"
      using that by (auto simp: word_le_nat_alt unat_eq_0 [symmetric] simp del: unat_eq_0)
    then show ?thesis by (auto simp: word_unat_eq_iff)
  qed
  have yes: "fst (tud_descriptor_string_cb index 0x0409 v) \<and> identity_ok (snd (tud_descriptor_string_cb index 0x0409 v)) \<and>
      host_string (descriptor_buffer (snd (tud_descriptor_string_cb index 0x0409 v))) = Some (map ucast (identity_text v index))"
    if "index \<noteq> 0" "index \<le> 3" for index
    by (rule string_callback [OF v(1) small [OF that]]) simp
  have no: "tud_descriptor_string_cb index langid v = (False, v)" if "index \<noteq> 0" "\<not> (langid = 0x0409 \<and> index \<le> 3)" for index langid
    using that by (auto simp: tud_descriptor_string_cb_def)
  show ?thesis
    unfolding v_def [symmetric] Let_def using yes no by (simp add: identity_text_def product v(2))
qed

theorem host_sees_the_strokes_witness:
  "\<exists>tr t f. usb_hid_drain demo_port (demo_keyboard 0, 3000) = Some (tr, t, f) \<and>
     (\<forall>m u. Press m u \<in> set tr \<longrightarrow> (7, 4) \<in> host_sees (Press m u)) \<and> configuration ! 31 = 8"
proof -
  obtain tr t f where d: "usb_hid_drain demo_port (demo_keyboard 0, 3000) = Some (tr, t, f)"
    using drain_returns [OF demo_clock, of "(demo_keyboard 0, 3000)"] demo_keyboard_ok by auto
  have "pending (hid_core (demo_keyboard 0)) = [\<lparr>modifier = 0, usage = 4\<rparr>, \<lparr>modifier = 2, usage = 4\<rparr>]"
    using demo_typing unfolding abs_core_typing by (simp add: demo_keyboard_def)
  then show ?thesis using d host_sees_the_strokes [OF d demo_keyboard_ok(1)] by (fastforce simp: configuration_def)
qed

theorem identity_reaches_the_host_witness:
  "host_string (descriptor_buffer (snd (tud_descriptor_string_cb 3 0x0409
     (bridge_usb_set_identity (Some (usb_text ''E661'' @ [0])) True usb_identity_init)))) = Some [0x45, 0x36, 0x36, 0x31]"
proof -
  have ok: "identity_ok usb_identity_init" by (simp add: identity_ok_def usb_identity_init_def usb_text_def)
  have zero: "0 \<in> set (usb_text ''E661'' @ [0]) \<or> 32 \<le> length (usb_text ''E661'' @ [0])" by simp
  show ?thesis
    using identity_reaches_the_host [OF ok zero, of True, unfolded Let_def, rule_format, of 3 "0x0409"]
    by (simp add: usb_text_def c_string_def)
qed

end
