(* ===== verification/Net_Session.thy ===== *)
theory Net_Session
  imports Device_Machine
begin

section \<open>The TCP session of the network endpoint (firmware/net_endpoint.c)\<close>

text \<open>
  The lwIP callbacks that carry command frames over one TCP connection: reassembly behind a 4-byte length
  prefix, the call of \<open>command_process_frame\<close>, the response queue, accepting and closing. lwIP is a
  parameter: \<open>L\<close> answers \<open>tcp_sndbuf\<close> and \<open>tcp_write\<close> and supplies the surroundings of each
  command from an unknown state \<open>net_lwip\<close>. Two fields of the state are not variables of the code:
  \<open>net_calls\<close> lists the calls made to lwIP, and \<open>net_oob\<close> is set by a write past the
  end of an array, where the C code has no defined meaning.
\<close>

definition NET_FRAME_MAX :: u32 where "NET_FRAME_MAX = 2048"

type_synonym pcb = nat

datatype err_t = ERR_OK | ERR_VAL | ERR_ABRT | ERR_OTHER

text \<open>The flag of a callback registration says whether the callback is set or removed.\<close>

datatype tcp_call =
    Tcp_Arg pcb | Tcp_Recv pcb bool | Tcp_Err pcb bool | Tcp_Sent pcb bool | Tcp_Nagle_Disable pcb
  | Tcp_Abort pcb | Tcp_Write pcb bytes bool | Tcp_Output pcb | Tcp_Recved pcb nat | Pbuf_Free

record 'e lwip =
  lw_sndbuf :: "pcb \<Rightarrow> 'e \<Rightarrow> u32 \<times> 'e"
  lw_write :: "pcb \<Rightarrow> bytes \<Rightarrow> 'e \<Rightarrow> bool \<times> 'e"
  lw_env :: "'e \<Rightarrow> call_env \<times> 'e"

record 'e net_session =
  net_session_pcb :: "pcb option"
  net_rx :: bytes
  net_rx_len :: u32
  net_pending_tx :: bytes
  net_pending_tx_len :: u32
  net_device :: device
  net_lwip :: 'e
  net_calls :: "tcp_call list"
  net_oob :: bool

definition net_session_init :: "device \<Rightarrow> 'e \<Rightarrow> 'e net_session" where
  "net_session_init d e = \<lparr>net_session_pcb = None, net_rx = replicate 2048 0, net_rx_len = 0,
     net_pending_tx = replicate (4 + 1 + NOISE_IK_RESPONSE_LEN) 0, net_pending_tx_len = 0,
     net_device = d, net_lwip = e, net_calls = [], net_oob = False\<rparr>"

definition net_log :: "tcp_call list \<Rightarrow> 'e net_session \<Rightarrow> 'e net_session" where
  "net_log cs s = s\<lparr>net_calls := net_calls s @ cs\<rparr>"

definition net_check :: "bool \<Rightarrow> 'e net_session \<Rightarrow> 'e net_session" where
  "net_check in_bounds s = (if in_bounds then s else s\<lparr>net_oob := True\<rparr>)"

subsection \<open>Closing and sending\<close>

definition net_reset_frame :: "'e net_session \<Rightarrow> 'e net_session" where
  "net_reset_frame s = s\<lparr>net_rx_len := 0, net_pending_tx_len := 0\<rparr>"

definition net_session_close :: "pcb option \<Rightarrow> 'e net_session \<Rightarrow> 'e net_session" where
  "net_session_close pcb s =
     (case pcb of None \<Rightarrow> s
      | Some p \<Rightarrow>
        let s = (if pcb = net_session_pcb s then s\<lparr>net_session_pcb := None\<rparr> else s) in
        net_reset_frame (net_log [Tcp_Arg p, Tcp_Recv p False, Tcp_Err p False, Tcp_Sent p False, Tcp_Abort p] s))"

text \<open>
  How much of the queue goes into the send buffer; then the callback for acknowledged data, which the code also
  calls itself. It always returns \<open>ERR_OK\<close>; the result here is the state.
\<close>

definition tx_count :: "u32 \<Rightarrow> u32 \<Rightarrow> u16" where
  "tx_count queued space = (if queued < space then ucast queued else ucast space)"

definition net_sent_cb :: "'e lwip \<Rightarrow> pcb \<Rightarrow> 'e net_session \<Rightarrow> 'e net_session" where
  "net_sent_cb L pcb s =
     (if Some pcb \<noteq> net_session_pcb s then s
      else if net_pending_tx_len s = 0 then s
      else (case lw_sndbuf L pcb (net_lwip s) of (space, e) \<Rightarrow>
        let s = s\<lparr>net_lwip := e\<rparr> in
        if space = 0 then s
        else let n = tx_count (net_pending_tx_len s) space;
            data = take (unat n) (net_pending_tx s) in
          (case lw_write L pcb data (net_lwip s) of (ok, e) \<Rightarrow>
            let s = net_log [Tcp_Write pcb data ok] (s\<lparr>net_lwip := e\<rparr>) in
            if \<not> ok then s
            else let s = net_log [Tcp_Output pcb] s in
              if net_pending_tx_len s \<le> ucast n then s\<lparr>net_pending_tx_len := 0\<rparr>
              else s\<lparr>net_pending_tx := memcpy_at (net_pending_tx s) 0
                       (take (unat (net_pending_tx_len s - ucast n)) (drop (unat n) (net_pending_tx s))),
                     net_pending_tx_len := net_pending_tx_len s - ucast n\<rparr>)))"

subsection \<open>Frames\<close>

definition frame_length :: "'e net_session \<Rightarrow> u32" where
  "frame_length s = be32_at (net_rx s) 0"

definition net_process_frame :: "hardware \<Rightarrow> 'e lwip \<Rightarrow> pcb \<Rightarrow> 'e net_session \<Rightarrow> 'e net_session" where
  "net_process_frame H L pcb s =
     (case lw_env L (net_lwip s) of (E, e) \<Rightarrow>
      case command_process_frame H E (take (unat (ucast (net_rx_len s - 4) :: u16)) (drop 4 (net_rx s)))
          BRIDGE_TRANSPORT_RESPONSE_MAX (net_device s) of (resp, d) \<Rightarrow>
      let s = s\<lparr>net_lwip := e, net_device := d, net_rx_len := 0\<rparr>; resp_len = (of_nat (length resp) :: u16) in
      if resp_len = 0 then s
      else if net_pending_tx_len s \<noteq> 0 then net_session_close (Some pcb) s
      else net_sent_cb L pcb ((net_check (4 + length resp \<le> length (net_pending_tx s)) s)\<lparr>
        net_pending_tx := memcpy_at (memcpy_at (net_pending_tx s) 0 (be32_bytes (ucast resp_len))) 4 resp,
        net_pending_tx_len := ucast resp_len + 4\<rparr>))"

text \<open>\<open>net_rx[net_rx_len++] = c\<close>.\<close>

definition net_put :: "u8 \<Rightarrow> 'e net_session \<Rightarrow> 'e net_session" where
  "net_put c s = (net_check (unat (net_rx_len s) < length (net_rx s)) s)\<lparr>
     net_rx := (net_rx s)[unat (net_rx_len s) := c], net_rx_len := net_rx_len s + 1\<rparr>"

text \<open>
  The two loops of the receive callback, over the bytes of one pbuf and over the chain. The branch for the
  prefix sets \<open>overflow\<close> and goes on with the next byte of the same pbuf.
\<close>

fun rx_pbuf :: "hardware \<Rightarrow> 'e lwip \<Rightarrow> pcb \<Rightarrow> bytes \<Rightarrow> bool \<times> 'e net_session \<Rightarrow> bool \<times> 'e net_session" where
  "rx_pbuf H L pcb [] r = r"
| "rx_pbuf H L pcb (c # cs) (overflow, s) =
     (if net_rx_len s < 4 then
        let s = net_put c s in
        rx_pbuf H L pcb cs
          (overflow \<or> (net_rx_len s = 4 \<and> (frame_length s = 0 \<or> frame_length s > NET_FRAME_MAX - 4)), s)
      else
        let s = net_put c s;
            s = (if net_rx_len s = 4 + frame_length s then net_process_frame H L pcb s else s) in
        if net_session_pcb s = None then (True, s) else rx_pbuf H L pcb cs (overflow, s))"

fun rx_chain :: "hardware \<Rightarrow> 'e lwip \<Rightarrow> pcb \<Rightarrow> bytes list \<Rightarrow> bool \<times> 'e net_session \<Rightarrow> bool \<times> 'e net_session" where
  "rx_chain H L pcb [] r = r"
| "rx_chain H L pcb (q # qs) (overflow, s) =
     (if overflow then (overflow, s) else rx_chain H L pcb qs (rx_pbuf H L pcb q (overflow, s)))"

definition tot_len :: "bytes list \<Rightarrow> nat" where
  "tot_len p = sum_list (map length p)"

definition net_recv_cb ::
  "hardware \<Rightarrow> 'e lwip \<Rightarrow> pcb \<Rightarrow> bytes list option \<Rightarrow> err_t \<Rightarrow> 'e net_session \<Rightarrow> err_t \<times> 'e net_session" where
  "net_recv_cb H L pcb p err s =
     (if Some pcb \<noteq> net_session_pcb s then
        (ERR_OK, case p of None \<Rightarrow> s | Some qs \<Rightarrow> net_log [Tcp_Recved pcb (tot_len qs)] s)
      else if err \<noteq> ERR_OK then (ERR_OK, net_session_close (Some pcb) s)
      else (case p of None \<Rightarrow> (ERR_OK, net_session_close (Some pcb) s)
        | Some qs \<Rightarrow>
          (case rx_chain H L pcb qs (False, s) of (overflow, s) \<Rightarrow>
            let s = net_log [Pbuf_Free, Tcp_Recved pcb (tot_len qs)] s in
            (ERR_OK, if overflow then net_session_close (Some pcb) s else s))))"

subsection \<open>Errors and new connections\<close>

definition net_err_cb :: "'e net_session \<Rightarrow> 'e net_session" where
  "net_err_cb s = net_reset_frame (s\<lparr>net_session_pcb := None\<rparr>)"

definition net_accept_cb :: "pcb option \<Rightarrow> err_t \<Rightarrow> 'e net_session \<Rightarrow> err_t \<times> 'e net_session" where
  "net_accept_cb newpcb err s =
     (case (if err \<noteq> ERR_OK then None else newpcb) of None \<Rightarrow> (ERR_VAL, s)
      | Some p \<Rightarrow>
        if net_session_pcb s \<noteq> None \<or> net_pending_tx_len s \<noteq> 0 then (ERR_ABRT, net_log [Tcp_Abort p] s)
        else (ERR_OK, net_log [Tcp_Arg p, Tcp_Recv p True, Tcp_Err p True, Tcp_Sent p True, Tcp_Nagle_Disable p]
          (net_reset_frame (s\<lparr>net_session_pcb := Some p\<rparr>))))"


subsection \<open>The state stays well formed\<close>

text \<open>
  Part of a frame: the prefix is incomplete, or it announces a frame of 1 to 2044 bytes that has not arrived
  entirely.
\<close>

definition partial :: "bytes \<Rightarrow> bool" where
  "partial u \<longleftrightarrow> length u < 4 \<or>
     (be32_at u 0 \<noteq> 0 \<and> be32_at u 0 \<le> NET_FRAME_MAX - 4 \<and> length u < 4 + unat (be32_at u 0))"

definition rx_holds :: "bytes \<Rightarrow> 'e net_session \<Rightarrow> bool" where
  "rx_holds u s \<longleftrightarrow> length (net_rx s) = 2048 \<and> unat (net_rx_len s) = length u \<and> take (length u) (net_rx s) = u"

definition tx_ok :: "hardware \<Rightarrow> 'e net_session \<Rightarrow> bool" where
  "tx_ok H s \<longleftrightarrow> length (net_rx s) = 2048 \<and> length (net_pending_tx s) = 58 \<and> unat (net_pending_tx_len s) \<le> 58 \<and> \<not> net_oob s \<and>
     device_inv H (net_device s)"

definition session_ok :: "hardware \<Rightarrow> 'e net_session \<Rightarrow> bool" where
  "session_ok H s \<longleftrightarrow> tx_ok H s \<and> (\<exists>u. partial u \<and> rx_holds u s) \<and>
     (net_session_pcb s = None \<longrightarrow> net_rx_len s = 0 \<and> net_pending_tx_len s = 0)"

lemma net_const [simp]: "NET_FRAME_MAX - 4 = 2044" "unat (2044 :: u32) = 2044"
  by (simp_all add: NET_FRAME_MAX_def)

lemma partial_length: "partial u \<Longrightarrow> length u < 2048"
  by (auto simp: partial_def word_le_nat_alt)

lemma partial_nil [simp]: "partial []"
  by (simp add: partial_def)

lemma rx_holds_nil: "rx_holds [] s \<longleftrightarrow> length (net_rx s) = 2048 \<and> net_rx_len s = 0"
  by (auto simp: rx_holds_def unat_eq_0)

lemma unat_Suc_u32: "unat (x :: u32) < 4294967295 \<Longrightarrow> unat (x + 1) = Suc (unat x)"
  by (subst unat_plus_if') auto

lemma u32_eq_iff_unat: "(x :: u32) = y \<longleftrightarrow> unat x = unat y"
  by (rule word_unat_eq_iff)

lemma put_keeps [simp]:
  "net_session_pcb (net_put c s) = net_session_pcb s" "net_pending_tx (net_put c s) = net_pending_tx s"
  "net_pending_tx_len (net_put c s) = net_pending_tx_len s" "net_device (net_put c s) = net_device s"
  "net_lwip (net_put c s) = net_lwip s" "net_calls (net_put c s) = net_calls s"
  "length (net_rx (net_put c s)) = length (net_rx s)"
  by (simp_all add: net_put_def net_check_def)

lemma put_holds:
  assumes "rx_holds u s" and "length u < 2048"
  shows "rx_holds (u @ [c]) (net_put c s)" and "net_oob (net_put c s) = net_oob s"
proof -
  have l: "length (net_rx s) = 2048" "unat (net_rx_len s) = length u" "take (length u) (net_rx s) = u"
    using assms(1) by (simp_all add: rx_holds_def)
  have "take (Suc (length u)) ((net_rx s)[length u := c]) = u @ [c]"
    using l assms(2) by (simp add: take_Suc_conv_app_nth)
  then show "rx_holds (u @ [c]) (net_put c s)" "net_oob (net_put c s) = net_oob s"
    using l assms(2) by (simp_all add: rx_holds_def net_put_def net_check_def unat_Suc_u32)
qed

lemma holds_frame_length: "rx_holds u s \<Longrightarrow> 4 \<le> length u \<Longrightarrow> frame_length s = be32_at u 0"
  unfolding frame_length_def
proof (rule be32_at_cong)
  assume h: "rx_holds u s" and l: "4 \<le> length u"
  have "take 4 (take (length u) (net_rx s)) = take 4 (net_rx s)" using l by simp
  then show "take 4 (net_rx s) = take 4 u" using h unfolding rx_holds_def by simp
qed

text \<open>The sum \<open>4 + flen\<close> does not wrap for a frame that is accepted.\<close>

lemma frame_end: "n \<le> 2044 \<Longrightarrow> unat (4 + n :: u32) = 4 + unat n"
  by (subst unat_plus_if') (auto simp: word_le_nat_alt)

lemma close_state:
  "net_session_close (Some p) s = s\<lparr>net_session_pcb := (if net_session_pcb s = Some p then None else net_session_pcb s),
     net_rx_len := 0, net_pending_tx_len := 0,
     net_calls := net_calls s @ [Tcp_Arg p, Tcp_Recv p False, Tcp_Err p False, Tcp_Sent p False, Tcp_Abort p]\<rparr>"
  by (simp add: net_session_close_def net_reset_frame_def net_log_def)

lemma reset_session_ok: "tx_ok H s \<Longrightarrow> net_rx_len s = 0 \<Longrightarrow> net_pending_tx_len s = 0 \<Longrightarrow> session_ok H s"
  by (auto simp: session_ok_def tx_ok_def rx_holds_nil intro!: exI [of _ "[]"])

lemma close_ok: "tx_ok H s \<Longrightarrow> session_ok H (net_session_close (Some p) s)"
  by (rule reset_session_ok) (simp_all add: close_state tx_ok_def)

lemma small_u16: "unat (x :: u32) \<le> 58 \<Longrightarrow> unat (ucast x :: u16) = unat x"
  by (simp add: unsigned_ucast_eq take_bit_nat_eq_self)

lemma tx_count_le:
  assumes "unat x \<le> 58"
  shows "unat (tx_count x space) \<le> unat x" and "unat (ucast (tx_count x space) :: u32) = unat (tx_count x space)"
  using assms by (auto simp: tx_count_def small_u16 word_less_nat_alt unsigned_ucast_eq take_bit_nat_eq_self)

lemma sent_cases:
  obtains (kept) e where "net_sent_cb L p s = s\<lparr>net_lwip := e\<rparr>"
  | (refused) e data where "net_sent_cb L p s = net_log [Tcp_Write p data False] (s\<lparr>net_lwip := e\<rparr>)"
  | (written) e n data where "n = tx_count (net_pending_tx_len s) (fst (lw_sndbuf L p (net_lwip s)))"
      "data = take (unat n) (net_pending_tx s)"
      "net_sent_cb L p s = net_log [Tcp_Write p data True, Tcp_Output p] (s\<lparr>net_lwip := e,
        net_pending_tx := (if net_pending_tx_len s \<le> ucast n then net_pending_tx s
          else memcpy_at (net_pending_tx s) 0 (take (unat (net_pending_tx_len s - ucast n)) (drop (unat n) (net_pending_tx s)))),
        net_pending_tx_len := (if net_pending_tx_len s \<le> ucast n then 0 else net_pending_tx_len s - ucast n)\<rparr>)"
proof -
  obtain space e where a: "lw_sndbuf L p (net_lwip s) = (space, e)" by fastforce
  obtain ok e' where w: "lw_write L p (take (unat (tx_count (net_pending_tx_len s) space)) (net_pending_tx s)) e = (ok, e')"
    by fastforce
  have s: "s = s\<lparr>net_lwip := net_lwip s\<rparr>" by simp
  show ?thesis
  proof (cases "Some p \<noteq> net_session_pcb s \<or> net_pending_tx_len s = 0 \<or> space = 0")
    case True
    then have "net_sent_cb L p s = s\<lparr>net_lwip := if Some p \<noteq> net_session_pcb s \<or> net_pending_tx_len s = 0 then net_lwip s else e\<rparr>"
      by (auto simp: net_sent_cb_def a)
    then show ?thesis by (rule kept)
  next
    case False
    show ?thesis
    proof (cases ok)
      case True
      then show ?thesis using False written [OF refl refl, of e']
        by (simp add: net_sent_cb_def a w Let_def net_log_def)
    next
      case f: False
      then show ?thesis using False refused [of _ e'] by (simp add: net_sent_cb_def a w Let_def)
    qed
  qed
qed

lemma sent_ok:
  assumes "tx_ok H s"
  shows "tx_ok H (net_sent_cb L p s)" and "net_rx (net_sent_cb L p s) = net_rx s"
    and "net_rx_len (net_sent_cb L p s) = net_rx_len s" and "net_session_pcb (net_sent_cb L p s) = net_session_pcb s"
    and "net_device (net_sent_cb L p s) = net_device s"
proof -
  have t: "unat (net_pending_tx_len s) \<le> 58" using assms by (simp add: tx_ok_def)
  have "tx_ok H (net_sent_cb L p s) \<and> net_rx (net_sent_cb L p s) = net_rx s \<and> net_device (net_sent_cb L p s) = net_device s \<and>
    net_rx_len (net_sent_cb L p s) = net_rx_len s \<and> net_session_pcb (net_sent_cb L p s) = net_session_pcb s"
  proof (cases rule: sent_cases [of L p s])
    case (written e n data)
    note c = tx_count_le [OF t, of "fst (lw_sndbuf L p (net_lwip s))", folded written(1)]
    have "unat (net_pending_tx_len s - ucast n) = unat (net_pending_tx_len s) - unat n"
      using c by (simp add: unat_sub word_le_nat_alt)
    then show ?thesis using assms c unfolding written(3) by (auto simp: tx_ok_def net_log_def length_memcpy)
  qed (use assms in \<open>simp_all add: tx_ok_def net_log_def\<close>)
  then show "tx_ok H (net_sent_cb L p s)" "net_rx (net_sent_cb L p s) = net_rx s" "net_device (net_sent_cb L p s) = net_device s"
    "net_rx_len (net_sent_cb L p s) = net_rx_len s" "net_session_pcb (net_sent_cb L p s) = net_session_pcb s" by simp_all
qed

text \<open>A processed frame: no response, a response while another is queued, or a response queued and offered to lwIP.\<close>

definition framed :: "bytes \<Rightarrow> bytes" where
  "framed resp = be32_bytes (of_nat (length resp)) @ resp"

definition queue_response :: "bytes \<Rightarrow> 'e net_session \<Rightarrow> 'e net_session" where
  "queue_response resp s = s\<lparr>net_pending_tx := memcpy_at (net_pending_tx s) 0 (framed resp),
     net_pending_tx_len := of_nat (length (framed resp))\<rparr>"

lemma unat_of_length: "n \<le> 58 \<Longrightarrow> unat (of_nat n :: u32) = n"
  by (simp add: unsigned_of_nat take_bit_nat_eq_self)

lemma framed_length [simp]: "length (framed resp) = 4 + length resp"
  by (simp add: framed_def)

lemma queue_ok: "tx_ok H s \<Longrightarrow> length resp \<le> 54 \<Longrightarrow> tx_ok H (queue_response resp s)"
  using unat_of_length [of "4 + length resp"] by (simp add: tx_ok_def queue_response_def length_memcpy)

lemma memcpy_twice: "length a = 4 \<Longrightarrow> length buf = 58 \<Longrightarrow> length b \<le> 54 \<Longrightarrow>
  memcpy_at (memcpy_at buf 0 a) 4 b = memcpy_at buf 0 (a @ b)"
  by (simp add: memcpy_at_def add.commute)

lemma process_cases:
  assumes "aead_lengths (hw_crypto H)" and "tx_ok H s"
  obtains E e resp d where "lw_env L (net_lwip s) = (E, e)"
    "command_process_frame H E (take (unat (ucast (net_rx_len s - 4) :: u16)) (drop 4 (net_rx s)))
       BRIDGE_TRANSPORT_RESPONSE_MAX (net_device s) = (resp, d)" "length resp \<le> 54"
    "net_process_frame H L p s =
      (let t = s\<lparr>net_lwip := e, net_device := d, net_rx_len := 0\<rparr> in
       if resp = [] then t else if net_pending_tx_len s \<noteq> 0 then net_session_close (Some p) t
       else net_sent_cb L p (queue_response resp t))"
proof -
  obtain E e where e: "lw_env L (net_lwip s) = (E, e)" by fastforce
  obtain resp d where f: "command_process_frame H E (take (unat (ucast (net_rx_len s - 4) :: u16)) (drop 4 (net_rx s)))
       BRIDGE_TRANSPORT_RESPONSE_MAX (net_device s) = (resp, d)" by fastforce
  have l: "length resp \<le> 54" by (rule response_length [OF assms(1) f])
  then have u: "unat (of_nat (length resp) :: u16) = length resp" by (simp add: unsigned_of_nat take_bit_nat_eq_self)
  then have z: "(of_nat (length resp) :: u16) = 0 \<longleftrightarrow> resp = []"
    by (metis length_0_conv unat_eq_0)
  have c: "(ucast (of_nat (length resp) :: u16) :: u32) = of_nat (length resp)"
    by (rule word_unat_eq_iff [THEN iffD2]) (use l in \<open>simp add: unsigned_ucast_eq unsigned_of_nat take_bit_nat_eq_self\<close>)
  have "net_process_frame H L p s =
      (let t = s\<lparr>net_lwip := e, net_device := d, net_rx_len := 0\<rparr> in
       if resp = [] then t else if net_pending_tx_len s \<noteq> 0 then net_session_close (Some p) t
       else net_sent_cb L p (queue_response resp t))"
    using assms(2) l
    by (simp add: net_process_frame_def e f z c Let_def memcpy_twice tx_ok_def queue_response_def framed_def net_check_def add.commute)
  with e f l show ?thesis by (rule that)
qed

lemma process_ok:
  assumes "aead_lengths (hw_crypto H)" and "tx_ok H s"
  shows "tx_ok H (net_process_frame H L p s)" and "net_rx_len (net_process_frame H L p s) = 0"
    and "net_session_pcb (net_process_frame H L p s) = net_session_pcb s \<or>
      net_session_pcb (net_process_frame H L p s) = None \<and> net_pending_tx_len (net_process_frame H L p s) = 0"
proof -
  obtain E e resp d where p: "command_process_frame H E (take (unat (ucast (net_rx_len s - 4) :: u16)) (drop 4 (net_rx s)))
       BRIDGE_TRANSPORT_RESPONSE_MAX (net_device s) = (resp, d)" "length resp \<le> 54"
    "net_process_frame H L p s =
      (let t = s\<lparr>net_lwip := e, net_device := d, net_rx_len := 0\<rparr> in
       if resp = [] then t else if net_pending_tx_len s \<noteq> 0 then net_session_close (Some p) t
       else net_sent_cb L p (queue_response resp t))"
    using process_cases [OF assms, of L p] by metis
  define t where "t = s\<lparr>net_lwip := e, net_device := d, net_rx_len := 0\<rparr>"
  have "device_inv H d" using assms(2) p(1) device_ok_frame [of H "net_device s"] by (auto simp: tx_ok_def device_inv_def)
  then have t: "tx_ok H t" "net_rx_len t = 0" "net_session_pcb t = net_session_pcb s" using assms(2) by (simp_all add: t_def tx_ok_def)
  have q: "tx_ok H (queue_response resp t)" "net_rx_len (queue_response resp t) = 0"
      "net_session_pcb (queue_response resp t) = net_session_pcb s"
    using queue_ok [OF t(1) p(2)] t by (simp_all add: queue_response_def)
  note c = close_ok [OF t(1), of p]
  show "tx_ok H (net_process_frame H L p s)" "net_rx_len (net_process_frame H L p s) = 0"
    "net_session_pcb (net_process_frame H L p s) = net_session_pcb s \<or>
      net_session_pcb (net_process_frame H L p s) = None \<and> net_pending_tx_len (net_process_frame H L p s) = 0"
    using t q c sent_ok [OF q(1), of L p] p(3)
    by (auto simp: Let_def close_state session_ok_def simp flip: t_def)
qed

text \<open>What one more byte makes of a part of a frame.\<close>

definition bad_prefix :: "bytes \<Rightarrow> bool" where
  "bad_prefix v \<longleftrightarrow> length v = 4 \<and> (be32_at v 0 = 0 \<or> be32_at v 0 > NET_FRAME_MAX - 4)"

definition whole :: "bytes \<Rightarrow> bool" where
  "whole v \<longleftrightarrow> 4 < length v \<and> be32_at v 0 \<le> NET_FRAME_MAX - 4 \<and> length v = 4 + unat (be32_at v 0)"

lemma be32_at_append: "4 \<le> length u \<Longrightarrow> be32_at (u @ w) 0 = be32_at u 0"
  by (rule be32_at_cong) simp

lemma byte_cases:
  assumes "partial u"
  obtains (part) "partial (u @ [c])" | (bad) "bad_prefix (u @ [c])" | (complete) "whole (u @ [c])"
proof (cases "length u < 4")
  case True
  let ?n = "be32_at (u @ [c]) 0"
  show ?thesis
  proof (cases "length u < 3 \<or> (?n \<noteq> 0 \<and> ?n \<le> NET_FRAME_MAX - 4)")
    case short: True
    then show ?thesis using True unat_gt_0 [of ?n] by (intro part) (auto simp: partial_def)
  next
    case False
    then have "length u = 3" "?n = 0 \<or> NET_FRAME_MAX - 4 < ?n" using True by (auto simp: not_le)
    then show ?thesis by (intro bad) (simp add: bad_prefix_def)
  qed
next
  case False
  then have "be32_at (u @ [c]) 0 = be32_at u 0" by (simp add: be32_at_append)
  then show ?thesis using assms False part complete
    by (cases "length (u @ [c]) = 4 + unat (be32_at u 0)") (auto simp: partial_def whole_def)
qed

lemma byte_exclusive: "partial v \<Longrightarrow> \<not> bad_prefix v \<and> \<not> whole v" "whole v \<Longrightarrow> \<not> bad_prefix v"
  by (auto simp: partial_def bad_prefix_def whole_def)

lemma rx_len_less: "rx_holds u s \<Longrightarrow> net_rx_len s < 4 \<longleftrightarrow> length u < 4" "rx_holds u s \<Longrightarrow> net_rx_len s = 4 \<longleftrightarrow> length u = 4"
  by (auto simp: rx_holds_def word_less_nat_alt word_unat_eq_iff)

lemma at_frame_end:
  assumes "rx_holds v s" and "4 \<le> length v" and "be32_at v 0 \<le> NET_FRAME_MAX - 4"
  shows "net_rx_len s = 4 + frame_length s \<longleftrightarrow> length v = 4 + unat (be32_at v 0)"
proof -
  have "frame_length s = be32_at v 0" by (rule holds_frame_length [OF assms(1,2)])
  moreover have "unat (4 + be32_at v 0) = 4 + unat (be32_at v 0)" using assms(3) by (intro frame_end) simp
  moreover have "unat (net_rx_len s) = length v" using assms(1) by (simp add: rx_holds_def)
  ultimately show ?thesis by (metis word_unat_eq_iff)
qed

lemma rx_byte:
  assumes "rx_holds u s" and "partial u" and "net_session_pcb s \<noteq> None"
  shows "partial (u @ [c]) \<Longrightarrow> rx_pbuf H L p (c # cs) (False, s) = rx_pbuf H L p cs (False, net_put c s)"
    and "bad_prefix (u @ [c]) \<Longrightarrow> rx_pbuf H L p (c # cs) (False, s) = rx_pbuf H L p cs (True, net_put c s)"
    and "whole (u @ [c]) \<Longrightarrow> rx_pbuf H L p (c # cs) (False, s) =
      (let t = net_process_frame H L p (net_put c s) in
       if net_session_pcb t = None then (True, t) else rx_pbuf H L p cs (False, t))"
proof -
  have h: "rx_holds (u @ [c]) (net_put c s)" by (rule put_holds(1) [OF assms(1) partial_length [OF assms(2)]])
  note len = rx_len_less(1) [OF assms(1)] rx_len_less(2) [OF h]
  note fl = holds_frame_length [OF h]
  show "rx_pbuf H L p (c # cs) (False, s) = rx_pbuf H L p cs (False, net_put c s)" if a: "partial (u @ [c])"
  proof (cases "length u < 4")
    case True
    then show ?thesis using a fl len assms(3) by (auto simp: Let_def partial_def dest: leD)
  next
    case False
    then have "net_rx_len (net_put c s) \<noteq> 4 + frame_length (net_put c s)"
      using a at_frame_end [OF h] by (auto simp: partial_def)
    then show ?thesis using False len assms(3) by (auto simp: Let_def)
  qed
  show "rx_pbuf H L p (c # cs) (False, s) = rx_pbuf H L p cs (True, net_put c s)" if a: "bad_prefix (u @ [c])"
    using a fl len by (simp add: Let_def bad_prefix_def)
  show "rx_pbuf H L p (c # cs) (False, s) =
      (let t = net_process_frame H L p (net_put c s) in
       if net_session_pcb t = None then (True, t) else rx_pbuf H L p cs (False, t))" if a: "whole (u @ [c])"
  proof -
    have "net_rx_len (net_put c s) = 4 + frame_length (net_put c s)" "\<not> length u < 4"
      using a at_frame_end [OF h] by (auto simp: whole_def)
    then show ?thesis using len by (simp add: Let_def)
  qed
qed

text \<open>
  After an invalid prefix the loop still stores the rest of the pbuf, and nothing else happens: no length
  that announces 0 or more than 2044 bytes can be reached with what is left of the buffer.
\<close>

lemma rx_overflowed:
  assumes "rx_holds v s" and "4 \<le> length v" and "be32_at v 0 = 0 \<or> be32_at v 0 > NET_FRAME_MAX - 4"
    and "length v + length cs \<le> 2048" and "net_session_pcb s \<noteq> None"
  shows "\<exists>rx n. rx_pbuf H L p cs (True, s) = (True, s\<lparr>net_rx := rx, net_rx_len := n\<rparr>) \<and> length rx = 2048"
  using assms
proof (induction cs arbitrary: v s)
  case Nil
  then show ?case by (intro exI [of _ "net_rx s"] exI [of _ "net_rx_len s"]) (simp add: rx_holds_def)
next
  case (Cons c cs)
  let ?v = "v @ [c]"
  have h: "rx_holds ?v (net_put c s)" by (rule put_holds(1)) (use Cons.prems in simp_all)
  have b: "be32_at ?v 0 = be32_at v 0" using Cons.prems(2) by (rule be32_at_append)
  have fl: "frame_length (net_put c s) = be32_at v 0" using holds_frame_length [OF h] Cons.prems(2) b by simp
  have n: "unat (net_rx_len (net_put c s)) = Suc (length v)" using h by (simp add: rx_holds_def)
  have "unat (4 + be32_at v 0) \<noteq> Suc (length v)"
    using Cons.prems(2,3,4) u32_lt [of "be32_at v 0"] by (auto simp: unat_plus_if' word_less_nat_alt)
  then have "net_rx_len (net_put c s) \<noteq> 4 + frame_length (net_put c s)" using n fl by auto
  then have e: "rx_pbuf H L p (c # cs) (True, s) = rx_pbuf H L p cs (True, net_put c s)"
    using Cons.prems(2,5) rx_len_less(1) [OF Cons.prems(1)] by (auto simp: Let_def)
  have i: "unat (net_rx_len s) < length (net_rx s)" using Cons.prems by (simp add: rx_holds_def)
  obtain rx k where "rx_pbuf H L p cs (True, net_put c s) = (True, (net_put c s)\<lparr>net_rx := rx, net_rx_len := k\<rparr>)" "length rx = 2048"
    using Cons.IH [OF h] Cons.prems b by auto
  then show ?case using e i by (auto simp: net_put_def net_check_def)
qed

text \<open>The loops, whatever lwIP answers, on pbufs of at most 2045 bytes.\<close>

definition rx_result_ok :: "hardware \<Rightarrow> pcb \<Rightarrow> bool \<times> 'e net_session \<Rightarrow> bool" where
  "rx_result_ok H p r \<longleftrightarrow> tx_ok H (snd r) \<and> (\<not> fst r \<longrightarrow> session_ok H (snd r) \<and> net_session_pcb (snd r) = Some p)"

lemma rx_pbuf_ok:
  assumes "aead_lengths (hw_crypto H)" and "session_ok H s" and "net_session_pcb s = Some p" and "length cs \<le> 2045"
  shows "rx_result_ok H p (rx_pbuf H L p cs (False, s))"
  using assms(2-4)
proof (induction cs arbitrary: s)
  case Nil
  then show ?case by (simp add: rx_result_ok_def session_ok_def)
next
  case (Cons c cs)
  obtain u where u: "partial u" "rx_holds u s" "tx_ok H s" using Cons.prems(1) by (auto simp: session_ok_def)
  let ?s = "net_put c s"
  have h: "rx_holds (u @ [c]) ?s" "net_oob ?s = net_oob s" using put_holds [OF u(2) partial_length [OF u(1)]] by simp_all
  then have t: "tx_ok H ?s" using u(3) by (simp add: tx_ok_def)
  have some: "net_session_pcb s \<noteq> None" "net_session_pcb ?s = Some p" using Cons.prems(2) by simp_all
  note byte = rx_byte [OF u(2,1) some(1)]
  from u(1) show ?case
  proof (cases rule: byte_cases [of u c])
    case part
    then have "session_ok H ?s" using t h(1) some(2) by (auto simp: session_ok_def)
    then show ?thesis using Cons.IH [of ?s] Cons.prems(3) byte(1) [OF part] some(2) by simp
  next
    case bad
    then have "4 \<le> length (u @ [c])" "be32_at (u @ [c]) 0 = 0 \<or> be32_at (u @ [c]) 0 > NET_FRAME_MAX - 4"
        "length (u @ [c]) + length cs \<le> 2048" using Cons.prems(3) by (auto simp: bad_prefix_def)
    from rx_overflowed [OF h(1) this] obtain rx n where
        "rx_pbuf H L p cs (True, ?s) = (True, ?s\<lparr>net_rx := rx, net_rx_len := n\<rparr>)" "length rx = 2048"
      using some(2) by (metis option.distinct(1))
    then show ?thesis using byte(2) [OF bad] t by (simp add: rx_result_ok_def tx_ok_def)
  next
    case complete
    let ?t = "net_process_frame H L p ?s"
    note q = process_ok [OF assms(1) t, of L p]
    show ?thesis
    proof (cases "net_session_pcb ?t = None")
      case True
      then show ?thesis using q byte(3) [OF complete] by (simp add: Let_def rx_result_ok_def)
    next
      case False
      then have "session_ok H ?t" "net_session_pcb ?t = Some p"
        using q some(2) by (auto simp: session_ok_def rx_holds_nil tx_ok_def intro!: exI [of _ "[]"])
      then show ?thesis using Cons.IH [of ?t] Cons.prems(3) byte(3) [OF complete] by (simp add: Let_def)
    qed
  qed
qed

definition pbuf_ok :: "bytes list \<Rightarrow> bool" where
  "pbuf_ok qs \<longleftrightarrow> (\<forall>q \<in> set qs. length q \<le> 2045)"

lemma rx_chain_ok:
  assumes "aead_lengths (hw_crypto H)" and "rx_result_ok H p (overflow, s)" and "pbuf_ok qs"
  shows "rx_result_ok H p (rx_chain H L p qs (overflow, s))"
  using assms(2,3)
proof (induction qs arbitrary: overflow s)
  case (Cons q qs)
  show ?case
  proof (cases overflow)
    case False
    then have "rx_result_ok H p (rx_pbuf H L p q (False, s))"
      using Cons.prems by (intro rx_pbuf_ok [OF assms(1)]) (simp_all add: rx_result_ok_def pbuf_ok_def)
    then show ?thesis using Cons.IH [of "fst (rx_pbuf H L p q (False, s))" "snd (rx_pbuf H L p q (False, s))"] Cons.prems False
      by (simp add: pbuf_ok_def)
  qed (use Cons.prems in simp)
qed simp

lemma log_ok [simp]: "tx_ok H (net_log cs s) = tx_ok H s" "session_ok H (net_log cs s) = session_ok H s"
  "net_session_pcb (net_log cs s) = net_session_pcb s"
  by (simp_all add: net_log_def tx_ok_def session_ok_def rx_holds_def)

lemma recv_ok:
  assumes "aead_lengths (hw_crypto H)" and "session_ok H s" and "\<forall>qs. q = Some qs \<longrightarrow> pbuf_ok qs"
  shows "session_ok H (snd (net_recv_cb H L p q err s))"
proof -
  have t: "tx_ok H s" using assms(2) by (simp add: session_ok_def)
  show ?thesis
  proof (cases "Some p \<noteq> net_session_pcb s \<or> err \<noteq> ERR_OK \<or> q = None")
    case True
    then show ?thesis using assms(2) close_ok [OF t, of p] by (auto simp: net_recv_cb_def split: option.split)
  next
    case False
    then obtain qs where q: "q = Some qs" "net_session_pcb s = Some p" "err = ERR_OK" by auto
    obtain overflow t where r: "rx_chain H L p qs (False, s) = (overflow, t)" by fastforce
    have "rx_result_ok H p (overflow, t)"
      unfolding r [symmetric] by (rule rx_chain_ok [OF assms(1)]) (use assms t q in \<open>auto simp: rx_result_ok_def\<close>)
    then show ?thesis using q r by (auto simp: net_recv_cb_def rx_result_ok_def Let_def intro: close_ok)
  qed
qed

lemma err_ok: "session_ok H s \<Longrightarrow> session_ok H (net_err_cb s)"
  by (rule reset_session_ok) (simp_all add: net_err_cb_def net_reset_frame_def session_ok_def tx_ok_def)

lemma accept_ok: "session_ok H s \<Longrightarrow> session_ok H (snd (net_accept_cb newpcb err s))"
proof -
  assume s: "session_ok H s"
  have "session_ok H (net_reset_frame (s\<lparr>net_session_pcb := q\<rparr>))" for q
    by (rule reset_session_ok) (use s in \<open>simp_all add: net_reset_frame_def session_ok_def tx_ok_def\<close>)
  then show ?thesis using s by (auto simp: net_accept_cb_def split: option.splits)
qed

lemma sent_session_ok: "session_ok H s \<Longrightarrow> session_ok H (net_sent_cb L p s)"
proof -
  assume s: "session_ok H s"
  show ?thesis
  proof (cases "Some p = net_session_pcb s")
    case True
    then show ?thesis using s sent_ok [of H s L p] by (auto simp: session_ok_def rx_holds_def)
  qed (use s in \<open>simp add: net_sent_cb_def\<close>)
qed

end
