(* ===== verification/Net_Stream.thy ===== *)
theory Net_Stream
  imports Net_Session
begin

section \<open>Frames over a byte stream (firmware/net_endpoint.c and tools/pico_tcp_send.py)\<close>

text \<open>
  What the receive callback is meant to compute: the frames of a byte stream, whatever the segments and pbufs
  it arrives in. \<open>spec_feed\<close> decodes a stream; \<open>serve\<close> answers a list of frames. The client's framing
  is \<open>send_frame\<close> and \<open>recv_frame\<close> of the TCP tool.
\<close>

subsection \<open>The client\<close>

text \<open>\<open>to_bytes(4, "big")\<close> raises for a length of \<open>2^32\<close> or more: \<open>None\<close>.\<close>

definition send_frame :: "bytes \<Rightarrow> bytes option" where
  "send_frame payload = (if length payload < 2 ^ 32 then Some (be32_bytes (of_nat (length payload)) @ payload) else None)"

text \<open>Reading one frame from the bytes received so far and to come: the frame and the rest, \<open>None\<close> for an error.\<close>

definition recv_frame :: "bytes \<Rightarrow> (bytes \<times> bytes) option" where
  "recv_frame stream =
     (if length stream < 4 then None
      else let n = unat (be32_at stream 0) in
        if \<not> (1 \<le> n \<and> n \<le> 65535) then None
        else if length (drop 4 stream) < n then None
        else Some (take n (drop 4 stream), drop n (drop 4 stream)))"

fun recv_frames :: "nat \<Rightarrow> bytes \<Rightarrow> (bytes list \<times> bytes) option" where
  "recv_frames 0 stream = Some ([], stream)"
| "recv_frames (Suc k) stream =
     Option.bind (recv_frame stream) (\<lambda>(f, rest). map_option (\<lambda>(fs, end). (f # fs, end)) (recv_frames k rest))"

subsection \<open>The stream specification\<close>

fun spec_feed :: "bytes \<Rightarrow> bytes option \<Rightarrow> bytes list \<times> bytes option" where
  "spec_feed [] acc = ([], acc)"
| "spec_feed (c # cs) None = ([], None)"
| "spec_feed (c # cs) (Some u) =
     (let v = u @ [c] in
      if length v < 4 then spec_feed cs (Some v)
      else let n = unat (be32_at v 0) in
        if n = 0 \<or> n > 2044 then ([], None)
        else if length v = 4 + n then (case spec_feed cs (Some []) of (fs, acc) \<Rightarrow> (drop 4 v # fs, acc))
        else spec_feed cs (Some v))"

definition respond :: "hardware \<Rightarrow> 'e lwip \<Rightarrow> pcb \<Rightarrow> bytes \<Rightarrow> device \<times> 'e \<Rightarrow> bytes \<times> device \<times> 'e" where
  "respond H L p f s =
     (case lw_env L (snd s) of (E, e) \<Rightarrow>
      case command_process_frame H E f BRIDGE_TRANSPORT_RESPONSE_MAX (fst s) of (resp, d) \<Rightarrow>
        (resp, d, if resp = [] then e else snd (lw_write L p (framed resp) (snd (lw_sndbuf L p e)))))"

fun serve :: "hardware \<Rightarrow> 'e lwip \<Rightarrow> pcb \<Rightarrow> bytes list \<Rightarrow> device \<times> 'e \<Rightarrow> bytes list \<times> device \<times> 'e" where
  "serve H L p [] s = ([], s)"
| "serve H L p (f # fs) s =
     (case respond H L p f s of (resp, t) \<Rightarrow> case serve H L p fs t of (rs, r) \<Rightarrow> (resp # rs, r))"

text \<open>The bytes a client gets for a list of responses; the empty one is none.\<close>

definition answers :: "bytes list \<Rightarrow> bytes" where
  "answers rs = concat (map framed (filter (\<lambda>r. r \<noteq> []) rs))"

fun written :: "pcb \<Rightarrow> tcp_call list \<Rightarrow> bytes" where
  "written p [] = []"
| "written p (Tcp_Write q data ok # cs) = (if q = p \<and> ok then data else []) @ written p cs"
| "written p (_ # cs) = written p cs"

text \<open>The send buffer of lwIP always has room for a response.\<close>

definition roomy :: "'e lwip \<Rightarrow> bool" where
  "roomy L \<longleftrightarrow> (\<forall>p e data. 58 \<le> fst (lw_sndbuf L p e) \<and> (length data \<le> 58 \<longrightarrow> fst (lw_write L p data e)))"

lemma written_append [simp]: "written p (xs @ ys) = written p xs @ written p ys"
  by (induction p xs rule: written.induct) simp_all

lemma answers_Cons: "answers (r # rs) = (if r = [] then [] else framed r) @ answers rs"
  by (simp add: answers_def)

lemma answers_append: "answers (rs @ qs) = answers rs @ answers qs"
  by (simp add: answers_def)

lemma feed_closed [simp]: "spec_feed cs None = ([], None)"
  by (cases cs) simp_all

lemma feed_append:
  "spec_feed (xs @ ys) acc =
     (case spec_feed xs acc of (fs, a) \<Rightarrow> case spec_feed ys a of (gs, b) \<Rightarrow> (fs @ gs, b))"
proof (induction xs acc rule: spec_feed.induct)
  case (3 c cs u)
  let ?v = "u @ [c]" and ?n = "unat (be32_at (u @ [c]) 0)"
  consider "length ?v < 4" | "\<not> length ?v < 4" "?n = 0 \<or> ?n > 2044"
    | "\<not> length ?v < 4" "\<not> (?n = 0 \<or> ?n > 2044)" "length ?v = 4 + ?n"
    | "\<not> length ?v < 4" "\<not> (?n = 0 \<or> ?n > 2044)" "length ?v \<noteq> 4 + ?n" by blast
  then show ?case
  proof cases
    case 1
    then show ?thesis using "3.IH"(1) [OF refl] by simp
  next
    case 2
    then show ?thesis by simp
  next
    case 3
    then show ?thesis using "3.IH"(2) [OF refl _ refl] by (simp add: Let_def split: prod.splits)
  next
    case 4
    then show ?thesis using "3.IH"(3) [OF refl _ refl] by (simp add: Let_def)
  qed
qed (simp_all split: prod.split)

lemma serve_append:
  "serve H L p (fs @ gs) s =
     (case serve H L p fs s of (rs, t) \<Rightarrow> case serve H L p gs t of (qs, r) \<Rightarrow> (rs @ qs, r))"
  by (induction fs arbitrary: s) (simp_all split: prod.split)

lemma serve_length [simp]: "length (fst (serve H L p fs s)) = length fs"
  by (induction fs arbitrary: s) (simp_all split: prod.split, metis fst_conv)

text \<open>One byte of the specification in the terms of the code.\<close>

lemma feed_byte:
  assumes "partial u"
  shows "partial (u @ [c]) \<Longrightarrow> spec_feed (c # cs) (Some u) = spec_feed cs (Some (u @ [c]))"
    and "bad_prefix (u @ [c]) \<Longrightarrow> spec_feed (c # cs) (Some u) = ([], None)"
    and "whole (u @ [c]) \<Longrightarrow> spec_feed (c # cs) (Some u) =
      (case spec_feed cs (Some []) of (fs, acc) \<Rightarrow> (drop 4 (u @ [c]) # fs, acc))"
  by (auto simp: partial_def bad_prefix_def whole_def Let_def word_le_nat_alt word_less_nat_alt unat_eq_0 split: prod.split)

subsection \<open>The callback decodes the stream\<close>

text \<open>A response that is queued while nothing else is goes out at once and whole.\<close>

lemma sent_at_once:
  assumes "roomy L" and "length (net_pending_tx s) = 58" and "net_session_pcb s = Some p" and "length resp \<le> 54"
  shows "net_sent_cb L p (queue_response resp s) = (queue_response resp s)\<lparr>
      net_lwip := snd (lw_write L p (framed resp) (snd (lw_sndbuf L p (net_lwip s)))),
      net_calls := net_calls s @ [Tcp_Write p (framed resp) True, Tcp_Output p], net_pending_tx_len := 0\<rparr>"
proof -
  let ?q = "of_nat (4 + length resp) :: u32"
  obtain space e where a: "lw_sndbuf L p (net_lwip s) = (space, e)" by fastforce
  have space: "58 \<le> space" using assms(1) a unfolding roomy_def by (metis fst_conv)
  have q: "unat ?q = 4 + length resp" by (rule unat_of_length) (use assms(4) in simp)
  have n: "unat (tx_count ?q space) = 4 + length resp"
  proof (cases "?q < space")
    case True
    then show ?thesis using q assms(4) by (simp add: tx_count_def small_u16)
  next
    case False
    then have "space = ?q" using space assms(4) q unfolding word_le_nat_alt word_less_nat_alt word_unat_eq_iff by simp
    then show ?thesis using q assms(4) by (simp add: tx_count_def small_u16)
  qed
  have c: "ucast (tx_count ?q space) = ?q"
    by (rule word_unat_eq_iff [THEN iffD2]) (use n q assms(4) in \<open>simp add: unsigned_ucast_eq take_bit_nat_eq_self\<close>)
  have t: "take (4 + length resp) (memcpy_at (net_pending_tx s) 0 (framed resp)) = framed resp"
    by (simp add: memcpy_at_def)
  obtain ok e' where w: "lw_write L p (framed resp) e = (ok, e')" by fastforce
  have "fst (lw_write L p (framed resp) e)" using assms(1,4) by (simp add: roomy_def)
  then have ok: "ok" by (simp add: w)
  have z: "?q \<noteq> 0" using q by (metis add_is_0 unat_0 zero_neq_numeral)
  have "space \<noteq> 0" using space by auto
  then show ?thesis
    using assms(3) z n c t w a ok by (simp add: net_sent_cb_def queue_response_def Let_def net_log_def)
qed

text \<open>
  What the session \<open>p\<close> is after some bytes of the stream: \<open>acc\<close> as in the specification, the state of
  device and lwIP, and the bytes written. After an invalid prefix the session waits to be closed.
\<close>

definition at_point :: "hardware \<Rightarrow> pcb \<Rightarrow> bytes option \<Rightarrow> device \<times> 'e \<Rightarrow> bytes \<Rightarrow> 'e net_session \<Rightarrow> bool" where
  "at_point H p acc de w s \<longleftrightarrow> tx_ok H s \<and> net_session_pcb s = Some p \<and> net_device s = fst de \<and> net_lwip s = snd de \<and>
     written p (net_calls s) = w \<and>
     (case acc of None \<Rightarrow> True | Some u \<Rightarrow> partial u \<and> rx_holds u s \<and> net_pending_tx_len s = 0)"

lemma processed_bytes:
  assumes "rx_holds v s" and "whole v"
  shows "take (unat (ucast (net_rx_len s - 4) :: u16)) (drop 4 (net_rx s)) = drop 4 v"
proof -
  have len: "4 \<le> length v" "length v < 65536" using assms(2) by (auto simp: whole_def word_le_nat_alt)
  have "unat (net_rx_len s - 4) = length v - 4"
    using assms(1) len(1) by (simp add: unat_sub word_le_nat_alt rx_holds_def)
  then have "unat (ucast (net_rx_len s - 4) :: u16) = length v - 4"
    using len by (simp add: unsigned_ucast_eq take_bit_nat_eq_self)
  moreover have "take (length v - 4) (drop 4 (net_rx s)) = drop 4 (take (length v) (net_rx s))" by (simp add: drop_take)
  ultimately show ?thesis using assms(1) by (simp add: rx_holds_def)
qed

lemma processed:
  assumes "aead_lengths (hw_crypto H)" and "roomy L" and "at_point H p (Some u) de w s"
    and "whole (u @ [c])" and "respond H L p (drop 4 (u @ [c])) de = (resp, de')"
  shows "at_point H p (Some []) de' (w @ answers [resp]) (net_process_frame H L p (net_put c s))"
proof -
  let ?v = "u @ [c]"
  define s1 where "s1 = net_put c s"
  have s: "tx_ok H s" "net_session_pcb s = Some p" "net_device s = fst de" "net_lwip s = snd de"
      "written p (net_calls s) = w" "partial u" "rx_holds u s" "net_pending_tx_len s = 0"
    using assms(3) by (simp_all add: at_point_def)
  have h: "rx_holds ?v s1" "net_oob s1 = net_oob s"
    using put_holds [OF s(7) partial_length [OF s(6)]] by (simp_all add: s1_def)
  have s1: "tx_ok H s1" "net_session_pcb s1 = Some p" "net_device s1 = fst de" "net_lwip s1 = snd de"
      "written p (net_calls s1) = w" "net_pending_tx_len s1 = 0"
    using s h(2) by (simp_all add: s1_def tx_ok_def)
  have f: "take (unat (ucast (net_rx_len s1 - 4) :: u16)) (drop 4 (net_rx s1)) = drop 4 ?v"
    by (rule processed_bytes [OF h(1) assms(4)])
  obtain E e r d where p: "lw_env L (net_lwip s1) = (E, e)"
      "command_process_frame H E (drop 4 ?v) BRIDGE_TRANSPORT_RESPONSE_MAX (net_device s1) = (r, d)" "length r \<le> 54"
      "net_process_frame H L p s1 = (let t = s1\<lparr>net_lwip := e, net_device := d, net_rx_len := 0\<rparr> in
        if r = [] then t else if net_pending_tx_len s1 \<noteq> 0 then net_session_close (Some p) t
        else net_sent_cb L p (queue_response r t))"
    using process_cases [OF assms(1) s1(1), of L p] unfolding f by metis
  define t where "t = s1\<lparr>net_lwip := e, net_device := d, net_rx_len := 0\<rparr>"
  have de': "resp = r" "fst de' = d" "snd de' = (if r = [] then e else snd (lw_write L p (framed r) (snd (lw_sndbuf L p e))))"
    using assms(5) p(1,2) s1(3,4) by (auto simp: respond_def split: prod.splits)
  have ok: "tx_ok H (net_process_frame H L p s1)" "net_rx_len (net_process_frame H L p s1) = 0"
    using process_ok [OF assms(1) s1(1), of L p] by blast+
  have l: "length (net_pending_tx t) = 58" "net_session_pcb t = Some p" using s1(1,2) by (simp_all add: t_def tx_ok_def)
  have P: "net_process_frame H L p s1 = (if r = [] then t else (queue_response r t)\<lparr>
      net_lwip := snd (lw_write L p (framed r) (snd (lw_sndbuf L p (net_lwip t)))),
      net_calls := net_calls t @ [Tcp_Write p (framed r) True, Tcp_Output p], net_pending_tx_len := 0\<rparr>)"
    using p(4) s1(6) sent_at_once [OF assms(2) l p(3)] by (simp add: Let_def flip: t_def)
  have "rx_holds [] (net_process_frame H L p s1)" using ok by (simp add: rx_holds_nil tx_ok_def)
  moreover have "net_session_pcb (net_process_frame H L p s1) = Some p" "net_device (net_process_frame H L p s1) = fst de'"
      "net_lwip (net_process_frame H L p s1) = snd de'" "net_pending_tx_len (net_process_frame H L p s1) = 0"
      "written p (net_calls (net_process_frame H L p s1)) = w @ answers [resp]"
    using de' s1 unfolding P by (simp_all add: t_def queue_response_def answers_def)
  ultimately show ?thesis using ok(1) by (simp add: at_point_def flip: s1_def)
qed

lemma pbuf_stream:
  assumes "aead_lengths (hw_crypto H)" and "roomy L" and "at_point H p (Some u) de w s" and "length cs \<le> 2045"
    and "spec_feed cs (Some u) = (fs, acc)" and "serve H L p fs de = (rs, de')"
  shows "\<exists>t. rx_pbuf H L p cs (False, s) = (acc = None, t) \<and> at_point H p acc de' (w @ answers rs) t"
  using assms(3-6)
proof (induction cs arbitrary: u s de w fs rs)
  case Nil
  then show ?case by (auto simp: answers_def)
next
  case (Cons c cs)
  let ?s = "net_put c s" and ?v = "u @ [c]"
  have s: "tx_ok H s" "net_session_pcb s = Some p" "partial u" "rx_holds u s" using Cons.prems(1) by (simp_all add: at_point_def)
  have h: "rx_holds ?v ?s" "net_oob ?s = net_oob s" using put_holds [OF s(4) partial_length [OF s(3)]] by simp_all
  have some: "net_session_pcb s \<noteq> None" "net_session_pcb ?s \<noteq> None" using s(2) by simp_all
  note byte = rx_byte [OF s(4,3) some(1)]
  from s(3) show ?case
  proof (cases rule: byte_cases [of u c])
    case part
    have "at_point H p (Some ?v) de w ?s" using Cons.prems(1) part h by (auto simp: at_point_def tx_ok_def)
    moreover have "spec_feed cs (Some ?v) = (fs, acc)" using Cons.prems(3) feed_byte(1) [OF s(3) part] by simp
    ultimately show ?thesis using Cons.IH [of ?v de w ?s fs rs] Cons.prems(2,4) byte(1) [OF part] by simp
  next
    case bad
    then have "4 \<le> length ?v" "be32_at ?v 0 = 0 \<or> be32_at ?v 0 > NET_FRAME_MAX - 4" "length ?v + length cs \<le> 2048"
      using Cons.prems(2) by (auto simp: bad_prefix_def)
    from rx_overflowed [OF h(1) this some(2)] obtain rx n where
        "rx_pbuf H L p cs (True, ?s) = (True, ?s\<lparr>net_rx := rx, net_rx_len := n\<rparr>)" "length rx = 2048" by metis
    moreover have "fs = []" "acc = None" "rs = []" "de' = de"
      using Cons.prems(3,4) feed_byte(2) [OF s(3) bad] by auto
    ultimately show ?thesis unfolding byte(2) [OF bad] using Cons.prems(1) h(2) by (auto simp: at_point_def tx_ok_def answers_def)
  next
    case complete
    obtain gs where gs: "spec_feed cs (Some []) = (gs, acc)" "fs = drop 4 ?v # gs"
      using Cons.prems(3) feed_byte(3) [OF s(3) complete] by (cases "spec_feed cs (Some [])") auto
    obtain r de1 where r: "respond H L p (drop 4 ?v) de = (r, de1)" by (metis surj_pair)
    obtain qs where qs: "serve H L p gs de1 = (qs, de')" "rs = r # qs"
      using Cons.prems(4) r gs(2) by (cases "serve H L p gs de1") auto
    have a: "at_point H p (Some []) de1 (w @ answers [r]) (net_process_frame H L p ?s)"
      by (rule processed [OF assms(1,2) Cons.prems(1) complete r])
    then have "net_session_pcb (net_process_frame H L p ?s) \<noteq> None" by (simp add: at_point_def)
    then have "rx_pbuf H L p (c # cs) (False, s) = rx_pbuf H L p cs (False, net_process_frame H L p ?s)"
      using byte(3) [OF complete] by (simp only: Let_def if_False)
    moreover have "answers rs = answers [r] @ answers qs" using answers_append [of "[r]" qs] by (simp add: qs(2))
    ultimately show ?thesis using Cons.IH [OF a _ gs(1) qs(1)] Cons.prems(2) by simp
  qed
qed

lemma chain_stream:
  assumes "aead_lengths (hw_crypto H)" and "roomy L" and "at_point H p a de w s" and "pbuf_ok qs"
    and "spec_feed (concat qs) a = (fs, acc)" and "serve H L p fs de = (rs, de')"
  shows "\<exists>t. rx_chain H L p qs (a = None, s) = (acc = None, t) \<and> at_point H p acc de' (w @ answers rs) t"
  using assms(3-6)
proof (induction qs arbitrary: a s de w fs rs)
  case Nil
  then show ?case by (auto simp: answers_def)
next
  case (Cons q qs)
  show ?case
  proof (cases a)
    case None
    then show ?thesis using Cons.prems by (auto simp: answers_def)
  next
    case (Some u)
    obtain f1 a1 where f1: "spec_feed q (Some u) = (f1, a1)" by fastforce
    obtain f2 where f2: "spec_feed (concat qs) a1 = (f2, acc)" "fs = f1 @ f2"
      using Cons.prems(3) Some f1 by (auto simp: feed_append split: prod.splits)
    obtain r1 de1 where r1: "serve H L p f1 de = (r1, de1)" by (metis surj_pair)
    obtain r2 where r2: "serve H L p f2 de1 = (r2, de')" "rs = r1 @ r2"
      using Cons.prems(4) r1 f2(2) by (auto simp: serve_append split: prod.splits)
    obtain t where t: "rx_pbuf H L p q (False, s) = (a1 = None, t)" "at_point H p a1 de1 (w @ answers r1) t"
      using pbuf_stream [OF assms(1,2) Cons.prems(1) [unfolded Some] _ f1 r1] Cons.prems(2) by (auto simp: pbuf_ok_def)
    show ?thesis
      using Cons.IH [OF t(2) _ f2(1) r2(1)] t(1) Cons.prems(2) Some r2(2) by (simp add: pbuf_ok_def answers_append)
  qed
qed

text \<open>The same over calls of the callback; an invalid prefix has closed the session.\<close>

definition conn_at :: "hardware \<Rightarrow> pcb \<Rightarrow> bytes option \<Rightarrow> device \<times> 'e \<Rightarrow> bytes \<Rightarrow> 'e net_session \<Rightarrow> bool" where
  "conn_at H p acc de w s \<longleftrightarrow> session_ok H s \<and> net_device s = fst de \<and> net_lwip s = snd de \<and> written p (net_calls s) = w \<and>
     (case acc of None \<Rightarrow> net_session_pcb s = None
      | Some u \<Rightarrow> net_session_pcb s = Some p \<and> partial u \<and> rx_holds u s \<and> net_pending_tx_len s = 0)"

definition receive_all :: "hardware \<Rightarrow> 'e lwip \<Rightarrow> pcb \<Rightarrow> bytes list list \<Rightarrow> 'e net_session \<Rightarrow> 'e net_session" where
  "receive_all H L p ps s = fold (\<lambda>qs s. snd (net_recv_cb H L p (Some qs) ERR_OK s)) ps s"

lemma recv_stream:
  assumes "aead_lengths (hw_crypto H)" and "roomy L" and "conn_at H p a de w s" and "pbuf_ok qs"
    and "spec_feed (concat qs) a = (fs, acc)" and "serve H L p fs de = (rs, de')"
  shows "conn_at H p acc de' (w @ answers rs) (snd (net_recv_cb H L p (Some qs) ERR_OK s))"
proof -
  have ok: "session_ok H (snd (net_recv_cb H L p (Some qs) ERR_OK s))"
    by (rule recv_ok [OF assms(1)]) (use assms(3,4) in \<open>auto simp: conn_at_def\<close>)
  show ?thesis
  proof (cases a)
    case None
    then show ?thesis using assms(3,5,6) ok by (auto simp: conn_at_def net_recv_cb_def net_log_def answers_def)
  next
    case (Some u)
    then have "at_point H p a de w s" using assms(3) by (auto simp: conn_at_def at_point_def session_ok_def)
    from chain_stream [OF assms(1,2) this assms(4-6)] obtain t where
      t: "rx_chain H L p qs (False, s) = (acc = None, t)" "at_point H p acc de' (w @ answers rs) t" using Some by auto
    have r: "net_recv_cb H L p (Some qs) ERR_OK s =
        (ERR_OK, let t = net_log [Pbuf_Free, Tcp_Recved p (tot_len qs)] t in if acc = None then net_session_close (Some p) t else t)"
      using assms(3) Some t(1) by (auto simp: conn_at_def net_recv_cb_def Let_def)
    show ?thesis
      using ok t(2) by (cases acc) (auto simp: r conn_at_def at_point_def close_state net_log_def rx_holds_def)
  qed
qed

lemma receive_stream:
  assumes "aead_lengths (hw_crypto H)" and "roomy L" and "conn_at H p a de w s" and "\<forall>qs \<in> set ps. pbuf_ok qs"
    and "spec_feed (concat (map concat ps)) a = (fs, acc)" and "serve H L p fs de = (rs, de')"
  shows "conn_at H p acc de' (w @ answers rs) (receive_all H L p ps s)"
  using assms(3-6)
proof (induction ps arbitrary: a s de w fs rs)
  case Nil
  then show ?case by (simp add: receive_all_def answers_def)
next
  case (Cons qs ps)
  obtain f1 a1 where f1: "spec_feed (concat qs) a = (f1, a1)" by fastforce
  obtain f2 where f2: "spec_feed (concat (map concat ps)) a1 = (f2, acc)" "fs = f1 @ f2"
    using Cons.prems(3) f1 by (auto simp: feed_append split: prod.splits)
  obtain r1 de1 where r1: "serve H L p f1 de = (r1, de1)" by (metis surj_pair)
  obtain r2 where r2: "serve H L p f2 de1 = (r2, de')" "rs = r1 @ r2"
    using Cons.prems(4) r1 f2(2) by (auto simp: serve_append split: prod.splits)
  have "conn_at H p a1 de1 (w @ answers r1) (snd (net_recv_cb H L p (Some qs) ERR_OK s))"
    by (rule recv_stream [OF assms(1,2) Cons.prems(1) _ f1 r1]) (use Cons.prems(2) in simp)
  from Cons.IH [OF this _ f2(1) r2(1)] show ?case using Cons.prems(2) r2(2) by (simp add: receive_all_def answers_append)
qed

subsection \<open>The client's frames\<close>

lemma be32_at_of_nat: "n < 2 ^ 32 \<Longrightarrow> unat (be32_at (be32_bytes (of_nat n) @ ys) 0) = n"
  by (simp add: be32_at_bytes unsigned_of_nat take_bit_nat_eq_self)

lemma frame_parts:
  assumes "0 < length f" and "length f \<le> 2044"
  shows "k < length (framed f) \<Longrightarrow> partial (take k (framed f))" and "whole (framed f)"
proof -
  have n: "unat (be32_at (framed f) 0) = length f"
    using be32_at_of_nat [of "length f" f] assms(2) by (simp add: framed_def)
  then have b: "be32_at (framed f) 0 \<le> NET_FRAME_MAX - 4" "be32_at (framed f) 0 \<noteq> 0"
    using assms by (auto simp: word_le_nat_alt)
  have t: "be32_at (take k (framed f)) 0 = be32_at (framed f) 0" if "4 \<le> k" for k
    using that by (intro be32_at_cong) (simp add: min_def)
  show "k < length (framed f) \<Longrightarrow> partial (take k (framed f))"
    using b n t [of k] by (cases "k < 4") (auto simp: partial_def simp del: net_const)
  show "whole (framed f)" using b n assms(1) by (simp add: whole_def)
qed

lemma feed_frame:
  assumes "0 < length f" and "length f \<le> 2044"
  shows "spec_feed (framed f @ rest) (Some []) = (case spec_feed rest (Some []) of (fs, acc) \<Rightarrow> (f # fs, acc))"
proof -
  have step: "spec_feed (drop k (framed f) @ rest) (Some (take k (framed f))) =
      (case spec_feed rest (Some []) of (fs, acc) \<Rightarrow> (f # fs, acc))" if "k < length (framed f)" for k
    using that
  proof (induction "length (framed f) - k" arbitrary: k)
    case (Suc j)
    let ?c = "framed f ! k"
    have d: "drop k (framed f) @ rest = ?c # drop (Suc k) (framed f) @ rest" and v: "take k (framed f) @ [?c] = take (Suc k) (framed f)"
      using Suc.prems by (simp_all add: Cons_nth_drop_Suc take_Suc_conv_app_nth del: framed_length)
    note byte = feed_byte [OF frame_parts(1) [OF assms Suc.prems], of ?c "drop (Suc k) (framed f) @ rest", unfolded v]
    show ?case
    proof (cases "Suc k < length (framed f)")
      case True
      then show ?thesis
        using Suc.hyps(1) [of "Suc k"] Suc.hyps(2) byte(1) [OF frame_parts(1) [OF assms True]] unfolding d by simp
    next
      case False
      then have t: "take (Suc k) (framed f) = framed f" "drop (Suc k) (framed f) = []" using Suc.prems by simp_all
      have "drop 4 (framed f) = f" by (simp add: framed_def)
      then show ?thesis using byte(3) frame_parts(2) [OF assms] unfolding d t by simp
    qed
  qed simp
  show ?thesis using step [of 0] by simp
qed

lemma send_frame_framed: "length f \<le> 2044 \<Longrightarrow> send_frame f = Some (framed f)"
  by (simp add: send_frame_def framed_def)

lemma feed_frames:
  assumes "\<forall>f \<in> set fs. 0 < length f \<and> length f \<le> 2044"
  shows "spec_feed (concat (map framed fs) @ rest) (Some []) = (fs @ fst (spec_feed rest (Some [])), snd (spec_feed rest (Some [])))"
  using assms
proof (induction fs)
  case (Cons f fs)
  then show ?case using feed_frame [of f "concat (map framed fs) @ rest"] by simp
qed simp

lemma recv_framed:
  assumes "0 < length r" and "length r \<le> 65535"
  shows "recv_frame (framed r @ rest) = Some (r, rest)"
proof -
  have "unat (be32_at (framed r @ rest) 0) = length r"
    using be32_at_of_nat [of "length r" "r @ rest"] assms(2) by (simp add: framed_def)
  moreover have "drop 4 (framed r @ rest) = r @ rest" by (simp add: framed_def)
  moreover have "1 \<le> length r" "\<not> length (framed r @ rest) < 4" using assms(1) by (simp_all add: Suc_le_eq)
  ultimately show ?thesis using assms(2) by (simp add: recv_frame_def Let_def)
qed

lemma recv_answers:
  assumes "\<forall>r \<in> set rs. length r \<le> 54"
  shows "recv_frames (length (filter (\<lambda>r. r \<noteq> []) rs)) (answers rs) = Some (filter (\<lambda>r. r \<noteq> []) rs, [])"
  using assms
proof (induction rs)
  case (Cons r rs)
  then show ?case using recv_framed [of r "answers rs"] by (simp add: answers_Cons)
qed (simp add: answers_def)

lemma serve_responses:
  assumes "aead_lengths (hw_crypto H)" and "serve H L p fs s = (rs, t)"
  shows "\<forall>r \<in> set rs. length r \<le> 54"
  using assms(2)
proof (induction fs arbitrary: s rs)
  case (Cons f fs)
  obtain r u where r: "respond H L p f s = (r, u)" by (metis surj_pair)
  then have "length r \<le> 54" using response_length [OF assms(1)] by (auto simp: respond_def split: prod.splits)
  moreover obtain qs where "serve H L p fs u = (qs, t)" "rs = r # qs" using Cons.prems r by (auto split: prod.splits)
  ultimately show ?case using Cons.IH [of u qs] by simp
qed simp

subsection \<open>Closing\<close>

text \<open>Up to the last byte of a frame the loop only stores.\<close>

lemma rx_stores:
  assumes "rx_holds u s" and "net_session_pcb s \<noteq> None" and "\<forall>k \<le> length cs. partial (u @ take k cs)"
  shows "rx_pbuf H L p (cs @ ds) (False, s) = rx_pbuf H L p ds (False, fold net_put cs s) \<and>
    rx_holds (u @ cs) (fold net_put cs s) \<and> net_oob (fold net_put cs s) = net_oob s"
  using assms
proof (induction cs arbitrary: u s)
  case (Cons c cs)
  have u: "partial u" "partial (u @ [c])" using Cons.prems(3) [rule_format, of 0] Cons.prems(3) [rule_format, of 1] by simp_all
  have "\<forall>k \<le> length cs. partial ((u @ [c]) @ take k cs)" using Cons.prems(3) by (metis Suc_le_mono append.assoc append_Cons append_Nil length_Cons take_Suc_Cons)
  moreover note put_holds [OF Cons.prems(1) partial_length [OF u(1)], of c]
  ultimately show ?case
    using Cons.IH [of "u @ [c]" "net_put c s"] Cons.prems(2) rx_byte(1) [OF Cons.prems(1) u(1) Cons.prems(2) u(2)] by simp
qed simp

lemma fold_put_keeps:
  "net_session_pcb (fold net_put cs s) = net_session_pcb s" "net_pending_tx (fold net_put cs s) = net_pending_tx s"
  "net_pending_tx_len (fold net_put cs s) = net_pending_tx_len s" "net_device (fold net_put cs s) = net_device s"
  "net_lwip (fold net_put cs s) = net_lwip s" "net_calls (fold net_put cs s) = net_calls s"
  by (induction cs arbitrary: s) simp_all

lemma partial_of_frame:
  assumes "0 < length f" and "length f \<le> 2044" and "k \<le> length (butlast (framed f))"
  shows "partial ([] @ take k (butlast (framed f)))"
proof -
  have "take k (butlast (framed f)) = take k (framed f)" using assms(3) by (simp add: butlast_conv_take)
  moreover have "k < length (framed f)" using assms(1,3) by simp
  ultimately show ?thesis using frame_parts(1) [OF assms(1,2), of k] by simp
qed

lemma one_frame:
  assumes "rx_holds [] s" and "net_session_pcb s \<noteq> None" and "0 < length f" and "length f \<le> 2044"
  shows "\<exists>t. rx_holds (framed f) t \<and> net_oob t = net_oob s \<and> net_session_pcb t = net_session_pcb s \<and>
    net_pending_tx t = net_pending_tx s \<and> net_pending_tx_len t = net_pending_tx_len s \<and> net_device t = net_device s \<and>
    net_lwip t = net_lwip s \<and> net_calls t = net_calls s \<and>
    rx_pbuf H L p (framed f) (False, s) =
      (let t = net_process_frame H L p t in if net_session_pcb t = None then (True, t) else (False, t))"
proof -
  let ?b = "butlast (framed f)" and ?c = "last (framed f)"
  let ?t = "fold net_put ?b s"
  have ne: "framed f \<noteq> []" using framed_length [of f] by (metis add_is_0 list.size(3) zero_neq_numeral)
  then have f: "framed f = ?b @ [?c]" by simp
  have "rx_pbuf H L p (?b @ [?c]) (False, s) = rx_pbuf H L p [?c] (False, ?t) \<and> rx_holds ([] @ ?b) ?t \<and> net_oob ?t = net_oob s"
    by (rule rx_stores [OF assms(1,2)]) (use partial_of_frame [OF assms(3,4)] in blast)
  then have b: "rx_pbuf H L p (?b @ [?c]) (False, s) = rx_pbuf H L p [?c] (False, ?t)" "rx_holds ?b ?t" "net_oob ?t = net_oob s"
    by simp_all
  have pb: "partial ?b" using partial_of_frame [OF assms(3,4) order_refl] by simp
  have w: "whole (?b @ [?c])" using frame_parts(2) [OF assms(3,4)] f by simp
  have h: "rx_holds (framed f) (net_put ?c ?t)" "net_oob (net_put ?c ?t) = net_oob s"
    using put_holds [OF b(2) partial_length [OF pb], of ?c] b(3) f by simp_all
  have some: "net_session_pcb ?t \<noteq> None" using assms(2) by (simp add: fold_put_keeps)
  have "rx_pbuf H L p (framed f) (False, s) =
      (let t = net_process_frame H L p (net_put ?c ?t) in if net_session_pcb t = None then (True, t) else (False, t))"
    using rx_byte(3) [OF b(2) pb some w, of H L p "[]"] b(1) f by (metis rx_pbuf.simps(1))
  then show ?thesis using h by (intro exI [of _ "net_put ?c ?t"]) (simp add: fold_put_keeps)
qed

subsection \<open>Properties\<close>



text \<open>C36: the receive callback does not tell lwIP that it has freed the connection. When the peer closes, it aborts the
  connection and returns \<open>ERR_OK\<close>, where lwIP wants \<open>ERR_ABRT\<close>; and when a frame has a response while
  the previous response is still queued, it aborts, then calls \<open>tcp_recved\<close> on the freed connection
  and aborts it a second time.\<close>

theorem aborts_are_not_reported:
  assumes "aead_lengths (hw_crypto H)" and "session_ok H s" and "net_session_pcb s = Some p"
    and "net_rx_len s = 0" and "net_pending_tx_len s \<noteq> 0" and "0 < length f" and "length f \<le> 2044"
    and "respond H L p f (net_device s, net_lwip s) = (resp, de)" and "resp \<noteq> []"
    and "closing = [Tcp_Arg p, Tcp_Recv p False, Tcp_Err p False, Tcp_Sent p False, Tcp_Abort p]"
  shows "fst (net_recv_cb H L p None ERR_OK s) = ERR_OK \<and>
      net_calls (snd (net_recv_cb H L p None ERR_OK s)) = net_calls s @ closing \<and>
    fst (net_recv_cb H L p (Some [framed f]) ERR_OK s) = ERR_OK \<and>
      net_calls (snd (net_recv_cb H L p (Some [framed f]) ERR_OK s)) =
        net_calls s @ closing @ [Pbuf_Free, Tcp_Recved p (4 + length f)] @ closing"
proof -
  have h: "rx_holds [] s" and ne: "net_session_pcb s \<noteq> None" and ok: "tx_ok H s"
    using assms(2-4) by (auto simp: session_ok_def tx_ok_def rx_holds_nil)
  obtain t where t: "rx_holds (framed f) t" "net_oob t = net_oob s" "net_session_pcb t = Some p"
      "net_pending_tx t = net_pending_tx s" "net_pending_tx_len t = net_pending_tx_len s" "net_device t = net_device s"
      "net_lwip t = net_lwip s" "net_calls t = net_calls s"
      "rx_pbuf H L p (framed f) (False, s) =
        (let t = net_process_frame H L p t in if net_session_pcb t = None then (True, t) else (False, t))"
    using one_frame [OF h ne assms(6,7), of H L p] assms(3) by metis
  have ok': "tx_ok H t" using ok t(1-8) by (simp add: tx_ok_def rx_holds_def)
  have n: "take (unat (ucast (net_rx_len t - 4) :: u16)) (drop 4 (net_rx t)) = f"
    using processed_bytes [OF t(1) frame_parts(2) [OF assms(6,7)]] by (simp add: framed_def)
  obtain E e r d where p: "lw_env L (net_lwip t) = (E, e)"
      "command_process_frame H E f BRIDGE_TRANSPORT_RESPONSE_MAX (net_device t) = (r, d)"
      "net_process_frame H L p t = (let t = t\<lparr>net_lwip := e, net_device := d, net_rx_len := 0\<rparr> in
        if r = [] then t else if net_pending_tx_len s \<noteq> 0 then net_session_close (Some p) t
        else net_sent_cb L p (queue_response r t))"
    using process_cases [OF assms(1) ok', of L p] unfolding n t(5) by metis
  have "r = resp" using assms(8) p(1,2) t(6,7) by (simp add: respond_def)
  then have c: "net_session_pcb (net_process_frame H L p t) = None" "net_calls (net_process_frame H L p t) = net_calls s @ closing"
    using p(3) assms(5,9,10) t(3,8) by (simp_all add: close_state)
  then have "rx_chain H L p [framed f] (False, s) = (True, net_process_frame H L p t)" using t(9) by (simp add: Let_def)
  then show ?thesis
    using assms(3,10) c by (simp add: net_recv_cb_def close_state net_log_def tot_len_def)
qed

subsection \<open>A concrete connection\<close>

definition demo_lwip :: "unit lwip" where
  "demo_lwip = \<lparr>lw_sndbuf = (\<lambda>p e. (1460, e)), lw_write = (\<lambda>p data e. (True, e)), lw_env = (\<lambda>e. (demo_env, e))\<rparr>"

definition demo_conn :: "unit net_session" where
  "demo_conn = snd (net_accept_cb (Some 3) ERR_OK (net_session_init demo_unit ()))"

lemma demo_lengths: "aead_lengths (hw_crypto demo_hw)"
  by (simp add: aead_lengths_def demo_hw_def length_demo_tag)

lemma demo_roomy: "roomy demo_lwip"
  by (simp add: roomy_def demo_lwip_def)

lemma init_ok: "device_inv H d \<Longrightarrow> session_ok H (net_session_init d e)"
  by (rule reset_session_ok) (simp_all add: net_session_init_def tx_ok_def NOISE_IK_RESPONSE_LEN_def)

lemma demo_conn_ok: "session_ok demo_hw demo_conn" "net_session_pcb demo_conn = Some 3" "net_rx_len demo_conn = 0"
  "net_pending_tx_len demo_conn = 0" "net_device demo_conn = demo_unit" "net_lwip demo_conn = ()"
  "written 3 (net_calls demo_conn) = []"
proof -
  have "session_ok demo_hw (net_session_init demo_unit ())"
    by (rule init_ok) (simp add: device_inv_def demo_unit_ok)
  then show "session_ok demo_hw demo_conn" unfolding demo_conn_def by (rule accept_ok)
  show "net_session_pcb demo_conn = Some 3" "net_rx_len demo_conn = 0" "net_pending_tx_len demo_conn = 0"
    "net_device demo_conn = demo_unit" "net_lwip demo_conn = ()" "written 3 (net_calls demo_conn) = []"
    by (simp_all add: demo_conn_def net_accept_cb_def net_session_init_def net_log_def net_reset_frame_def)
qed

lemma demo_hello_length: "length demo_hello_frame = 81"
  by (simp add: demo_hello_frame_def demo_hello_parts(3))



theorem aborts_are_not_reported_witness:
  "let s = demo_conn\<lparr>net_pending_tx_len := 5\<rparr>;
       closing = [Tcp_Arg 3, Tcp_Recv 3 False, Tcp_Err 3 False, Tcp_Sent 3 False, Tcp_Abort 3] in
    net_recv_cb demo_hw demo_lwip 3 (Some [framed demo_hello_frame]) ERR_OK s =
      (ERR_OK, snd (net_recv_cb demo_hw demo_lwip 3 (Some [framed demo_hello_frame]) ERR_OK s)) \<and>
    net_calls (snd (net_recv_cb demo_hw demo_lwip 3 (Some [framed demo_hello_frame]) ERR_OK s)) =
      net_calls demo_conn @ closing @ [Pbuf_Free, Tcp_Recved 3 85] @ closing"
proof -
  let ?s = "demo_conn\<lparr>net_pending_tx_len := 5\<rparr>"
  obtain resp where f: "command_process_frame demo_hw demo_env demo_hello_frame BRIDGE_TRANSPORT_RESPONSE_MAX demo_unit = (resp, demo_online)"
    and r: "resp \<noteq> []" using demo_goes_online(7) by blast
  have ok: "session_ok demo_hw ?s" using demo_conn_ok(1,2) by (auto simp: session_ok_def tx_ok_def rx_holds_def)
  have s: "net_session_pcb ?s = Some 3" "net_rx_len ?s = 0" "net_pending_tx_len ?s \<noteq> 0" by (simp_all add: demo_conn_ok)
  have l: "0 < length demo_hello_frame" "length demo_hello_frame \<le> 2044" by (simp_all add: demo_hello_length)
  have sv: "respond demo_hw demo_lwip 3 demo_hello_frame (net_device ?s, net_lwip ?s) = (resp, demo_online, ())"
    using f by (simp add: respond_def demo_lwip_def demo_conn_ok)
  show ?thesis using aborts_are_not_reported [OF demo_lengths ok s l sv r refl] by (simp add: demo_hello_length prod_eq_iff)
qed

end
