(* ===== verification/Net_Endpoint.thy ===== *)
theory Net_Endpoint
  imports Net_Stream
begin

section \<open>The network endpoint (firmware/net_endpoint.c)\<close>

text \<open>
  The Wi-Fi side: the state machine that \<open>net_endpoint_poll\<close> runs from the main loop, the listener, the
  diagnostics and the scan. The state of the Wi-Fi driver and of lwIP's network interface is the argument
  \<open>cyw43\<close>, the answers of calls that can fail are the argument \<open>poll_env\<close>; the calls that act on
  the radio or on the listener are returned as a list.
\<close>

definition NET_LISTEN_PORT :: u16 where "NET_LISTEN_PORT = 44901"
definition NET_CONNECT_TIMEOUT_MS :: u32 where "NET_CONNECT_TIMEOUT_MS = 20000"
definition NET_RETRY_MAX_MS :: u32 where "NET_RETRY_MAX_MS = 30000"

datatype net_state_t = NET_STATE_NO_RECORD | NET_STATE_RETRY_WAIT | NET_STATE_CONNECTING | NET_STATE_READY

record 'e endpoint =
  net_state :: net_state_t
  net_retry_at_ms :: u32
  net_retry_delay_ms :: u32
  net_listener_ok :: bool
  net_listener :: "pcb option"
  net_tcp :: "'e net_session"

definition endpoint_init :: "device \<Rightarrow> 'e \<Rightarrow> 'e endpoint" where
  "endpoint_init d e = \<lparr>net_state = NET_STATE_NO_RECORD, net_retry_at_ms = 0, net_retry_delay_ms = 3000,
     net_listener_ok = False, net_listener = None, net_tcp = net_session_init d e\<rparr>"

text \<open>
  What the code reads of the driver: interface flags, the IPv4 address as the 32-bit word lwIP keeps (the first
  octet in the lowest byte of this little-endian machine), the state of the DHCP client if it
  was started, the join bits, the interface bits and the link status.
\<close>

record cyw43 =
  cy_netif_up :: bool
  cy_ip4 :: u32
  cy_dhcp :: "u8 option"
  cy_join_state :: u32
  cy_itf_state :: u8
  cy_link :: int
  cy_initialized :: bool
  cy_scan_active :: bool

record poll_env =
  pe_connect_ok :: bool
  pe_new :: "pcb option"
  pe_bind_ok :: bool
  pe_listen :: "pcb option"

datatype radio_call = Enable_Sta_Mode | Disable_Sta_Mode | Wifi_Connect_Async bytes bytes
  | Tcp_Bind pcb u16 | Tcp_Close pcb | Tcp_Accept pcb

subsection \<open>The listener\<close>

definition net_start_listener_locked :: "poll_env \<Rightarrow> 'e endpoint \<Rightarrow> bool \<times> radio_call list \<times> 'e endpoint" where
  "net_start_listener_locked A s =
     (if net_listener s \<noteq> None then (True, [], s)
      else (case pe_new A of None \<Rightarrow> (False, [], s)
        | Some lpcb \<Rightarrow>
          if \<not> pe_bind_ok A then (False, [Tcp_Bind lpcb NET_LISTEN_PORT, Tcp_Close lpcb], s)
          else let s = s\<lparr>net_listener := pe_listen A\<rparr> in
            (case net_listener s of None \<Rightarrow> (False, [Tcp_Bind lpcb NET_LISTEN_PORT, Tcp_Close lpcb], s)
             | Some listener \<Rightarrow> (True, [Tcp_Bind lpcb NET_LISTEN_PORT, Tcp_Accept listener], s))))"

subsection \<open>Start and poll\<close>

definition radio_record :: "hardware \<Rightarrow> 'e endpoint \<Rightarrow> bool \<times> radio_config" where
  "radio_record H s = radio_provision_flash_read (hw_radio_off H) (flash (net_device (net_tcp s)))"

definition net_endpoint_start :: "hardware \<Rightarrow> 'e endpoint \<Rightarrow> bool \<times> 'e endpoint" where
  "net_endpoint_start H s =
     (if \<not> fst (radio_record H s) then (False, s\<lparr>net_state := NET_STATE_NO_RECORD\<rparr>)
      else (True, s\<lparr>net_state := NET_STATE_RETRY_WAIT, net_retry_at_ms := 0, net_retry_delay_ms := 3000\<rparr>))"

text \<open>The doubling of the delay, which the code has twice.\<close>

definition next_delay :: "u32 \<Rightarrow> u32" where
  "next_delay delay = (if delay < NET_RETRY_MAX_MS then let delay = delay * 2 in
     if delay > NET_RETRY_MAX_MS then NET_RETRY_MAX_MS else delay else delay)"

definition have_ip :: "cyw43 \<Rightarrow> bool" where
  "have_ip C \<longleftrightarrow> cy_netif_up C \<and> cy_ip4 C \<noteq> 0"

definition poll_retry_wait :: "hardware \<Rightarrow> cyw43 \<Rightarrow> poll_env \<Rightarrow> u32 \<Rightarrow> 'e endpoint \<Rightarrow> radio_call list \<times> 'e endpoint" where
  "poll_retry_wait H C A now_ms s =
     (if now_ms - net_retry_at_ms s <s 0 then ([], s)
      else if have_ip C then
        ([], s\<lparr>net_state := NET_STATE_CONNECTING, net_retry_at_ms := now_ms + NET_CONNECT_TIMEOUT_MS\<rparr>)
      else (case radio_record H s of (ok, cfg) \<Rightarrow>
        if \<not> ok then ([], s\<lparr>net_state := NET_STATE_NO_RECORD\<rparr>)
        else let calls = [Enable_Sta_Mode, Wifi_Connect_Async (c_string (ssid cfg)) (c_string (psk cfg))] in
          if \<not> pe_connect_ok A then
            (calls, s\<lparr>net_retry_at_ms := now_ms + net_retry_delay_ms s,
                      net_retry_delay_ms := next_delay (net_retry_delay_ms s)\<rparr>)
          else (calls, s\<lparr>net_retry_at_ms := now_ms + NET_CONNECT_TIMEOUT_MS, net_state := NET_STATE_CONNECTING\<rparr>)))"

text \<open>\<open>CYW43_LINK_JOIN\<close> is 1.\<close>

definition poll_connecting :: "cyw43 \<Rightarrow> poll_env \<Rightarrow> u32 \<Rightarrow> 'e endpoint \<Rightarrow> radio_call list \<times> 'e endpoint" where
  "poll_connecting C A now_ms s =
     (case (if have_ip C then case net_start_listener_locked A s of (ok, calls, s) \<Rightarrow> (calls, s\<lparr>net_listener_ok := ok\<rparr>)
            else ([], s)) of (calls, s) \<Rightarrow>
      if have_ip C \<and> net_listener_ok s then (calls, s\<lparr>net_retry_delay_ms := 3000, net_state := NET_STATE_READY\<rparr>)
      else if \<not> now_ms - net_retry_at_ms s <s 0 \<and> cy_link C < 1 then
        (calls @ [Disable_Sta_Mode, Enable_Sta_Mode],
         s\<lparr>net_state := NET_STATE_RETRY_WAIT, net_retry_at_ms := now_ms + net_retry_delay_ms s,
           net_retry_delay_ms := next_delay (net_retry_delay_ms s)\<rparr>)
      else (calls, s))"

definition poll_ready :: "cyw43 \<Rightarrow> u32 \<Rightarrow> 'e endpoint \<Rightarrow> radio_call list \<times> 'e endpoint" where
  "poll_ready C now_ms s =
     (if \<not> have_ip C then
        ([], s\<lparr>net_tcp := net_session_close (net_session_pcb (net_tcp s)) (net_tcp s),
               net_state := NET_STATE_CONNECTING, net_retry_at_ms := now_ms + NET_CONNECT_TIMEOUT_MS\<rparr>)
      else ([], s))"

definition net_endpoint_poll :: "hardware \<Rightarrow> cyw43 \<Rightarrow> poll_env \<Rightarrow> u32 \<Rightarrow> 'e endpoint \<Rightarrow> radio_call list \<times> 'e endpoint" where
  "net_endpoint_poll H C A now_ms s =
     (case net_state s of
        NET_STATE_NO_RECORD \<Rightarrow> ([], s)
      | NET_STATE_RETRY_WAIT \<Rightarrow> poll_retry_wait H C A now_ms s
      | NET_STATE_CONNECTING \<Rightarrow> poll_connecting C A now_ms s
      | NET_STATE_READY \<Rightarrow> poll_ready C now_ms s)"

subsection \<open>Diagnostics\<close>

definition net_endpoint_wifi_up :: "'e endpoint \<Rightarrow> bool" where
  "net_endpoint_wifi_up s \<longleftrightarrow> net_state s = NET_STATE_READY \<and> net_listener_ok s"

definition net_endpoint_state :: "'e endpoint \<Rightarrow> u8" where
  "net_endpoint_state s = (case net_state s of NET_STATE_NO_RECORD \<Rightarrow> 0 | NET_STATE_RETRY_WAIT \<Rightarrow> 1
     | NET_STATE_CONNECTING \<Rightarrow> 2 | NET_STATE_READY \<Rightarrow> 3)"

definition net_endpoint_link :: "cyw43 \<Rightarrow> 'e endpoint \<Rightarrow> 8 word" where
  "net_endpoint_link C s = (if net_state s = NET_STATE_NO_RECORD then 0 else word_of_int (cy_link C))"

definition net_endpoint_raw :: "cyw43 \<Rightarrow> u16" where
  "net_endpoint_raw C = ucast (cy_join_state C)"

definition net_endpoint_dhcp :: "cyw43 \<Rightarrow> u8" where
  "net_endpoint_dhcp C =
     (case cy_dhcp C of None \<Rightarrow> 0 | Some st \<Rightarrow> if \<not> cy_netif_up C then 1 else if st = 10 then 3 else st)"

definition net_endpoint_ip_octet :: "cyw43 \<Rightarrow> u8 \<Rightarrow> u8" where
  "net_endpoint_ip_octet C index = (if index > 3 then 0 else ucast (drop_bit (24 - 8 * unat index) (cy_ip4 C)))"

definition net_endpoint_probe :: "cyw43 \<Rightarrow> u8" where
  "net_endpoint_probe C =
     1 OR (if cy_netif_up C then 2 else 0) OR (if cy_dhcp C \<noteq> None then 4 else 0) OR
     (if cy_join_state C AND 1 \<noteq> 0 then 8 else 0) OR (if cy_itf_state C AND 1 \<noteq> 0 then 16 else 0) OR
     (if cy_ip4 C \<noteq> 0 then 32 else 0) OR (if cy_initialized C then 128 else 0)"

subsection \<open>The scan\<close>

record scan_state =
  net_scan_total :: u16
  net_scan_match :: u16
  net_scan_best_rssi :: "16 word"
  net_scan_ssid :: bytes

record scan_result =
  sr_ssid_len :: u8
  sr_ssid :: bytes
  sr_rssi :: "16 word"

definition net_scan_result_cb :: "scan_result \<Rightarrow> scan_state \<Rightarrow> scan_state" where
  "net_scan_result_cb r s =
     (let s = (if net_scan_total s < 0xFFFF then s\<lparr>net_scan_total := net_scan_total s + 1\<rparr> else s) in
      if sr_ssid_len r \<le> 32 \<and> unat (sr_ssid_len r) = length (c_string (net_scan_ssid s)) \<and>
         take (unat (sr_ssid_len r)) (sr_ssid r) = take (unat (sr_ssid_len r)) (net_scan_ssid s) then
        let s = (if net_scan_match s < 0xFFFF then s\<lparr>net_scan_match := net_scan_match s + 1\<rparr> else s) in
        if net_scan_best_rssi s = 0 \<or> net_scan_best_rssi s <s sr_rssi r then s\<lparr>net_scan_best_rssi := sr_rssi r\<rparr> else s
      else s)"

text \<open>\<open>strncpy\<close> of at most 32 characters, padded with zeros, and the terminator; the last argument is the answer of \<open>cyw43_wifi_scan\<close>.\<close>

definition net_endpoint_scan_start :: "hardware \<Rightarrow> cyw43 \<Rightarrow> 'e endpoint \<Rightarrow> bool \<Rightarrow> scan_state \<Rightarrow> bool \<times> scan_state" where
  "net_endpoint_scan_start H C s scan_ok t =
     (if cy_scan_active C then (False, t)
      else (case radio_record H s of (ok, cfg) \<Rightarrow>
        if \<not> ok then (False, t)
        else let name = take 32 (c_string (ssid cfg)) in
          (scan_ok, \<lparr>net_scan_total = 0, net_scan_match = 0, net_scan_best_rssi = 0,
             net_scan_ssid = name @ replicate (33 - length name) 0\<rparr>)))"

definition net_endpoint_scan_total :: "scan_state \<Rightarrow> u8" where
  "net_endpoint_scan_total t = (if net_scan_total t > 254 then 255 else ucast (net_scan_total t))"

definition net_endpoint_scan_match :: "scan_state \<Rightarrow> u8" where
  "net_endpoint_scan_match t = (if net_scan_match t > 254 then 255 else ucast (net_scan_match t))"

definition net_endpoint_scan_rssi :: "scan_state \<Rightarrow> 8 word" where
  "net_endpoint_scan_rssi t = ucast (net_scan_best_rssi t)"

text \<open>The answers the command handlers get from these.\<close>

definition net_diag_of :: "hardware \<Rightarrow> cyw43 \<Rightarrow> bool \<Rightarrow> 'e endpoint \<Rightarrow> scan_state \<Rightarrow> net_diag" where
  "net_diag_of H C scan_ok s t = \<lparr>diag_state = net_endpoint_state s, diag_link = net_endpoint_link C s,
     diag_raw = net_endpoint_raw C, diag_dhcp = net_endpoint_dhcp C, diag_ip_octet = net_endpoint_ip_octet C,
     diag_scan_start = fst (net_endpoint_scan_start H C s scan_ok t), diag_scan_total = net_endpoint_scan_total t,
     diag_scan_match = net_endpoint_scan_match t, diag_scan_rssi = net_endpoint_scan_rssi t, diag_probe = net_endpoint_probe C\<rparr>"

subsection \<open>The machine\<close>

text \<open>
  What can happen to the endpoint after power-on: the callbacks of lwIP, the poll of the main loop, and
  whatever the other transports do to the device. lwIP accepts connections only while there is a listener and delivers pbufs of at
  most 2045 bytes (\<open>PBUF_POOL_BUFSIZE\<close> is smaller).
\<close>

datatype net_event = Received pcb "bytes list option" err_t | Acked pcb | Failed | Accepted "pcb option" err_t
  | Polled cyw43 poll_env u32 | Device_Event device_op

fun lwip_allows :: "net_event \<Rightarrow> 'e endpoint \<Rightarrow> bool" where
  "lwip_allows (Received p (Some qs) err) s \<longleftrightarrow> pbuf_ok qs"
| "lwip_allows (Accepted newpcb err) s \<longleftrightarrow> net_listener s \<noteq> None"
| "lwip_allows _ s \<longleftrightarrow> True"

fun net_event_step :: "hardware \<Rightarrow> 'e lwip \<Rightarrow> net_event \<Rightarrow> 'e endpoint \<Rightarrow> radio_call list \<times> 'e endpoint" where
  "net_event_step H L (Received p q err) s = ([], s\<lparr>net_tcp := snd (net_recv_cb H L p q err (net_tcp s))\<rparr>)"
| "net_event_step H L (Acked p) s = ([], s\<lparr>net_tcp := net_sent_cb L p (net_tcp s)\<rparr>)"
| "net_event_step H L Failed s = ([], s\<lparr>net_tcp := net_err_cb (net_tcp s)\<rparr>)"
| "net_event_step H L (Accepted newpcb err) s = ([], s\<lparr>net_tcp := snd (net_accept_cb newpcb err (net_tcp s))\<rparr>)"
| "net_event_step H L (Polled C A now) s = net_endpoint_poll H C A now s"
| "net_event_step H L (Device_Event x) s =
     ([], s\<lparr>net_tcp := (net_tcp s)\<lparr>net_device := snd (device_step H x (net_device (net_tcp s)))\<rparr>\<rparr>)"

definition net_step :: "hardware \<Rightarrow> 'e lwip \<Rightarrow> net_event \<Rightarrow> 'e endpoint \<Rightarrow> radio_call list \<times> 'e endpoint" where
  "net_step H L x s = (if lwip_allows x s then net_event_step H L x s else ([], s))"

definition endpoint_ok :: "hardware \<Rightarrow> 'e endpoint \<Rightarrow> bool" where
  "endpoint_ok H s \<longleftrightarrow> aead_lengths (hw_crypto H) \<and> session_ok H (net_tcp s) \<and>
     3000 \<le> net_retry_delay_ms s \<and> net_retry_delay_ms s \<le> NET_RETRY_MAX_MS \<and>
     (net_listener s = None \<longrightarrow> net_state s \<noteq> NET_STATE_READY \<and> net_session_pcb (net_tcp s) = None)"

text \<open>A callback never opens a session except by accepting a connection.\<close>

lemma no_session_stays:
  assumes "net_session_pcb s = None"
  shows "net_session_pcb (snd (net_recv_cb H L p q err s)) = None" "net_session_pcb (net_sent_cb L p s) = None"
    "net_session_pcb (net_err_cb s) = None"
  using assms by (auto simp: net_recv_cb_def net_sent_cb_def net_err_cb_def net_reset_frame_def net_log_def split: option.split)

lemma next_delay_bounds:
  "3000 \<le> d \<Longrightarrow> d \<le> NET_RETRY_MAX_MS \<Longrightarrow> 3000 \<le> next_delay d \<and> next_delay d \<le> NET_RETRY_MAX_MS"
  and next_delay_nat: "d \<le> NET_RETRY_MAX_MS \<Longrightarrow> unat (next_delay d) = min 30000 (2 * unat d)"
proof -
  have m: "unat (d * 2) = 2 * unat d" if "unat d \<le> 30000" for d :: u32
    using that by (subst unat_mult_lem [THEN iffD1]) auto
  show n: "unat (next_delay d) = min 30000 (2 * unat d)" if "d \<le> NET_RETRY_MAX_MS" for d
    using that m [of d] by (auto simp: next_delay_def NET_RETRY_MAX_MS_def Let_def word_less_nat_alt word_le_nat_alt)
  show "3000 \<le> next_delay d \<and> next_delay d \<le> NET_RETRY_MAX_MS" if "3000 \<le> d" "d \<le> NET_RETRY_MAX_MS"
    using that n [OF that(2)] by (auto simp: word_le_nat_alt NET_RETRY_MAX_MS_def)
qed

lemma listener_cases:
  assumes "net_start_listener_locked A s = (ok, calls, t)"
  shows "t = s\<lparr>net_listener := net_listener t\<rparr>" and "ok \<longleftrightarrow> net_listener t \<noteq> None" and "net_listener s \<noteq> None \<Longrightarrow> t = s"
  using assms by (auto simp: net_start_listener_locked_def Let_def split: if_splits option.splits)

lemma delay_3000: "(3000 :: u32) \<le> NET_RETRY_MAX_MS"
  by (simp add: NET_RETRY_MAX_MS_def)

lemma poll_ok:
  assumes "endpoint_ok H s"
  shows "endpoint_ok H (snd (net_endpoint_poll H C A now s))"
proof (cases "net_state s")
  case NET_STATE_NO_RECORD
  then show ?thesis using assms by (simp add: net_endpoint_poll_def)
next
  case NET_STATE_RETRY_WAIT
  then show ?thesis using assms next_delay_bounds
    by (auto simp: net_endpoint_poll_def poll_retry_wait_def endpoint_ok_def Let_def split: prod.splits)
next
  case NET_STATE_CONNECTING
  obtain ok calls t where l: "net_start_listener_locked A s = (ok, calls, t)" by (metis surj_pair)
  note t = listener_cases [OF l]
  have "endpoint_ok H (s\<lparr>net_listener := net_listener t\<rparr>)"
    using assms t(3) by (cases "net_listener s = None") (auto simp: endpoint_ok_def NET_STATE_CONNECTING)
  then have "endpoint_ok H t" using t(1) by metis
  then show ?thesis using assms t(2) next_delay_bounds delay_3000
    by (auto simp: net_endpoint_poll_def poll_connecting_def NET_STATE_CONNECTING l endpoint_ok_def split: prod.splits)
next
  case NET_STATE_READY
  have "session_ok H (net_tcp s)" using assms by (simp add: endpoint_ok_def)
  then have "session_ok H (net_session_close (net_session_pcb (net_tcp s)) (net_tcp s))"
  proof (cases "net_session_pcb (net_tcp s)")
    case None
    then show ?thesis using \<open>session_ok H (net_tcp s)\<close> by (simp add: net_session_close_def)
  next
    case (Some p)
    have "tx_ok H (net_tcp s)" using \<open>session_ok H (net_tcp s)\<close> by (simp add: session_ok_def)
    then show ?thesis unfolding Some by (rule close_ok)
  qed
  then show ?thesis using assms
    by (auto simp: net_endpoint_poll_def poll_ready_def NET_STATE_READY endpoint_ok_def)
qed

lemma net_step_ok:
  assumes "endpoint_ok H s"
  shows "endpoint_ok H (snd (net_step H L x s))"
proof (cases "lwip_allows x s")
  case True
  have a: "aead_lengths (hw_crypto H)" and s: "session_ok H (net_tcp s)" using assms by (simp_all add: endpoint_ok_def)
  note n = no_session_stays [of "net_tcp s"]
  show ?thesis
  proof (cases x)
    case (Received p q err)
    have "session_ok H (snd (net_recv_cb H L p q err (net_tcp s)))"
      by (rule recv_ok [OF a s]) (use True Received in auto)
    then show ?thesis using assms n True Received by (auto simp: net_step_def endpoint_ok_def)
  next
    case (Acked p)
    then show ?thesis using assms n sent_session_ok [OF s] by (auto simp: net_step_def endpoint_ok_def)
  next
    case Failed
    then show ?thesis using assms n err_ok [OF s] by (auto simp: net_step_def endpoint_ok_def)
  next
    case (Accepted newpcb err)
    then show ?thesis using assms True accept_ok [OF s] by (auto simp: net_step_def endpoint_ok_def)
  next
    case (Polled C A now)
    then show ?thesis using poll_ok [OF assms] by (simp add: net_step_def)
  next
    case (Device_Event y)
    have "device_inv H (net_device (net_tcp s))" using s by (simp add: session_ok_def tx_ok_def)
    then have "session_ok H ((net_tcp s)\<lparr>net_device := snd (device_step H y (net_device (net_tcp s)))\<rparr>)"
      using s device_inv_step by (auto simp: session_ok_def tx_ok_def rx_holds_def)
    then show ?thesis using assms Device_Event by (simp add: net_step_def endpoint_ok_def)
  qed
qed (use assms in \<open>simp add: net_step_def\<close>)

interpretation network: guarded_machine "net_step H L" "endpoint_ok H" for H and L :: "'e lwip"
  by unfold_locales (rule net_step_ok)

text \<open>The endpoint after power-on.\<close>

definition endpoint_start :: "hardware \<Rightarrow> device \<Rightarrow> 'e \<Rightarrow> 'e endpoint" where
  "endpoint_start H d e = snd (net_endpoint_start H (endpoint_init d e))"

lemma start_ok: "aead_lengths (hw_crypto H) \<Longrightarrow> device_inv H d \<Longrightarrow> endpoint_ok H (endpoint_start H d e)"
  using init_ok [of H d e] delay_3000
  by (simp add: endpoint_start_def net_endpoint_start_def endpoint_init_def endpoint_ok_def) (simp add: net_session_init_def)

subsection \<open>The radio\<close>

definition provisioned :: "hardware \<Rightarrow> 'e endpoint \<Rightarrow> (bytes \<times> bytes) option" where
  "provisioned H s = stored_credentials (read_sector (flash (net_device (net_tcp s))) (hw_radio_off H))"

lemma record_provisioned:
  "radio_record H s = (ok, cfg) \<Longrightarrow> provisioned H s = (if ok then Some (c_string (ssid cfg), c_string (psk cfg)) else None)"
  by (simp add: provisioned_def radio_record_def stored_credentials_def radio_provision_flash_read_def read_sector_def
      FLASH_SECTOR_SIZE_def RADIO_SECTOR_SIZE_def)

lemma connect_calls:
  assumes "Wifi_Connect_Async name pass \<in> set (fst (net_step H L x s))"
  shows "provisioned H s = Some (name, pass)" and "net_state s = NET_STATE_RETRY_WAIT"
proof -
  obtain C A now where x: "x = Polled C A now" using assms by (cases x) (auto simp: net_step_def split: if_splits)
  obtain ok calls t where l: "net_start_listener_locked A s = (ok, calls, t)" by (metis surj_pair)
  then have "Wifi_Connect_Async name pass \<notin> set calls"
    by (auto simp: net_start_listener_locked_def Let_def split: if_splits option.splits)
  then have "net_state s = NET_STATE_RETRY_WAIT \<and> Wifi_Connect_Async name pass \<in> set (fst (poll_retry_wait H C A now s))"
    using assms x l by (auto simp: net_step_def net_endpoint_poll_def poll_connecting_def poll_ready_def
      split: net_state_t.splits if_splits prod.splits)
  then show "provisioned H s = Some (name, pass)" "net_state s = NET_STATE_RETRY_WAIT"
    using record_provisioned [of H s] by (auto simp: poll_retry_wait_def Let_def split: if_splits prod.splits)
qed

definition dormant :: "'e endpoint \<Rightarrow> bool" where
  "dormant s \<longleftrightarrow> net_state s = NET_STATE_NO_RECORD \<and> net_listener s = None \<and> net_session_pcb (net_tcp s) = None \<and>
     (\<forall>p. written p (net_calls (net_tcp s)) = [])"

lemma dormant_step: "dormant s \<Longrightarrow> fst (net_step H L x s) = [] \<and> dormant (snd (net_step H L x s))"
  by (cases x)
    (auto simp: net_step_def dormant_def net_endpoint_poll_def net_recv_cb_def net_sent_cb_def net_err_cb_def
      net_reset_frame_def net_log_def split: option.split)

lemma dormant_run: "dormant s \<Longrightarrow> concat (fst (run_ops (net_step H L) xs s)) = [] \<and> dormant (snd (run_ops (net_step H L) xs s))"
proof (induction xs arbitrary: s)
  case (Cons x xs)
  note d = dormant_step [OF Cons.prems, of H L x]
  then show ?case using Cons.IH [of "snd (net_step H L x s)"] by simp
qed simp

text \<open>Attempts to associate that fail back off: 3, 6, 12, 24, 30, 30 seconds and so on.\<close>

fun failing_polls :: "hardware \<Rightarrow> cyw43 \<Rightarrow> poll_env \<Rightarrow> nat \<Rightarrow> 'e endpoint \<Rightarrow> 'e endpoint" where
  "failing_polls H C A 0 s = s"
| "failing_polls H C A (Suc n) s = failing_polls H C A n (snd (net_endpoint_poll H C A (net_retry_at_ms s) s))"

lemma failing_polls_back_off:
  assumes "net_state s = NET_STATE_RETRY_WAIT" and "\<not> have_ip C" and "\<not> pe_connect_ok A" and "provisioned H s \<noteq> None"
    and "net_retry_delay_ms s \<le> NET_RETRY_MAX_MS"
  shows "net_state (failing_polls H C A n s) = NET_STATE_RETRY_WAIT \<and>
    unat (net_retry_delay_ms (failing_polls H C A n s)) = min 30000 (2 ^ n * unat (net_retry_delay_ms s))"
  using assms
proof (induction n arbitrary: s)
  case 0
  then show ?case by (simp add: word_le_nat_alt NET_RETRY_MAX_MS_def)
next
  case (Suc n)
  obtain ok cfg where r: "radio_record H s = (ok, cfg)" by fastforce
  then have ok: "ok" using record_provisioned [OF r] Suc.prems(4) by (simp split: if_splits)
  let ?t = "s\<lparr>net_retry_at_ms := net_retry_at_ms s + net_retry_delay_ms s, net_retry_delay_ms := next_delay (net_retry_delay_ms s)\<rparr>"
  have p: "snd (net_endpoint_poll H C A (net_retry_at_ms s) s) = ?t"
    using Suc.prems ok by (simp add: net_endpoint_poll_def poll_retry_wait_def r Let_def signed_negative)
  have n: "unat (next_delay (net_retry_delay_ms s)) = min 30000 (2 * unat (net_retry_delay_ms s))"
    by (rule next_delay_nat [OF Suc.prems(5)])
  then have "net_retry_delay_ms ?t \<le> NET_RETRY_MAX_MS" by (simp add: word_le_nat_alt NET_RETRY_MAX_MS_def)
  moreover have "provisioned H ?t = provisioned H s" by (simp add: provisioned_def)
  moreover have "min 30000 (2 ^ n * min 30000 (2 * k)) = min 30000 (2 ^ n * (2 * k))" for k :: nat
  proof (cases "2 * k \<le> 30000")
    case False
    then have "30000 \<le> 2 ^ n * (2 * k)" using mult_le_mono [of 1 "2 ^ n" 30000 "2 * k"] by simp
    then show ?thesis using False by (simp add: min_def)
  qed (simp add: min_def)
  ultimately show ?case using Suc.IH [of ?t] Suc.prems p n by (simp add: mult.assoc mult.left_commute)
qed

subsection \<open>Diagnostics\<close>

text \<open>
  lwIP keeps the address \<open>a.b.c.d\<close> in network byte order, so that \<open>a\<close> is in the lowest byte of the word;
  shifting by \<open>24 - 8 * index\<close> starts at the other end.
\<close>

lemma ip_octets_are_reversed:
  assumes "cy_ip4 C = le32_at [a, b, c, d] 0"
  shows "map (net_endpoint_ip_octet C) [0, 1, 2, 3] = [d, c, b, a]"
proof -
  have "\<not> (1 :: u8) > 3" "\<not> (2 :: u8) > 3" "\<not> (3 :: u8) > 3" "\<not> (0 :: u8) > 3" by simp_all
  moreover have "ucast (drop_bit 24 (le32_at [a, b, c, d] 0)) = d" "ucast (drop_bit 16 (le32_at [a, b, c, d] 0)) = c"
    "ucast (drop_bit 8 (le32_at [a, b, c, d] 0)) = b" "ucast (le32_at [a, b, c, d] 0) = a"
    by (rule bit_word_eqI; auto simp: le32_at_def bit_or_iff bit_push_bit_iff bit_ucast_iff bit_drop_bit_eq dest: bit_imp_le_length)+
  ultimately show ?thesis by (simp add: net_endpoint_ip_octet_def assms)
qed

text \<open>The scan counts every result once and stops at 65535; the best signal is one that was reported for the name.\<close>

lemma scan_total: "unat (net_scan_total (fold net_scan_result_cb rs t)) = min 65535 (unat (net_scan_total t) + length rs)"
proof (induction rs arbitrary: t)
  case Nil
  then show ?case using u16_lt [of "net_scan_total t"] by simp
next
  case (Cons r rs)
  have "unat (net_scan_total t + 1) = Suc (unat (net_scan_total t))" if "net_scan_total t < 0xFFFF"
    using that by (subst unat_plus_if') (auto simp: word_less_nat_alt)
  then have "unat (net_scan_total (net_scan_result_cb r t)) = min 65535 (Suc (unat (net_scan_total t)))"
    using u16_lt [of "net_scan_total t"] by (auto simp: net_scan_result_cb_def Let_def word_less_nat_alt min_def)
  then show ?case using Cons.IH [of "net_scan_result_cb r t"] by (simp add: min_def)
qed

subsection \<open>Properties\<close>

text \<open>The endpoint stays well formed. From power-on, whatever connections, bytes, acknowledgements, errors, polls,
  commands over other transports and answers of lwIP and of the driver come in any order, no array is
  written outside its bounds, the receive buffer holds part of one frame of at most 2044 bytes, the queue holds at
  most one response, the retry delay is between 3 and 30 seconds, and there is a session only behind a listener.\<close>

lemma endpoint_stays_well_formed:
  assumes "aead_lengths (hw_crypto H)" and "powered_on H d" and "s = snd (run_ops (net_step H L) xs (endpoint_start H d e))"
  shows "\<not> net_oob (net_tcp s) \<and> length (net_rx (net_tcp s)) = 2048 \<and>
    partial (take (unat (net_rx_len (net_tcp s))) (net_rx (net_tcp s))) \<and> unat (net_rx_len (net_tcp s)) < 2048 \<and>
    length (net_pending_tx (net_tcp s)) = 58 \<and> unat (net_pending_tx_len (net_tcp s)) \<le> 58 \<and>
    device_ok H (net_device (net_tcp s)) \<and> 3000 \<le> net_retry_delay_ms s \<and> net_retry_delay_ms s \<le> NET_RETRY_MAX_MS \<and>
    (net_listener s = None \<longrightarrow> net_state s \<noteq> NET_STATE_READY \<and> net_session_pcb (net_tcp s) = None)"
proof -
  have "device_inv H d" using powered_on_ok [OF assms(2)] by (simp add: device_inv_def)
  then have "endpoint_ok H s" unfolding assms(3) by (intro network.run_keeps start_ok [OF assms(1)])
  moreover from this obtain u where "partial u" "rx_holds u (net_tcp s)" by (auto simp: endpoint_ok_def session_ok_def)
  ultimately show ?thesis using partial_length [of u]
    by (auto simp: endpoint_ok_def session_ok_def tx_ok_def rx_holds_def device_inv_def)
qed


subsection \<open>A concrete endpoint\<close>

definition demo_down :: cyw43 where
  "demo_down = \<lparr>cy_netif_up = False, cy_ip4 = 0, cy_dhcp = None, cy_join_state = 0, cy_itf_state = 0, cy_link = 0,
     cy_initialized = True, cy_scan_active = False\<rparr>"

definition demo_answers :: poll_env where
  "demo_answers = \<lparr>pe_connect_ok = True, pe_new = Some 1, pe_bind_ok = True, pe_listen = Some 2\<rparr>"

definition demo_provisioned :: device where
  "demo_provisioned = demo_unit\<lparr>flash := \<lambda>a. if a < 4096 then credentials_image demo_credentials ! a else 255\<rparr>"

lemma demo_image_length: "length (credentials_image demo_credentials) = 4096"
proof -
  obtain name pass where w: "demo_credentials = (name, pass)" by fastforce
  have "credentials_ok (name, pass)" using demo_credentials_ok w by simp
  then have t: "24 + length name + length pass \<le> 4096" by (simp add: credentials_ok_def)
  show ?thesis using image_parts(1) [OF refl refl t] by (simp add: w)
qed

lemma demo_provisioned_record: "provisioned demo_hw (endpoint_init demo_provisioned ()) = Some demo_credentials"
proof -
  have "map (\<lambda>a. if a < 4096 then credentials_image demo_credentials ! a else 255) [0..<4096] = credentials_image demo_credentials"
    by (rule nth_equalityI) (simp_all add: demo_image_length)
  then have "read_sector (flash demo_provisioned) 0 = credentials_image demo_credentials"
    by (simp add: read_sector_def FLASH_SECTOR_SIZE_def demo_provisioned_def)
  then show ?thesis using stored_image [OF demo_credentials_ok, of "[]"]
    by (simp add: provisioned_def endpoint_init_def net_session_init_def demo_hw_def)
qed


end
