(* ===== verification/Main_Loop.thy ===== *)
theory Main_Loop
  imports Ble_Transport Usb_Descriptors Net_Endpoint
begin

section \<open>The firmware: start and main loop (firmware/bridge_main.c)\<close>

text \<open>
  The composition of the components. The C files share global variables: the record \<open>firmware\<close> holds the
  device once, and a component that is called gets the current device put into its own state and gives it
  back. One pass of the loop takes what the surroundings do in it: the callbacks that the poll of the async context
  delivers, and the answers of the Wi-Fi driver; the USB port is the parameter \<open>U\<close>, lwIP the parameter \<open>L\<close>. The
  result \<open>None\<close> is a pass that never ends.
\<close>

record ('e, 'u) firmware =
  fw_device :: device
  fw_hid :: hid_state
  fw_link :: ble_link
  fw_adv :: advertiser
  fw_net :: "'e endpoint"
  fw_port :: 'u
  fw_identity :: usb_identity
  fw_radio :: bool
  fw_last_drain :: u32
  fw_last_led :: u32
  fw_led_on :: bool

definition hid_of :: "('e, 'u) firmware \<Rightarrow> hid_state" where
  "hid_of w = (fw_hid w)\<lparr>hid_core := core (fw_device w)\<rparr>"

definition put_hid :: "hid_state \<Rightarrow> ('e, 'u) firmware \<Rightarrow> ('e, 'u) firmware" where
  "put_hid h w = w\<lparr>fw_hid := h, fw_device := (fw_device w)\<lparr>core := hid_core h\<rparr>\<rparr>"

definition link_of :: "('e, 'u) firmware \<Rightarrow> ble_link" where
  "link_of w = (fw_link w)\<lparr>link_device := fw_device w\<rparr>"

definition put_link :: "ble_link \<Rightarrow> ('e, 'u) firmware \<Rightarrow> ('e, 'u) firmware" where
  "put_link b w = w\<lparr>fw_link := b, fw_device := link_device b\<rparr>"

definition net_of :: "('e, 'u) firmware \<Rightarrow> 'e endpoint" where
  "net_of w = (fw_net w)\<lparr>net_tcp := (net_tcp (fw_net w))\<lparr>net_device := fw_device w\<rparr>\<rparr>"

definition put_net :: "'e endpoint \<Rightarrow> ('e, 'u) firmware \<Rightarrow> ('e, 'u) firmware" where
  "put_net s w = w\<lparr>fw_net := s, fw_device := net_device (net_tcp s)\<rparr>"

subsection \<open>The start\<close>

text \<open>The calls of BTstack, with the arguments the code chooses.\<close>

datatype att_property = Att_Write_Without_Response | Att_Read | Att_Dynamic

datatype btstack_call =
    Btstack_Cyw43_Init | L2cap_Init | Sm_Init | Att_Db_Util_Init
  | Att_Add_Service bytes
  | Att_Add_Characteristic bytes "att_property list" nat
  | Att_Server_Init
  | Gatt_Client_Init
  | Gap_Advertisements_Set_Data bytes
  | Gap_Advertisements_Set_Params u16 u16 u8 u8 bytes u8 u8
  | Gap_Advertisements_Enable bool
  | Hci_Add_Event_Handler
  | Hci_Power_On

definition cmd_service_uuid128 :: bytes where
  "cmd_service_uuid128 = [0x6e, 0x40, 0x00, 0x01, 0xb9, 0xa9, 0x81, 0x32, 0x8f, 0x32, 0x0a, 0x9e, 0x1b, 0x8c, 0x7d, 0x4e]"

definition cmd_char_uuid128 :: bytes where
  "cmd_char_uuid128 = [0x6e, 0x40, 0x00, 0x02, 0xb9, 0xa9, 0x81, 0x32, 0x8f, 0x32, 0x0a, 0x9e, 0x1b, 0x8c, 0x7d, 0x4e]"

definition ble_name :: bytes where
  "ble_name = map of_char ''PicoBridge''"

definition ble_setup :: "hardware \<Rightarrow> build_keys \<Rightarrow> bool \<Rightarrow> noise_ctx \<Rightarrow> btstack_call list \<times> noise_ctx" where
  "ble_setup H K radio n =
     (if \<not> radio then ([], n)
      else (case noise_ik_init (hw_crypto H) (device_private K) True n of (ok, n) \<Rightarrow>
        if \<not> ok then ([Btstack_Cyw43_Init], n)
        else ([Btstack_Cyw43_Init, L2cap_Init, Sm_Init, Att_Db_Util_Init,
          Att_Add_Service cmd_service_uuid128,
          Att_Add_Characteristic cmd_char_uuid128 [Att_Write_Without_Response, Att_Read, Att_Dynamic] BLE_CMD_BUF_MAX,
          Att_Server_Init, Gatt_Client_Init,
          Gap_Advertisements_Set_Data (adv_data ble_name),
          Gap_Advertisements_Set_Params 0x0040 0x0040 0 0 (replicate 6 0) 7 0,
          Gap_Advertisements_Enable True, Hci_Add_Event_Handler, Hci_Power_On], n)))"

text \<open>\<open>main\<close> up to its loop, for both images: \<open>network\<close> is \<open>BRIDGE_ENABLE_NET\<close>. \<open>None\<close> is \<open>return 1\<close>.\<close>

definition firmware_start ::
  "hardware \<Rightarrow> build_keys \<Rightarrow> boot_env \<Rightarrow> bool \<Rightarrow> bytes \<Rightarrow> flash_mem \<Rightarrow> 'e \<Rightarrow> 'u \<Rightarrow> (btstack_call list \<times> ('e, 'u) firmware) option" where
  "firmware_start H K B network serial m e u =
     (case device_boot H K B m of None \<Rightarrow> None
      | Some d \<Rightarrow>
        Some (fst (ble_setup H K (cyw43_ok B) zero_ctx),
          \<lparr>fw_device = d,
           fw_hid = \<lparr>hid_leds = 0, hid_idle_dirty = True, exec_since_ms = 0, usb_now_ms = 0, hid_core = core d\<rparr>,
           fw_link = \<lparr>link_device = d, link_rx = ble_rx_init, cmd_char_read_data = replicate BLE_CMD_BUF_MAX 0,
             cmd_char_read_len = 0, cmd_char_read_valid = False\<rparr>,
           fw_adv = \<lparr>readvertise_needed = False, readvertise_disable_ms = 0\<rparr>,
           fw_net = (if cyw43_ok B \<and> network then endpoint_start H d e else endpoint_init d e),
           fw_port = u,
           fw_identity = bridge_usb_set_identity (Some serial) (cyw43_ok B) usb_identity_init,
           fw_radio = cyw43_ok B, fw_last_drain = 0, fw_last_led = 0, fw_led_on = False\<rparr>))"

lemma boot_session: "device_boot H K B m = Some d \<Longrightarrow> session d = snd (ble_setup H K (cyw43_ok B) zero_ctx)"
  by (auto simp: device_boot_def ble_setup_def split: prod.splits if_splits)

subsection \<open>One pass of the loop\<close>

text \<open>What the poll of the async context delivers: BLE writes and reads, HCI events, callbacks of lwIP.\<close>

datatype async_event =
    Ble_Write call_env bytes
  | Ble_Read bool nat "nat option"
  | Hci_Event u16 u16
  | Lwip net_event

fun lwip_callback :: "net_event \<Rightarrow> bool" where
  "lwip_callback (Polled C A now) \<longleftrightarrow> False"
| "lwip_callback (Device_Event x) \<longleftrightarrow> False"
| "lwip_callback _ \<longleftrightarrow> True"

datatype fw_output =
    Report hid_report
  | Read_Answer nat bytes
  | Radio radio_call
  | Advertise bool
  | Led bool
  | Watchdog_Update

fun async_step :: "hardware \<Rightarrow> 'e lwip \<Rightarrow> async_event \<Rightarrow> ('e, 'u) firmware \<Rightarrow> fw_output list \<times> ('e, 'u) firmware" where
  "async_step H L (Ble_Write E buffer) w = ([], put_link (cmd_write_callback H E buffer (link_of w)) w)"
| "async_step H L (Ble_Read cmd offset cap) w =
     (case read_callback cmd offset cap (link_of w) of (n, data) \<Rightarrow> ([Read_Answer n data], w))"
| "async_step H L (Hci_Event disconnection_complete event) w =
     ([], w\<lparr>fw_adv := ble_event_handler disconnection_complete event (fw_adv w)\<rparr>)"
| "async_step H L (Lwip x) w =
     (if lwip_callback x then (case net_step H L x (net_of w) of (calls, s) \<Rightarrow> (map Radio calls, put_net s w)) else ([], w))"

record pass_input =
  pi_async :: "async_event list"
  pi_cyw43 :: cyw43
  pi_poll :: poll_env

definition usb_task :: "'u usb_port \<Rightarrow> ('e, 'u) firmware \<Rightarrow> ('e, 'u) firmware" where
  "usb_task U w =
     (case port_task U (fw_port w) of (events, u) \<Rightarrow> put_hid (fold usb_event_step events (hid_of w)) (w\<lparr>fw_port := u\<rparr>))"

definition read_clock :: "'u usb_port \<Rightarrow> ('e, 'u) firmware \<Rightarrow> ('e, 'u) firmware" where
  "read_clock U w =
     (case port_clock U (fw_port w) of (now, u) \<Rightarrow>
        w\<lparr>fw_port := u, fw_hid := (fw_hid w)\<lparr>usb_now_ms := now\<rparr>, fw_device := (fw_device w)\<lparr>ble_now_ms := now\<rparr>\<rparr>)"

definition loop_drain :: "'u usb_port \<Rightarrow> ('e, 'u) firmware \<Rightarrow> (fw_output list \<times> ('e, 'u) firmware) option" where
  "loop_drain U w =
     (if usb_now_ms (fw_hid w) - fw_last_drain w \<ge> 5 then
        (case usb_hid_drain U (hid_of w, fw_port w) of None \<Rightarrow> None
         | Some (tr, h, u) \<Rightarrow> Some (map Report tr, put_hid h (w\<lparr>fw_port := u, fw_last_drain := usb_now_ms h\<rparr>)))
      else Some ([], w))"

definition loop_tick :: "('e, 'u) firmware \<Rightarrow> ('e, 'u) firmware" where
  "loop_tick w = w\<lparr>fw_device := (fw_device w)\<lparr>core := snd (bridge_core_tick (core (fw_device w)) (usb_now_ms (fw_hid w)))\<rparr>\<rparr>"

definition loop_radio ::
  "hardware \<Rightarrow> 'e lwip \<Rightarrow> bool \<Rightarrow> pass_input \<Rightarrow> ('e, 'u) firmware \<Rightarrow> fw_output list \<times> ('e, 'u) firmware" where
  "loop_radio H L network i w =
     (if \<not> fw_radio w then ([], w)
      else (case run_ops (async_step H L) (pi_async i) w of (outs, w) \<Rightarrow>
        case ble_readvertise_poll (usb_now_ms (fw_hid w)) (fw_adv w) of (ads, adv) \<Rightarrow>
        let w = w\<lparr>fw_adv := adv\<rparr> in
        case (if network then net_endpoint_poll H (pi_cyw43 i) (pi_poll i) (usb_now_ms (fw_hid w)) (net_of w)
              else ([], net_of w)) of (calls, s) \<Rightarrow>
          (concat outs @ map Advertise ads @ map Radio calls, put_net s w)))"

definition loop_led :: "('e, 'u) firmware \<Rightarrow> fw_output list \<times> ('e, 'u) firmware" where
  "loop_led w =
     (if fw_radio w \<and> usb_now_ms (fw_hid w) - fw_last_led w \<ge> 500
      then ([Led (\<not> fw_led_on w)], w\<lparr>fw_led_on := \<not> fw_led_on w, fw_last_led := usb_now_ms (fw_hid w)\<rparr>)
      else ([], w))"

definition main_pass ::
  "hardware \<Rightarrow> 'e lwip \<Rightarrow> 'u usb_port \<Rightarrow> bool \<Rightarrow> pass_input \<Rightarrow> ('e, 'u) firmware \<Rightarrow> (fw_output list \<times> ('e, 'u) firmware) option" where
  "main_pass H L U network i w =
     Option.bind (loop_drain U (read_clock U (usb_task U w))) (\<lambda>(reports, w).
       case loop_radio H L network i (loop_tick w) of (outs, w) \<Rightarrow>
       case loop_led w of (lights, w) \<Rightarrow> Some (reports @ outs @ lights @ [Watchdog_Update], w))"

fun main_loop ::
  "hardware \<Rightarrow> 'e lwip \<Rightarrow> 'u usb_port \<Rightarrow> bool \<Rightarrow> pass_input list \<Rightarrow> ('e, 'u) firmware \<Rightarrow> (fw_output list \<times> ('e, 'u) firmware) option" where
  "main_loop H L U network [] w = Some ([], w)"
| "main_loop H L U network (i # is) w =
     Option.bind (main_pass H L U network i w) (\<lambda>(outs, w).
       Option.bind (main_loop H L U network is w) (\<lambda>(rest, w). Some (outs @ rest, w)))"

subsection \<open>Every step is one of the device machine\<close>

text \<open>
  The device went from one state to another by operations of the device machine, and every key report is a stroke that
  one of its \<open>Type_Next\<close> operations handed out.
\<close>

definition handed_out :: "hardware \<Rightarrow> device \<Rightarrow> device_op list \<Rightarrow> bridge_stroke \<Rightarrow> bool" where
  "handed_out H d xs k \<longleftrightarrow> (\<exists>ys now zs. xs = ys @ Type_Next now # zs \<and>
     fst (device_step H (Type_Next now) (after_ops H ys d)) = Core_Result (BRIDGE_OK, k))"

definition device_types :: "hardware \<Rightarrow> device \<Rightarrow> hid_report list \<Rightarrow> device \<Rightarrow> bool" where
  "device_types H d tr d' \<longleftrightarrow> (\<exists>xs. d' = after_ops H xs d \<and>
     (\<forall>m u. Press m u \<in> set tr \<longrightarrow> (\<exists>k. handed_out H d xs k \<and> m = modifier k \<and> u = usage k)))"

lemma handed_out_append:
  "handed_out H d xs k \<Longrightarrow> handed_out H d (xs @ ys) k"
  "handed_out H (after_ops H xs d) ys k \<Longrightarrow> handed_out H d (xs @ ys) k"
proof -
  assume "handed_out H d xs k"
  then obtain vs now zs where "xs = vs @ Type_Next now # zs"
    "fst (device_step H (Type_Next now) (after_ops H vs d)) = Core_Result (BRIDGE_OK, k)" unfolding handed_out_def by blast
  then show "handed_out H d (xs @ ys) k" unfolding handed_out_def
    by (intro exI [of _ vs] exI [of _ now] exI [of _ "zs @ ys"]) simp
next
  assume "handed_out H (after_ops H xs d) ys k"
  then obtain vs now zs where "ys = vs @ Type_Next now # zs"
    "fst (device_step H (Type_Next now) (after_ops H vs (after_ops H xs d))) = Core_Result (BRIDGE_OK, k)"
    unfolding handed_out_def by blast
  then show "handed_out H d (xs @ ys) k" unfolding handed_out_def
    by (intro exI [of _ "xs @ vs"] exI [of _ now] exI [of _ zs]) (simp add: run_ops_append del: device_step.simps)
qed

lemma types_refl: "device_types H d [] d"
  by (auto simp: device_types_def intro: exI [of _ "[]"])

lemma types_trans:
  assumes "device_types H d tr d'" and "device_types H d' tr' d''"
  shows "device_types H d (tr @ tr') d''"
proof -
  obtain xs where xs: "d' = after_ops H xs d"
    "\<forall>m u. Press m u \<in> set tr \<longrightarrow> (\<exists>k. handed_out H d xs k \<and> m = modifier k \<and> u = usage k)"
    using assms(1) unfolding device_types_def by blast
  obtain ys where ys: "d'' = after_ops H ys d'"
    "\<forall>m u. Press m u \<in> set tr' \<longrightarrow> (\<exists>k. handed_out H d' ys k \<and> m = modifier k \<and> u = usage k)"
    using assms(2) unfolding device_types_def by blast
  have "d'' = after_ops H (xs @ ys) d" unfolding ys(1) xs(1) by (simp add: run_ops_append del: device_step.simps)
  moreover have "\<exists>k. handed_out H d (xs @ ys) k \<and> m = modifier k \<and> u = usage k" if "Press m u \<in> set (tr @ tr')" for m u
    using that xs(2) ys(2) handed_out_append [where H = H and d = d and xs = xs and ys = ys] xs(1) by fastforce
  ultimately show ?thesis unfolding device_types_def by blast
qed

lemma types_silent: "device_types H d [] d' \<Longrightarrow> device_types H d' tr d'' \<Longrightarrow> device_types H d tr d''"
  using types_trans [of H d "[]"] by simp

lemma types_step: "device_types H d [] (snd (device_step H x d))"
  by (auto simp: device_types_def intro!: exI [of _ "[x]"])

text \<open>The same for a component that owns only the core.\<close>

definition core_types :: "hardware \<Rightarrow> bridge_core \<Rightarrow> hid_report list \<Rightarrow> bridge_core \<Rightarrow> bool" where
  "core_types H c tr c' \<longleftrightarrow> (\<forall>d. device_types H (d\<lparr>core := c\<rparr>) tr (d\<lparr>core := c'\<rparr>))"

lemma core_types_refl: "core_types H c [] c"
  by (simp add: core_types_def types_refl)

lemma core_types_trans: "core_types H c tr c' \<Longrightarrow> core_types H c' tr' c'' \<Longrightarrow> core_types H c (tr @ tr') c''"
  using types_trans unfolding core_types_def by blast

lemma core_types_abort: "core_types H c [] (bridge_core_abort c)"
  using types_step [of H "d\<lparr>core := c\<rparr>" Host_Abort for d] by (simp add: core_types_def)

lemma core_types_next:
  assumes "bridge_core_next c now = (st, c', k)" and "\<forall>m u. Press m u \<in> set tr \<longrightarrow> st = BRIDGE_OK \<and> m = modifier k \<and> u = usage k"
  shows "core_types H c tr c'"
  unfolding core_types_def device_types_def
proof (intro allI exI conjI impI)
  fix d
  show "d\<lparr>core := c'\<rparr> = after_ops H [Type_Next now] (d\<lparr>core := c\<rparr>)" using assms(1) by simp
  fix m u assume "Press m u \<in> set tr"
  then have "st = BRIDGE_OK" "m = modifier k" "u = usage k" using assms(2) by simp_all
  then show "handed_out H (d\<lparr>core := c\<rparr>) [Type_Next now] k" "m = modifier k" "u = usage k"
    using assms(1) by (auto simp: handed_out_def intro!: exI [of _ "[]"])
qed

lemma core_types_kept: "c' = c \<or> c' = bridge_core_abort c \<Longrightarrow> core_types H c [] c'"
  using core_types_refl core_types_abort by blast

lemma drain_round_core_types:
  assumes "drain_round U (s, e) = Some (tr, go, t, f)"
  shows "core_types H (hid_core s) tr (hid_core t)"
proof -
  obtain st c k where n: "bridge_core_next (hid_core s) (usb_now_ms s) = (st, c, k)" by (metis prod_cases3)
  let ?s = "s\<lparr>hid_core := c\<rparr>" and ?press = "Press (modifier k) (usage k)"
  obtain ok e1 where r: "port_report U (modifier k) [usage k, 0, 0, 0, 0, 0] e = (ok, e1)" by fastforce
  show ?thesis
  proof (cases "st = BRIDGE_OK \<and> usage k \<noteq> 0 \<and> ok")
    case False
    then have "tr = []" "t = ?s" using assms n r by (auto simp: drain_round_def Let_def split: if_splits)
    then show ?thesis using core_types_next [OF n] by simp
  next
    case True
    then obtain s2 e2 where w: "wait_ready U (usb_now_ms s + 100) (?s, e1) = Some (s2, e2)"
      using assms n r by (auto simp: drain_round_def Let_def bind_eq_Some_conv)
    have "t = s2" "set tr \<subseteq> {?press, Release}"
      using assms n True r w by (auto simp: drain_round_def Let_def split: if_splits prod.splits)
    moreover have "core_types H c [] (hid_core s2)"
      using wait_ready_keeps [OF w] by (intro core_types_kept) (simp add: same_or_aborted_def)
    moreover have "core_types H (hid_core s) tr c"
      by (rule core_types_next [OF n]) (use True \<open>set tr \<subseteq> {?press, Release}\<close> in auto)
    ultimately show ?thesis using core_types_trans [of H "hid_core s" tr c "[]"] by simp
  qed
qed

definition loop_types :: "hardware \<Rightarrow> hid_report list \<Rightarrow> hid_state \<Rightarrow> hid_report list \<Rightarrow> hid_state \<Rightarrow> bool" where
  "loop_types H trace s trace' t \<longleftrightarrow> (\<exists>tr. trace' = trace @ tr \<and> core_types H (hid_core s) tr (hid_core t))"

lemma drain_loop_core_types:
  assumes "drain_loop U trace p = Some r"
  shows "loop_types H trace (fst p) (fst r) (fst (snd r))"
proof (rule drain_loop.raw_induct [where P = "\<lambda>U trace p r. loop_types H trace (fst p) (fst r) (fst (snd r))", OF _ assms])
  fix loop and U :: "'a usb_port" and trace p r
  assume IH: "\<And>U trace p r. loop U trace p = Some r \<Longrightarrow> loop_types H trace (fst p) (fst r) (fst (snd r))"
    and step: "(if \<not> port_ready U (snd p) then Some (trace, p) else Option.bind (drain_round U p)
      (\<lambda>r. if fst (snd r) then loop U (trace @ fst r) (snd (snd r)) else Some (trace @ fst r, snd (snd r)))) = Some r"
  obtain s e where p: "p = (s, e)" by fastforce
  show "loop_types H trace (fst p) (fst r) (fst (snd r))"
  proof (cases "port_ready U e")
    case False
    then show ?thesis using step core_types_refl by (auto simp: p loop_types_def)
  next
    case True
    then obtain x where x: "drain_round U (s, e) = Some x"
      "(if fst (snd x) then loop U (trace @ fst x) (snd (snd x)) else Some (trace @ fst x, snd (snd x))) = Some r"
      using step unfolding p snd_conv by (auto simp only: not_True_eq_False if_False bind_eq_Some_conv)
    obtain tr go t f where xp: "x = (tr, go, t, f)" by (metis prod_cases4)
    have d: "core_types H (hid_core s) tr (hid_core t)" using drain_round_core_types x(1) by (simp add: xp)
    show ?thesis
    proof (cases go)
      case True
      then obtain tr' where "fst r = (trace @ tr) @ tr'" "core_types H (hid_core t) tr' (hid_core (fst (snd r)))"
        using IH [of U "trace @ tr" "(t, f)" r] x(2) by (auto simp: xp loop_types_def)
      then show ?thesis using core_types_trans [OF d] by (auto simp: p loop_types_def)
    next
      case False
      then show ?thesis using d x(2) by (auto simp: p xp loop_types_def)
    qed
  qed
qed

lemma drain_core_types:
  assumes "usb_hid_drain U (s, e) = Some (tr, t, f)"
  shows "core_types H (hid_core s) tr (hid_core t)"
proof -
  obtain stalled s' where g: "stall_guard s = (stalled, s')" by fastforce
  then have "core_types H (hid_core s) [] (hid_core s')"
    by (intro core_types_kept) (auto simp: stall_guard_def split: if_splits)
  moreover have "core_types H (hid_core s') tr (hid_core t)"
  proof (cases stalled)
    case True
    then show ?thesis using assms g core_types_refl by (simp add: usb_hid_drain_def)
  next
    case False
    then have "drain_loop U [] (s', e) = Some (tr, t, f)" using assms g by (simp add: usb_hid_drain_def)
    from drain_loop_core_types [OF this] show ?thesis by (simp add: loop_types_def)
  qed
  ultimately show ?thesis using core_types_trans by fastforce
qed

lemma sent_device: "net_device (net_sent_cb L p s) = net_device s"
  by (cases rule: sent_cases [of L p s]) (simp_all add: net_log_def)

lemma close_device: "net_device (net_session_close pcb s) = net_device s"
  by (simp add: net_session_close_def net_reset_frame_def net_log_def Let_def split: option.split)

lemma process_device: "device_types H (net_device s) [] (net_device (net_process_frame H L p s))"
proof -
  obtain E e where a: "lw_env L (net_lwip s) = (E, e)" by fastforce
  obtain resp d where f: "command_process_frame H E (take (unat (ucast (net_rx_len s - 4) :: u16)) (drop 4 (net_rx s)))
      BRIDGE_TRANSPORT_RESPONSE_MAX (net_device s) = (resp, d)" by fastforce
  have "net_device (net_process_frame H L p s) = d"
    by (simp add: net_process_frame_def a f Let_def close_device sent_device net_check_def)
  then show ?thesis
    using types_step [of H "net_device s" "Frame E (take (unat (ucast (net_rx_len s - 4) :: u16)) (drop 4 (net_rx s))) BRIDGE_TRANSPORT_RESPONSE_MAX"] f
    by simp
qed

lemma pbuf_device: "device_types H (net_device (snd r)) [] (net_device (snd (rx_pbuf H L p cs r)))"
proof (induction cs arbitrary: r)
  case Nil
  show ?case by (cases r) (simp add: types_refl)
next
  case (Cons c cs)
  obtain overflow s where r: "r = (overflow, s)" by fastforce
  show ?case
  proof (cases "net_rx_len s < 4")
    case True
    then show ?thesis using Cons.IH [of "(overflow', net_put c s)" for overflow'] by (simp add: r Let_def)
  next
    case False
    let ?s = "net_put c s"
    define t where "t = (if net_rx_len ?s = 4 + frame_length ?s then net_process_frame H L p ?s else ?s)"
    have t: "device_types H (net_device s) [] (net_device t)"
      using process_device [of H ?s L p] types_refl by (simp add: t_def)
    have "rx_pbuf H L p (c # cs) r = (if net_session_pcb t = None then (True, t) else rx_pbuf H L p cs (overflow, t))"
      using False by (simp add: r Let_def t_def del: put_keeps)
    then show ?thesis using t types_silent [OF t Cons.IH [of "(overflow, t)", unfolded snd_conv]] by (simp add: r)
  qed
qed

lemma chain_device: "device_types H (net_device (snd r)) [] (net_device (snd (rx_chain H L p qs r)))"
proof (induction qs arbitrary: r)
  case Nil
  show ?case by (cases r) (simp add: types_refl)
next
  case (Cons q qs)
  obtain overflow s where r: "r = (overflow, s)" by fastforce
  show ?case
    using types_silent [OF pbuf_device [of H r L p q] Cons.IH [of "rx_pbuf H L p q r"]] types_refl
    by (cases overflow) (simp_all add: r)
qed

lemma recv_device: "device_types H (net_device s) [] (net_device (snd (net_recv_cb H L p q err s)))"
proof (cases q)
  case None
  then show ?thesis using types_refl by (simp add: net_recv_cb_def close_device)
next
  case (Some qs)
  then show ?thesis using chain_device [of H "(False, s)" L p qs] types_refl
    by (auto simp: net_recv_cb_def close_device net_log_def Let_def split: prod.split)
qed

lemma poll_device: "net_device (net_tcp (snd (net_endpoint_poll H C A now s))) = net_device (net_tcp s)"
  by (auto simp: net_endpoint_poll_def poll_retry_wait_def poll_connecting_def poll_ready_def net_start_listener_locked_def
      close_device Let_def split: net_state_t.split prod.splits option.splits if_splits)

lemma net_step_device: "device_types H (net_device (net_tcp s)) [] (net_device (net_tcp (snd (net_step H L x s))))"
proof (cases x)
  case (Device_Event y)
  then show ?thesis using types_step [of H "net_device (net_tcp s)" y] by (simp add: net_step_def)
next
  case (Accepted newpcb err)
  then show ?thesis using types_refl
    by (auto simp: net_step_def net_accept_cb_def net_log_def net_reset_frame_def split: option.split)
qed (simp_all add: net_step_def types_refl recv_device sent_device net_err_cb_def net_reset_frame_def poll_device)

lemma write_device: "device_types H (link_device b) [] (link_device (cmd_write_callback H E buffer b))"
proof -
  obtain frame rx where f: "rx_fragment buffer (link_rx b) = (frame, rx)" by fastforce
  show ?thesis
  proof (cases frame)
    case None
    then show ?thesis using f types_refl by (simp add: cmd_write_callback_def)
  next
    case (Some data)
    obtain resp d where p: "command_process_frame H E data BRIDGE_TRANSPORT_RESPONSE_MAX (link_device b) = (resp, d)" by fastforce
    then have "link_device (cmd_write_callback H E buffer b) = d"
      using f Some by (simp add: cmd_write_callback_def ble_handle_command_def Let_def)
    then show ?thesis using types_step [of H "link_device b" "Frame E data BRIDGE_TRANSPORT_RESPONSE_MAX"] p by simp
  qed
qed

subsection \<open>A pass as operations of the device\<close>

lemma put_get [simp]:
  "fw_device (put_hid h w) = (fw_device w)\<lparr>core := hid_core h\<rparr>" "hid_core (hid_of w) = core (fw_device w)"
  "fw_device (put_link b w) = link_device b" "link_device (link_of w) = fw_device w"
  "fw_device (put_net s w) = net_device (net_tcp s)" "net_device (net_tcp (net_of w)) = fw_device w"
  by (simp_all add: put_hid_def hid_of_def put_link_def link_of_def put_net_def net_of_def)

lemma async_device: "device_types H (fw_device w) [] (fw_device (snd (async_step H L x w)))"
proof (cases x)
  case (Ble_Write E buffer)
  then show ?thesis using write_device [of H "link_of w" E buffer] by simp
next
  case (Lwip y)
  then show ?thesis using net_step_device [of H "net_of w" L y] types_refl by (auto split: prod.split)
qed (auto simp: types_refl split: prod.split)

lemma asyncs_device: "device_types H (fw_device w) [] (fw_device (snd (run_ops (async_step H L) xs w)))"
proof (induction xs arbitrary: w)
  case (Cons x xs)
  show ?case using types_silent [OF async_device [of H w L x] Cons.IH] by simp
qed (simp add: types_refl)

lemma usb_task_device: "device_types H (fw_device w) [] (fw_device (usb_task U w))"
proof -
  obtain events u where p: "port_task U (fw_port w) = (events, u)" by fastforce
  have "core_types H (core (fw_device w)) [] (hid_core (fold usb_event_step events (hid_of w)))"
    using events_core [of events "hid_of w"] by (intro core_types_kept) simp
  then have "device_types H ((fw_device w)\<lparr>core := core (fw_device w)\<rparr>) []
      ((fw_device w)\<lparr>core := hid_core (fold usb_event_step events (hid_of w))\<rparr>)"
    unfolding core_types_def by (rule spec)
  then show ?thesis by (simp add: usb_task_def p)
qed

lemma read_clock_device: "device_types H (fw_device w) [] (fw_device (read_clock U w))"
  using types_step [of H "fw_device w" "Clock (fst (port_clock U (fw_port w)))"]
  by (cases "port_clock U (fw_port w)") (simp add: read_clock_def)

lemma tick_device: "device_types H (fw_device w) [] (fw_device (loop_tick w))"
  using types_step [of H "fw_device w" "Loop_Tick (usb_now_ms (fw_hid w))"] by (simp add: loop_tick_def split: prod.splits)

definition reports_of :: "fw_output list \<Rightarrow> hid_report list" where
  "reports_of outs = concat (map (\<lambda>x. case x of Report r \<Rightarrow> [r] | _ \<Rightarrow> []) outs)"

lemma reports_append [simp]: "reports_of (xs @ ys) = reports_of xs @ reports_of ys" "reports_of [] = []"
  "reports_of (map Report tr) = tr" "reports_of (map Advertise ads) = []" "reports_of (map Radio calls) = []"
  by (simp_all add: reports_of_def comp_def)

lemma async_no_report: "reports_of (fst (async_step H L x w)) = []"
  by (cases x) (auto simp: reports_of_def split: prod.split)

lemma asyncs_no_report: "reports_of (concat (fst (run_ops (async_step H L) xs w))) = []"
  by (induction xs arbitrary: w) (simp_all add: async_no_report)

lemma loop_radio_device:
  "device_types H (fw_device w) [] (fw_device (snd (loop_radio H L network i w))) \<and> reports_of (fst (loop_radio H L network i w)) = []"
proof (cases "fw_radio w")
  case True
  obtain outs v where r: "run_ops (async_step H L) (pi_async i) w = (outs, v)" by fastforce
  obtain ads adv where a: "ble_readvertise_poll (usb_now_ms (fw_hid v)) (fw_adv v) = (ads, adv)" by fastforce
  have "device_types H (fw_device w) [] (fw_device v)" "reports_of (concat outs) = []"
    using asyncs_device [of H w L "pi_async i"] asyncs_no_report [of H L "pi_async i" w] r by simp_all
  then show ?thesis using True r a
    by (auto simp: loop_radio_def Let_def poll_device split: prod.split
      dest: arg_cong [where f = "\<lambda>r. net_device (net_tcp (snd r))"])
next
  case False
  then show ?thesis by (simp add: loop_radio_def types_refl)
qed

lemma loop_led_device: "fw_device (snd (loop_led w)) = fw_device w \<and> reports_of (fst (loop_led w)) = []"
  by (simp add: loop_led_def reports_of_def)

lemma loop_drain_device:
  assumes "loop_drain U w = Some (outs, v)"
  shows "device_types H (fw_device w) (reports_of outs) (fw_device v)"
proof (cases "usb_now_ms (fw_hid w) - fw_last_drain w \<ge> 5")
  case True
  then obtain tr h u where d: "usb_hid_drain U (hid_of w, fw_port w) = Some (tr, h, u)" "outs = map Report tr"
      "fw_device v = (fw_device w)\<lparr>core := hid_core h\<rparr>"
    using assms by (auto simp: loop_drain_def split: option.splits)
  from drain_core_types [OF d(1), of H] have "device_types H ((fw_device w)\<lparr>core := core (fw_device w)\<rparr>) tr (fw_device v)"
    unfolding core_types_def d(3) put_get by (rule spec)
  then show ?thesis by (simp add: d(2))
next
  case False
  then show ?thesis using assms by (simp add: loop_drain_def types_refl)
qed

lemma pass_device:
  assumes "main_pass H L U network i w = Some (outs, v)"
  shows "device_types H (fw_device w) (reports_of outs) (fw_device v)"
proof -
  let ?w = "read_clock U (usb_task U w)"
  obtain reports w1 where d: "loop_drain U ?w = Some (reports, w1)"
    using assms by (auto simp: main_pass_def bind_eq_Some_conv)
  obtain radio w2 where r: "loop_radio H L network i (loop_tick w1) = (radio, w2)" by fastforce
  obtain lights w3 where l: "loop_led w2 = (lights, w3)" by fastforce
  have o: "outs = reports @ radio @ lights @ [Watchdog_Update]" "v = w3" using assms by (simp_all add: main_pass_def d r l)
  have "device_types H (fw_device w) [] (fw_device ?w)"
    using types_silent [OF usb_task_device [of H w U] read_clock_device] by simp
  moreover have "device_types H (fw_device ?w) (reports_of reports) (fw_device w1)" by (rule loop_drain_device [OF d])
  moreover have "device_types H (fw_device w1) [] (fw_device w2)"
    using types_silent [OF tick_device [of H w1]] loop_radio_device [of H "loop_tick w1" L network i] r by simp
  moreover have "fw_device w3 = fw_device w2" "reports_of radio = []" "reports_of lights = []" "reports_of [Watchdog_Update] = []"
    using loop_led_device [of w2] loop_radio_device [of H "loop_tick w1" L network i] r l by (simp_all add: reports_of_def)
  ultimately show ?thesis using types_trans [of H "fw_device ?w" "reports_of reports" "fw_device w1" "[]"] types_silent
    by (auto simp: o)
qed

lemma loop_device: "main_loop H L U network is w = Some (outs, v) \<Longrightarrow> device_types H (fw_device w) (reports_of outs) (fw_device v)"
proof (induction "is" arbitrary: w outs)
  case (Cons i "is")
  then obtain a u b where "main_pass H L U network i w = Some (a, u)" "main_loop H L U network is u = Some (b, v)" "outs = a @ b"
    by (auto simp: bind_eq_Some_conv)
  then show ?case using types_trans [OF pass_device Cons.IH] by simp
qed (simp add: types_refl)

subsection \<open>Passes end\<close>

lemma types_ok:
  assumes "flash_layout H" and "device_ok H d" and "device_types H d tr d'"
  shows "device_ok H d'"
proof -
  obtain xs where "d' = after_ops H xs d" using assms(3) by (auto simp: device_types_def)
  then show ?thesis using device_run_ok assms(1,2) by simp
qed

lemma pass_returns:
  assumes "clock_advances U" "flash_layout H" "device_ok H (fw_device w)"
  obtains outs v where "main_pass H L U network i w = Some (outs, v)" "device_ok H (fw_device v)" "Watchdog_Update \<in> set outs"
proof -
  let ?w = "read_clock U (usb_task U w)"
  have "device_types H (fw_device w) [] (fw_device ?w)"
    using types_silent [OF usb_task_device [of H w U] read_clock_device] by simp
  then have "device_ok H (fw_device ?w)" by (rule types_ok [OF assms(2,3)])
  then have "core_ok (hid_core (hid_of ?w))" by (simp add: device_ok_def)
  then obtain r where "usb_hid_drain U (hid_of ?w, fw_port ?w) = Some r"
    using drain_returns [OF assms(1), of "(hid_of ?w, fw_port ?w)"] by auto
  then have "loop_drain U ?w \<noteq> None" by (cases r) (simp add: loop_drain_def)
  then obtain reports w1 where "loop_drain U ?w = Some (reports, w1)" by auto
  moreover obtain radio w2 where "loop_radio H L network i (loop_tick w1) = (radio, w2)" by fastforce
  moreover obtain lights v where "loop_led w2 = (lights, v)" by fastforce
  ultimately have "main_pass H L U network i w = Some (reports @ radio @ lights @ [Watchdog_Update], v)"
    by (simp add: main_pass_def)
  then obtain outs where p: "main_pass H L U network i w = Some (outs, v)" "Watchdog_Update \<in> set outs" by simp
  then show ?thesis using that types_ok [OF assms(2,3) pass_device [OF p(1)]] by blast
qed

lemma loop_returns:
  assumes "clock_advances U" "flash_layout H"
  shows "device_ok H (fw_device w) \<Longrightarrow> \<exists>outs v. main_loop H L U network is w = Some (outs, v) \<and>
    length is \<le> length (filter (\<lambda>x. x = Watchdog_Update) outs)"
proof (induction "is" arbitrary: w)
  case (Cons i "is")
  obtain a u where a: "main_pass H L U network i w = Some (a, u)" "device_ok H (fw_device u)" "Watchdog_Update \<in> set a"
    using pass_returns [OF assms Cons.prems] .
  obtain b v where b: "main_loop H L U network is u = Some (b, v)" "length is \<le> length (filter (\<lambda>x. x = Watchdog_Update) b)"
    using Cons.IH [OF a(2)] by blast
  have "filter (\<lambda>x. x = Watchdog_Update) a \<noteq> []" using a(3) by (auto simp: filter_empty_conv)
  then have "1 \<le> length (filter (\<lambda>x. x = Watchdog_Update) a)" by (simp add: Suc_le_eq)
  then show ?case using a b by simp
qed simp

lemma start_device: "firmware_start H K B network serial m e u = Some (calls, w) \<Longrightarrow> device_boot H K B m = Some (fw_device w)"
  by (auto simp: firmware_start_def split: option.splits)

subsection \<open>Property\<close>

text \<open>C1: nothing is typed that was not commanded, end to end. For both images, from any flash the firmware starts from, every
  sequence of passes of the main loop returns, whatever BLE, lwIP, the USB host and the Wi-Fi driver do in them, and
  feeds the watchdog in each; what happened to the device is a sequence of operations of the device machine; and every key
  report that left through the USB endpoint is a key of a text that a frame staged and a later frame confirmed within the
  lifetime, both accepted in sessions of controllers enrolled at that moment.\<close>

theorem every_report_was_commanded:
  assumes "firmware_start H K B network serial m e u = Some (calls, w)" and "flash_layout H"
    and "length (recovery_public K) = 32" and "length (initiator_public K) = 32" and "clock_advances U"
  shows "\<exists>outs v xs. main_loop H L U network is w = Some (outs, v) \<and>
    length is \<le> length (filter (\<lambda>x. x = Watchdog_Update) outs) \<and> fw_device v = after_ops H xs (fw_device w) \<and>
    (\<forall>md us. Press md us \<in> set (reports_of outs) \<longrightarrow>
      (\<exists>ys E data cap zs F data' cap' ws own ident lay mode fl input since ttl now before rest.
        xs = ys @ Frame E data cap # zs @ Frame F data' cap' # ws \<and>
        commanded H data (after_ops H ys (fw_device w)) (Op_Stage own ident lay mode fl input since ttl) \<and>
        enrolled_session (after_ops H ys (fw_device w)) \<and>
        commanded H data' (after_ops H (ys @ Frame E data cap # zs) (fw_device w)) (Op_Confirm own ident now) \<and>
        enrolled_session (after_ops H (ys @ Frame E data cap # zs) (fw_device w)) \<and>
        now - since < ttl \<and> text_keys lay mode fl input (before @ \<lparr>modifier = md, usage = us\<rparr> # rest)))"
proof -
  have on: "powered_on H (fw_device w)"
    using start_device [OF assms(1)] assms(2-4) unfolding powered_on_def by blast
  obtain outs v where r: "main_loop H L U network is w = Some (outs, v)"
      "length is \<le> length (filter (\<lambda>x. x = Watchdog_Update) outs)"
    using loop_returns [OF assms(5,2)] powered_on_ok [OF on] by blast
  obtain xs where xs: "fw_device v = after_ops H xs (fw_device w)"
      "\<forall>md us. Press md us \<in> set (reports_of outs) \<longrightarrow> (\<exists>k. handed_out H (fw_device w) xs k \<and> md = modifier k \<and> us = usage k)"
    using loop_device [OF r(1)] unfolding device_types_def by blast
  have "\<exists>ys E data cap zs F data' cap' ws own ident lay mode fl input since ttl now before rest.
        xs = ys @ Frame E data cap # zs @ Frame F data' cap' # ws \<and>
        commanded H data (after_ops H ys (fw_device w)) (Op_Stage own ident lay mode fl input since ttl) \<and>
        enrolled_session (after_ops H ys (fw_device w)) \<and>
        commanded H data' (after_ops H (ys @ Frame E data cap # zs) (fw_device w)) (Op_Confirm own ident now) \<and>
        enrolled_session (after_ops H (ys @ Frame E data cap # zs) (fw_device w)) \<and>
        now - since < ttl \<and> text_keys lay mode fl input (before @ \<lparr>modifier = md, usage = us\<rparr> # rest)"
    if press: "Press md us \<in> set (reports_of outs)" for md us
  proof -
    obtain vs t ts where x: "xs = vs @ Type_Next t # ts"
        "fst (device_step H (Type_Next t) (after_ops H vs (fw_device w))) = Core_Result (BRIDGE_OK, \<lparr>modifier = md, usage = us\<rparr>)"
      using xs(2) press unfolding handed_out_def by (metis (full_types) bridge_stroke.surjective old.unit.exhaust)
    show ?thesis
      using key_was_commanded [OF on x(2)] unfolding x(1) by (elim exE conjE, intro exI conjI) (assumption | simp)+
  qed
  then show ?thesis using r xs(1) by blast
qed


text \<open>The bring-up data of the device machine, two quiet passes of the image with the network.\<close>

definition demo_quiet :: pass_input where
  "demo_quiet = \<lparr>pi_async = [], pi_cyw43 = demo_down, pi_poll = demo_answers\<rparr>"

theorem every_report_was_commanded_witness:
  "\<exists>calls w outs v. firmware_start demo_hw demo_build demo_power True [0] blank_flash () (0 :: nat) = Some (calls, w) \<and>
     main_loop demo_hw demo_lwip demo_port True [demo_quiet, demo_quiet] w = Some (outs, v) \<and>
     2 \<le> length (filter (\<lambda>x. x = Watchdog_Update) outs)"
proof -
  obtain calls w where s: "firmware_start demo_hw demo_build demo_power True [0] blank_flash () (0 :: nat) = Some (calls, w)"
    using demo_unit_boot(1) by (simp add: firmware_start_def)
  have k: "length (recovery_public demo_build) = 32" "length (initiator_public demo_build) = 32"
    using demo_fresh by (simp_all add: fresh_start_def)
  show ?thesis
    using every_report_was_commanded [OF s demo_unit_ok(1) k demo_clock, of demo_lwip "[demo_quiet, demo_quiet]"] s by auto
qed

end
