(* ===== verification/Firmware_Invariant.thy ===== *)
theory Firmware_Invariant
  imports Main_Loop
begin

section \<open>The invariant of the whole firmware\<close>

text \<open>
  The invariants of the components hold together, from the start of the program through every pass of the loop:
  the TCP endpoint, the reassembly buffer and the answer of the BLE link, the identity strings, and, inside the
  endpoint's invariant, the core, the roster, the flash and the session.
\<close>

definition firmware_ok :: "hardware \<Rightarrow> ('e, 'u) firmware \<Rightarrow> bool" where
  "firmware_ok H w \<longleftrightarrow> endpoint_ok H (net_of w) \<and> link_ok (fw_link w) \<and> identity_ok (fw_identity w)"

lemma firmware_device: "firmware_ok H w \<Longrightarrow> device_inv H (fw_device w)"
  by (simp add: firmware_ok_def net_of_def endpoint_ok_def session_ok_def tx_ok_def)

text \<open>The endpoint does not mind what another component made of the device.\<close>

lemma endpoint_new_device:
  assumes "endpoint_ok H s" and "device_inv H d"
  shows "endpoint_ok H (s\<lparr>net_tcp := (net_tcp s)\<lparr>net_device := d\<rparr>\<rparr>)"
  using assms by (auto simp: endpoint_ok_def session_ok_def tx_ok_def rx_holds_def)

text \<open>A step that only goes through the device, and sees to its own link, keeps the invariant.\<close>

lemma firmware_device_step:
  assumes "firmware_ok H w" and "device_types H (fw_device w) tr (fw_device v)"
    and "fw_net v = fw_net w" and "fw_identity v = fw_identity w" and "link_ok (fw_link v)"
  shows "firmware_ok H v"
proof -
  have "device_inv H (fw_device v)"
    using firmware_device [OF assms(1)] types_ok [OF _ _ assms(2)] by (simp add: device_inv_def)
  moreover have "endpoint_ok H (net_of w)" using assms(1) by (simp add: firmware_ok_def)
  ultimately have "endpoint_ok H ((net_of w)\<lparr>net_tcp := (net_tcp (net_of w))\<lparr>net_device := fw_device v\<rparr>\<rparr>)"
    by (intro endpoint_new_device)
  then show ?thesis using assms by (simp add: firmware_ok_def net_of_def)
qed

lemma put_net_ok: "firmware_ok H w \<Longrightarrow> endpoint_ok H s \<Longrightarrow> firmware_ok H (put_net s w)"
  by (simp add: firmware_ok_def put_net_def net_of_def)

lemma firmware_link: "firmware_ok H w \<Longrightarrow> link_ok (fw_link w)" "link_ok (link_of w) \<longleftrightarrow> link_ok (fw_link w)"
  by (simp_all add: firmware_ok_def link_ok_def link_of_def)

lemma write_ok:
  assumes "link_ok b" and "aead_lengths (hw_crypto H)"
  shows "link_ok (cmd_write_callback H E buffer b)"
proof -
  obtain frame rx where f: "rx_fragment buffer (link_rx b) = (frame, rx)" by fastforce
  have "rx_ok (link_rx b)" using assms(1) by (simp add: link_ok_def)
  then have "rx_ok rx" using reassembly.step_keeps [of "link_rx b" buffer] f by simp
  then have b: "link_ok (b\<lparr>link_rx := rx\<rparr>)" using assms(1) by (simp add: link_ok_def)
  show ?thesis
  proof (cases frame)
    case None
    then show ?thesis using b write_none f by simp
  next
    case (Some data)
    obtain resp d where c: "command_process_frame H E data BRIDGE_TRANSPORT_RESPONSE_MAX (link_device (b\<lparr>link_rx := rx\<rparr>)) = (resp, d)"
      by fastforce
    show ?thesis using handled_command(3) [OF b c response_length [OF assms(2) c] refl] f Some
      by (simp add: cmd_write_callback_def)
  qed
qed

subsection \<open>Every step keeps it\<close>

lemma async_keeps:
  assumes "firmware_ok H w"
  shows "firmware_ok H (snd (async_step H L x w))"
proof (cases x)
  case (Ble_Write E buffer)
  have a: "aead_lengths (hw_crypto H)" using assms by (simp add: firmware_ok_def endpoint_ok_def)
  have "link_ok (cmd_write_callback H E buffer (link_of w))"
    by (rule write_ok [OF _ a]) (simp add: firmware_link(1) [OF assms] firmware_link(2))
  then show ?thesis
    by (intro firmware_device_step [OF assms async_device]) (simp_all add: Ble_Write put_link_def)
next
  case (Lwip y)
  have "endpoint_ok H (snd (net_step H L y (net_of w)))"
    by (rule network.step_keeps) (use assms in \<open>simp add: firmware_ok_def\<close>)
  then show ?thesis using put_net_ok [OF assms] assms by (auto simp: Lwip split: prod.split)
next
  case (Ble_Read cmd offset cap)
  then show ?thesis using assms by (simp split: prod.split)
next
  case (Hci_Event disconnection_complete event)
  then show ?thesis using assms by (simp add: firmware_ok_def net_of_def)
qed

interpretation callbacks: guarded_machine "async_step H L" "firmware_ok H" for H and L :: "'e lwip"
  by unfold_locales (rule async_keeps)

text \<open>The radio part of a pass with the results of its calls.\<close>

lemma loop_radio_result:
  assumes "fw_radio w" and "run_ops (async_step H L) (pi_async i) w = (outs, v)"
    and "ble_readvertise_poll (usb_now_ms (fw_hid v)) (fw_adv v) = (ads, adv)"
    and "(if network then net_endpoint_poll H (pi_cyw43 i) (pi_poll i) (usb_now_ms (fw_hid (v\<lparr>fw_adv := adv\<rparr>))) (net_of (v\<lparr>fw_adv := adv\<rparr>))
      else ([], net_of (v\<lparr>fw_adv := adv\<rparr>))) = (calls, s)"
  shows "loop_radio H L network i w = (concat outs @ map Advertise ads @ map Radio calls, put_net s (v\<lparr>fw_adv := adv\<rparr>))"
  unfolding loop_radio_def Let_def assms(2,3) prod.case assms(4) by (simp only: assms(1) not_True_eq_False if_False)

lemma loop_radio_keeps:
  assumes "firmware_ok H w"
  shows "firmware_ok H (snd (loop_radio H L network i w))"
proof (cases "fw_radio w")
  case True
  obtain outs v where r: "run_ops (async_step H L) (pi_async i) w = (outs, v)" by fastforce
  obtain ads adv where a: "ble_readvertise_poll (usb_now_ms (fw_hid v)) (fw_adv v) = (ads, adv)" by fastforce
  obtain calls s where p: "(if network then net_endpoint_poll H (pi_cyw43 i) (pi_poll i) (usb_now_ms (fw_hid (v\<lparr>fw_adv := adv\<rparr>)))
      (net_of (v\<lparr>fw_adv := adv\<rparr>)) else ([], net_of (v\<lparr>fw_adv := adv\<rparr>))) = (calls, s)" by fastforce
  have "firmware_ok H v" using callbacks.run_keeps [OF assms, of L "pi_async i"] r by simp
  then have v: "firmware_ok H (v\<lparr>fw_adv := adv\<rparr>)" by (simp add: firmware_ok_def net_of_def)
  then have e: "endpoint_ok H (net_of (v\<lparr>fw_adv := adv\<rparr>))" by (simp add: firmware_ok_def)
  have "endpoint_ok H s"
  proof (cases network)
    case True
    then show ?thesis using poll_ok [OF e, of "pi_cyw43 i" "pi_poll i" "usb_now_ms (fw_hid v)"] p by simp
  next
    case False
    then show ?thesis using e p by simp
  qed
  then show ?thesis using put_net_ok [OF v] loop_radio_result [OF True r a p] by simp
next
  case False
  then show ?thesis using assms by (simp add: loop_radio_def)
qed

lemma pass_keeps:
  assumes "main_pass H L U network i w = Some (outs, v)" and "firmware_ok H w"
  shows "firmware_ok H v"
proof -
  let ?w = "read_clock U (usb_task U w)"
  obtain reports w1 where d: "loop_drain U ?w = Some (reports, w1)"
    using assms(1) by (auto simp: main_pass_def bind_eq_Some_conv)
  obtain radio w2 where r: "loop_radio H L network i (loop_tick w1) = (radio, w2)" by fastforce
  have v: "v = snd (loop_led w2)" using assms(1) by (auto simp: main_pass_def d r split: prod.splits)
  have "device_types H (fw_device w) [] (fw_device ?w)"
    using types_silent [OF usb_task_device [of H w U] read_clock_device] by simp
  from firmware_device_step [OF assms(2) this] have a: "firmware_ok H ?w" using firmware_link(1) [OF assms(2)]
    by (simp add: read_clock_def usb_task_def put_hid_def split: prod.split)
  have "firmware_ok H w1" using firmware_link(1) [OF a] d
    by (intro firmware_device_step [OF a loop_drain_device [OF d]])
      (auto simp: loop_drain_def put_hid_def split: if_splits option.splits)
  then have "firmware_ok H (loop_tick w1)" using firmware_link(1)
    by (intro firmware_device_step [OF _ tick_device]) (simp_all add: loop_tick_def)
  then have "firmware_ok H w2" using loop_radio_keeps [of H "loop_tick w1" L network i] r by simp
  then show ?thesis unfolding v by (simp add: loop_led_def firmware_ok_def net_of_def)
qed

lemma loop_keeps: "main_loop H L U network is w = Some (outs, v) \<Longrightarrow> firmware_ok H w \<Longrightarrow> firmware_ok H v"
  by (induction "is" arbitrary: w outs) (auto simp: bind_eq_Some_conv dest: pass_keeps)

subsection \<open>It holds at the start\<close>

lemma endpoint_init_ok: "aead_lengths (hw_crypto H) \<Longrightarrow> device_inv H d \<Longrightarrow> endpoint_ok H (endpoint_init d e)"
  using init_ok [of H d e] delay_3000 by (simp add: endpoint_init_def endpoint_ok_def) (simp add: net_session_init_def)

lemma firmware_start_ok:
  assumes "firmware_start H K B network serial m e u = Some (calls, w)" and "flash_layout H" and "device_ok H (fw_device w)"
    and "aead_lengths (hw_crypto H)" and "0 \<in> set serial \<or> 32 \<le> length serial"
  shows "firmware_ok H w"
proof -
  have d: "device_inv H (fw_device w)" using assms(2,3) by (simp add: device_inv_def)
  have i: "identity_ok usb_identity_init" by (simp add: identity_ok_def usb_identity_init_def usb_text_def)
  have same: "net_device (net_tcp (endpoint_init d e)) = d" "net_device (net_tcp (endpoint_start H d e)) = d" for d
    by (simp_all add: endpoint_start_def net_endpoint_start_def endpoint_init_def net_session_init_def)
  have "net_of w = fw_net w" "fw_net w = endpoint_start H (fw_device w) e \<or> fw_net w = endpoint_init (fw_device w) e"
    using assms(1) same by (auto simp: firmware_start_def net_of_def split: option.splits)
  then have "endpoint_ok H (net_of w)" using start_ok [OF assms(4) d] endpoint_init_ok [OF assms(4) d] by auto
  moreover have "link_ok (fw_link w)"
    using assms(1) rx_init_ok(1) by (auto simp: firmware_start_def link_ok_def split: option.splits)
  moreover have "identity_ok (fw_identity w)"
    using assms(1) set_identity(1) [OF i assms(5)] by (auto simp: firmware_start_def split: option.splits)
  ultimately show ?thesis by (simp add: firmware_ok_def)
qed

subsection \<open>Property\<close>

text \<open>C3: the firmware stays well formed. From any flash the firmware starts from, for both images and
  whatever BLE, lwIP, the USB host and the Wi-Fi driver do, any number of passes of the main loop returns, and then no
  array of the TCP endpoint was written outside its bounds, its buffer holds part of one frame of at most
  2044 bytes and its queue at most one response, the retry delay is between 3 and 30 seconds, there is a session only
  behind a listener; the BLE buffers have their size and the position is inside; the roster in memory is the one in flash,
  an open session belongs to an enrolled controller with its role; and the identity strings are terminated
  (\<open>firmware_ok\<close> collects this).\<close>

theorem firmware_stays_well_formed:
  assumes "firmware_start H K B network serial m e u = Some (calls, w)" and "flash_layout H"
    and "length (recovery_public K) = 32" and "length (initiator_public K) = 32"
    and "aead_lengths (hw_crypto H)" and "clock_advances U" and "0 \<in> set serial \<or> 32 \<le> length serial"
  shows "\<exists>outs v s. main_loop H L U network is w = Some (outs, v) \<and> s = net_tcp (fw_net v) \<and>
    \<not> net_oob s \<and> length (net_rx s) = 2048 \<and> partial (take (unat (net_rx_len s)) (net_rx s)) \<and> unat (net_rx_len s) < 2048 \<and>
    length (net_pending_tx s) = 58 \<and> unat (net_pending_tx_len s) \<le> 58 \<and>
    3000 \<le> net_retry_delay_ms (fw_net v) \<and> net_retry_delay_ms (fw_net v) \<le> NET_RETRY_MAX_MS \<and>
    (net_listener (fw_net v) = None \<longrightarrow> net_state (fw_net v) \<noteq> NET_STATE_READY \<and> net_session_pcb s = None) \<and>
    rx_ok (link_rx (fw_link v)) \<and> length (cmd_char_read_data (fw_link v)) = BLE_CMD_BUF_MAX \<and>
    device_ok H (fw_device v) \<and> identity_ok (fw_identity v) \<and> firmware_ok H v"
proof -
  have "powered_on H (fw_device w)" using start_device [OF assms(1)] assms(2-4) unfolding powered_on_def by blast
  then have ok: "device_ok H (fw_device w)" using powered_on_ok by blast
  obtain outs v where r: "main_loop H L U network is w = Some (outs, v)" using loop_returns [OF assms(6,2) ok] by blast
  have f: "firmware_ok H v" by (rule loop_keeps [OF r firmware_start_ok [OF assms(1,2) ok assms(5,7)]])
  then obtain t where "partial t" "rx_holds t (net_tcp (fw_net v))"
    by (auto simp: firmware_ok_def endpoint_ok_def session_ok_def net_of_def rx_holds_def)
  then have "partial (take (unat (net_rx_len (net_tcp (fw_net v)))) (net_rx (net_tcp (fw_net v))))"
    "unat (net_rx_len (net_tcp (fw_net v))) < 2048" using partial_length [of t] by (auto simp: rx_holds_def)
  then show ?thesis using r f firmware_device [OF f]
    by (auto simp: firmware_ok_def endpoint_ok_def session_ok_def tx_ok_def net_of_def device_inv_def link_ok_def)
qed

theorem firmware_stays_well_formed_witness:
  "\<exists>calls w outs v. firmware_start demo_hw demo_build demo_power True [0] blank_flash () (0 :: nat) = Some (calls, w) \<and>
     main_loop demo_hw demo_lwip demo_port True
       [demo_quiet\<lparr>pi_async := [Lwip (Accepted (Some 3) ERR_OK), Hci_Event 5 5, Lwip (Received 3 (Some [replicate 100 255]) ERR_OK)]\<rparr>] w =
       Some (outs, v) \<and> \<not> net_oob (net_tcp (fw_net v))"
proof -
  obtain calls w where s: "firmware_start demo_hw demo_build demo_power True [0] blank_flash () (0 :: nat) = Some (calls, w)"
    using demo_unit_boot(1) by (simp add: firmware_start_def)
  have k: "length (recovery_public demo_build) = 32" "length (initiator_public demo_build) = 32"
    using demo_fresh by (simp_all add: fresh_start_def)
  have z: "0 \<in> set [0 :: u8] \<or> 32 \<le> length [0 :: u8]" by simp
  show ?thesis using firmware_stays_well_formed [OF s demo_unit_ok(1) k demo_lengths demo_clock z] s by blast
qed

end
