(* ===== verification/Client_Session.thy ===== *)
theory Client_Session
  imports Firmware_Invariant Noise_Client
begin

section \<open>A client types a text (tools/pico_bridge_ctl.py and the firmware together)\<close>

text \<open>
  The BLE side of the control tool: the packets it builds, the handshake and the commands it sends over the
  characteristic. Together with the passes of the main loop it gives the purpose of the program: an enrolled client
  that connects, authenticates, stages a text and confirms it makes the host see its keys.
  An exception of the tool is \<open>None\<close>. The characteristic is read in chunks of the \<open>n\<close> bytes that
  the connection allows, as the attribute protocol does it.
\<close>

subsection \<open>The tool\<close>

definition CMD_STAGE :: u8 where "CMD_STAGE = 1"
definition CMD_CONFIRM :: u8 where "CMD_CONFIRM = 2"
definition CMD_CANCEL :: u8 where "CMD_CANCEL = 3"
definition CMD_NOISE :: u8 where "CMD_NOISE = 5"

text \<open>\<open>struct.pack\<close> and \<open>bytearray.append\<close> raise when a number does not fit.\<close>

definition build_stage_packet :: "nat \<Rightarrow> nat \<Rightarrow> nat \<Rightarrow> nat \<Rightarrow> nat \<Rightarrow> bytes \<Rightarrow> bytes option" where
  "build_stage_packet own cmd_id lay md fl payload_bytes =
     (if own < 2 ^ 32 \<and> cmd_id < 2 ^ 32 \<and> lay < 256 \<and> md < 256 \<and> fl < 256 \<and> length payload_bytes < 2 ^ 16
      then Some ([CMD_STAGE] @ nat_le 4 own @ nat_le 4 cmd_id @ [of_nat lay, of_nat md, of_nat fl] @
        nat_le 2 (length payload_bytes) @ payload_bytes)
      else None)"

definition build_confirm_packet :: "nat \<Rightarrow> nat \<Rightarrow> bytes option" where
  "build_confirm_packet own cmd_id =
     (if own < 2 ^ 32 \<and> cmd_id < 2 ^ 32 then Some ([CMD_CONFIRM] @ nat_le 4 own @ nat_le 4 cmd_id) else None)"

definition build_cancel_packet :: "nat \<Rightarrow> nat \<Rightarrow> bytes option" where
  "build_cancel_packet own cmd_id =
     (if own < 2 ^ 32 \<and> cmd_id < 2 ^ 32 then Some ([CMD_CANCEL] @ nat_le 4 own @ nat_le 4 cmd_id) else None)"

text \<open>What \<open>cmd_stage\<close> makes of its arguments and the bytes it has read.\<close>

definition cmd_stage_packet :: "nat \<Rightarrow> nat \<Rightarrow> bool \<Rightarrow> bool \<Rightarrow> bool \<Rightarrow> bool \<Rightarrow> bytes \<Rightarrow> bytes option" where
  "cmd_stage_packet own cmd_id de txt allow_lf allow_tab raw =
     (if raw = [] then None
      else if length raw > 1024 then None
      else if \<not> txt \<and> (allow_lf \<or> allow_tab) then None
      else build_stage_packet own cmd_id (if de then 2 else 1) (if txt then 2 else 1)
        ((if allow_lf then 1 else 0) + (if allow_tab then 2 else 0)) raw)"

definition send_command :: "py_crypto \<Rightarrow> bytes \<Rightarrow> initiator \<Rightarrow> bytes list option \<times> initiator" where
  "send_command P packet c =
     (if py_is_ready c
      then (case encrypt_packet P packet c of (Inl e, c) \<Rightarrow> (None, c) | (Inr frame, c) \<Rightarrow> (fragment_packet frame, c))
      else (fragment_packet packet, c))"

text \<open>\<open>perform_noise_handshake\<close> in two parts: up to the message sent, and from the response read.\<close>

definition noise_hello :: "py_crypto \<Rightarrow> bytes \<Rightarrow> bytes \<Rightarrow> bytes \<Rightarrow> bytes list option \<times> initiator" where
  "noise_hello P eph spriv dpub =
     (case begin_handshake P eph (initiator_init P spriv dpub) of (Inl e, c) \<Rightarrow> (None, c)
      | (Inr msg, c) \<Rightarrow> if length msg \<noteq> 80 then (None, c) else (fragment_packet (CMD_NOISE # msg), c))"

definition noise_finish :: "py_crypto \<Rightarrow> bytes \<Rightarrow> initiator \<Rightarrow> (py_error + unit) \<times> initiator" where
  "noise_finish P response c =
     (if length response \<noteq> 53 then (Inl UnexpectedResponseLength, c) else complete_handshake P response c)"

text \<open>A long read of the characteristic.\<close>

definition gatt_read :: "nat \<Rightarrow> ble_link \<Rightarrow> bytes" where
  "gatt_read n b = concat (map (\<lambda>i. snd (read_callback True (i * n) (Some n) b))
     [0..<Suc (fst (read_callback True 0 None b) div n)])"

lemma concat_chunks: "concat (map (\<lambda>i. take n (drop (i * n) xs)) [0..<k]) = take (k * n) xs"
proof (induction k)
  case (Suc k)
  show ?case using Suc take_add [of "k * n" n xs] by (simp add: add.commute [of n])
qed simp

lemma gatt_read_answer:
  assumes "read_callback True 0 None b = (length x, [])" and "\<And>i. snd (read_callback True i (Some n) b) = take n (drop i x)"
    and "0 < n"
  shows "gatt_read n b = x"
proof -
  have "length x mod n < n" using assms(3) by simp
  then have "length x < Suc (length x div n) * n" using div_mult_mod_eq [of "length x" n] by (simp only: mult_Suc)
  then show ?thesis by (simp add: gatt_read_def assms(1,2) concat_chunks del: upt_Suc)
qed

subsection \<open>One exchange over the characteristic\<close>

lemma suite_lengths: "same_suite C P \<Longrightarrow> aead_lengths C"
  unfolding aead_lengths_def by (metis suite_aead option.inject prod.inject)

text \<open>A command of the core, sent by a paired client, runs, and the client reads its status.\<close>

lemma core_command_frame:
  assumes suite: "same_suite (hw_crypto H) P" and paired: "paired (session d) c"
    and p: "p \<noteq> []" "is_core_command p" "core_call p (ble_now_ms d) = Some x" "length p \<le> 1038"
    and fresh: "receive_nonce (session d) \<noteq> UINT64_MAX" "send_nonce (session d) \<noteq> UINT64_MAX"
  obtains frame c1 resp d' c2 where "encrypt_packet P p c = (Inr frame, c1)" "frame \<noteq> []" "length frame \<le> 1102"
    "command_process_frame H E frame BRIDGE_TRANSPORT_RESPONSE_MAX d = (resp, d')"
    "verify_transport_ack P (answer_of resp) c1 = (verdict (status_code (fst (fst (core_step x (core d))))), c2)"
    "paired (session d') c2" "core d' = snd (core_step x (core d))" "ble_now_ms d' = ble_now_ms d"
    "receive_nonce (session d') = receive_nonce (session d) + 1" "send_nonce (session d') = send_nonce (session d) + 1"
proof -
  have cap: "length p \<le> NOISE_IK_MAX_PLAINTEXT" using p(4) by (simp add: NOISE_IK_MAX_PLAINTEXT_def)
  obtain w m c1 where a: "encrypt_packet P p c = (Inr (CMD_ENCRYPTED # w), c1)" "length w = length p + 24"
    "noise_decrypt_packet (hw_crypto H) (Some w) True NOISE_IK_MAX_PLAINTEXT (session d) = ((True, p), m)" "paired m c1"
    "m = (session d)\<lparr>receive_nonce := receive_nonce (session d) + 1\<rparr>"
    by (rule command_arrives [OF suite paired fresh(1) cap p(4)]) blast
  let ?d = "d\<lparr>session := m\<rparr>" and ?st = "fst (fst (core_step x (core d)))"
  have "bridge_command H E p ?d = Some (core_apply (Some x) ?d)"
    using p(2,3) core_effects [of p ?d] by (auto simp: bridge_command_def is_core_command_def cmd_codes)
  then have h: "ble_handle_authenticated_command H E p ?d =
      (True, ?d\<lparr>core := snd (core_step x (core d)), cmd_ack_status := status_code ?st\<rparr>)"
    using p(1) by (simp add: ble_handle_authenticated_command_def core_apply_def)
  have sn: "send_nonce m \<noteq> UINT64_MAX" using fresh(2) by (simp add: a(5))
  have cap: "30 \<le> BRIDGE_TRANSPORT_RESPONSE_MAX - 1" by (simp add: BRIDGE_TRANSPORT_RESPONSE_MAX_def NOISE_IK_RESPONSE_LEN_def)
  obtain r k c2 where b: "noise_encrypt_transport_ack (hw_crypto H) (status_code ?st) True (BRIDGE_TRANSPORT_RESPONSE_MAX - 1) m =
      ((True, r), k)" "verify_transport_ack P (CMD_ENCRYPTED # r) c1 = (verdict (status_code ?st), c2)" "paired k c2"
      "k = m\<lparr>send_nonce := send_nonce m + 1\<rparr>"
    by (rule receipt_arrives [OF suite a(4) sn cap]) blast
  have codes: "CMD_ENCRYPTED = BLE_CMD_ENCRYPTED" "BLE_CMD_ENCRYPTED \<noteq> BLE_CMD_NOISE" "w \<noteq> []"
    using a(2) by (auto simp: CMD_ENCRYPTED_def cmd_codes)
  let ?d' = "?d\<lparr>core := snd (core_step x (core d)), cmd_ack_status := status_code ?st, session := k\<rparr>"
  have "command_process_frame H E (CMD_ENCRYPTED # w) BRIDGE_TRANSPORT_RESPONSE_MAX d = (CMD_ENCRYPTED # r, ?d')"
    using a(3) h b(1) codes by (simp add: command_process_frame_def)
  moreover have "answer_of (CMD_ENCRYPTED # r) = CMD_ENCRYPTED # r" using codes by (simp add: answer_of_def)
  ultimately show ?thesis
    using that [of "CMD_ENCRYPTED # w" c1 "CMD_ENCRYPTED # r" ?d' c2] a(1,2,5) b(2-4) p(4) by simp
qed

lemma core_command_exchange:
  assumes "same_suite (hw_crypto H) P" and "paired (session (link_device b)) c" and "link_ok b" and "0 < n"
    and "p \<noteq> []" and "is_core_command p" and "core_call p (ble_now_ms (link_device b)) = Some x" and "length p \<le> 1038"
    and "receive_nonce (session (link_device b)) \<noteq> UINT64_MAX" and "send_nonce (session (link_device b)) \<noteq> UINT64_MAX"
  obtains fs c1 b' c2 where "send_command P p c = (Some fs, c1)" "b' = fold (cmd_write_callback H E) fs b" "link_ok b'"
    "verify_transport_ack P (gatt_read n b') c1 = (verdict (status_code (fst (fst (core_step x (core (link_device b)))))), c2)"
    "paired (session (link_device b')) c2" "core (link_device b') = snd (core_step x (core (link_device b)))"
    "receive_nonce (session (link_device b')) = receive_nonce (session (link_device b)) + 1"
    "send_nonce (session (link_device b')) = send_nonce (session (link_device b)) + 1"
proof -
  obtain frame c1 resp d' c2 where f: "encrypt_packet P p c = (Inr frame, c1)" "frame \<noteq> []" "length frame \<le> 1102"
    "command_process_frame H E frame BRIDGE_TRANSPORT_RESPONSE_MAX (link_device b) = (resp, d')"
    "verify_transport_ack P (answer_of resp) c1 = (verdict (status_code (fst (fst (core_step x (core (link_device b)))))), c2)"
    "paired (session d') c2" "core d' = snd (core_step x (core (link_device b)))"
    "receive_nonce (session d') = receive_nonce (session (link_device b)) + 1"
    "send_nonce (session d') = send_nonce (session (link_device b)) + 1"
    by (rule core_command_frame [OF assms(1,2,5-10), where E = E])
  have l: "length frame \<le> BLE_CMD_BUF_MAX" using f(3) by simp
  obtain fs where s: "fragment_packet frame = Some fs" "link_device (fold (cmd_write_callback H E) fs b) = d'"
    "link_ok (fold (cmd_write_callback H E) fs b)"
    "read_callback True 0 None (fold (cmd_write_callback H E) fs b) = (length (answer_of resp), [])"
    "\<And>i n. snd (read_callback True i (Some n) (fold (cmd_write_callback H E) fs b)) = take n (drop i (answer_of resp))"
    by (rule fragments_deliver [OF assms(3) f(2) l suite_lengths [OF assms(1)] f(4)]) blast
  have "gatt_read n (fold (cmd_write_callback H E) fs b) = answer_of resp"
    by (rule gatt_read_answer [OF s(4,5) assms(4)])
  moreover have "send_command P p c = (Some fs, c1)"
    using f(1) s(1) assms(2) by (simp add: send_command_def py_is_ready_def paired_def)
  ultimately show ?thesis using that f s by simp
qed

text \<open>The handshake of an enrolled client.\<close>

lemma handshake_exchange:
  assumes suite: "same_suite (hw_crypto H) P" and link: "link_ok b" and n: "0 < n"
    and d: "store_wf (controllers (link_device b))" "store_lookup (controllers (link_device b)) (py_public P spriv) = Some (i, r)"
      "device_static_priv (session (link_device b)) = dpriv" "device_static_pub (session (link_device b)) = py_public P dpriv"
      "controllers_set (session (link_device b))" "env_keypair E = Some (rpriv, py_public P rpriv)"
    and dh: "py_exchange P eph (py_public P dpriv) = Some es" "py_exchange P spriv (py_public P dpriv) = Some ss"
      "py_exchange P eph (py_public P rpriv) = Some ee" "py_exchange P spriv (py_public P rpriv) = Some se"
  obtains fs c b' c' where "noise_hello P eph spriv (py_public P dpriv) = (Some fs, c)"
    "b' = fold (cmd_write_callback H E) fs b" "link_ok b'" "noise_finish P (gatt_read n b') c = (Inr (), c')"
    "link_device b' = (link_device b)\<lparr>session := session (link_device b')\<rparr>" "paired (session (link_device b')) c'"
    "authenticated_slot (session (link_device b')) = i" "authenticated_role (session (link_device b')) = r"
proof -
  obtain msg c response m c' where h:
    "begin_handshake P eph (initiator_init P spriv (py_public P dpriv)) = (Inr msg, c)" "length msg = 80"
    "noise_ik_handshake_respond (hw_crypto H) (controllers (link_device b)) (Some (rpriv, py_public P rpriv)) (Some msg) True
      NOISE_IK_RESPONSE_LEN (session (link_device b)) = ((True, response), m)" "length response = 53"
    "complete_handshake P response c = (Inr (), c')"
    "noise_authenticated_slot m = i" "noise_authenticated_role m = r" "paired m c'"
    by (rule handshake_agrees [OF suite d(1-5) dh])
  have codes: "CMD_NOISE = BLE_CMD_NOISE" by (simp add: CMD_NOISE_def cmd_codes)
  have f: "command_process_frame H E (CMD_NOISE # msg) BRIDGE_TRANSPORT_RESPONSE_MAX (link_device b) =
      (BLE_CMD_NOISE # response, (link_device b)\<lparr>session := m\<rparr>)"
    using h(2-4) d(6) by (simp add: command_process_frame_def codes NOISE_IK_INIT_MESSAGE_LEN_def
        BRIDGE_TRANSPORT_RESPONSE_MAX_def NOISE_IK_RESPONSE_LEN_def)
  have l: "CMD_NOISE # msg \<noteq> []" "length (CMD_NOISE # msg) \<le> BLE_CMD_BUF_MAX" using h(2) by simp_all
  have a: "answer_of (BLE_CMD_NOISE # response) = response" by (simp add: answer_of_def)
  obtain fs where s: "fragment_packet (CMD_NOISE # msg) = Some fs"
    "link_device (fold (cmd_write_callback H E) fs b) = (link_device b)\<lparr>session := m\<rparr>"
    "link_ok (fold (cmd_write_callback H E) fs b)"
    "read_callback True 0 None (fold (cmd_write_callback H E) fs b) = (length response, [])"
    "\<And>i n. snd (read_callback True i (Some n) (fold (cmd_write_callback H E) fs b)) = take n (drop i response)"
    by (rule fragments_deliver [OF link l suite_lengths [OF suite] f, unfolded a]) blast
  have "gatt_read n (fold (cmd_write_callback H E) fs b) = response"
    by (rule gatt_read_answer [OF s(4,5) n])
  moreover have "noise_hello P eph spriv (py_public P dpriv) = (Some fs, c)"
    using h(1,2) s(1) by (simp add: noise_hello_def)
  moreover have "authenticated_slot m = i" "authenticated_role m = r" using h(6-8) by (simp_all add: paired_def session_defs)
  ultimately show ?thesis
    using that [of fs c "fold (cmd_write_callback H E) fs b" c'] h(4,5,8) s(2,3) by (simp add: noise_finish_def)
qed

subsection \<open>A cooperative host\<close>

text \<open>
  A host that is always ready takes every report and leaves the device alone. In one drain it sees every
  pending key pressed and released.
\<close>

definition cooperative :: "'u usb_port \<Rightarrow> bool" where
  "cooperative U \<longleftrightarrow> (\<forall>e. port_ready U e \<and> fst (port_task U e) = [] \<and> (\<forall>m keys. fst (port_report U m keys e)))"

lemma cooperative_simps:
  assumes "cooperative U"
  shows "port_ready U e" "wait_ready U t (s, e) = Some (s, e)" "fst (port_task U e) = []" "fst (port_report U m keys e)"
proof -
  show r: "port_ready U e" for e using assms by (simp add: cooperative_def)
  show "wait_ready U t (s, e) = Some (s, e)" by (subst wait_ready.simps) (simp add: r)
qed (use assms in \<open>simp_all add: cooperative_def\<close>)

lemma next_typing:
  assumes "core_ok c" and "abs_core c = (l, Typing own ident ks)"
  shows "case ks of [] \<Rightarrow> \<exists>d. bridge_core_next c now = (BRIDGE_DONE, d, zero_stroke) \<and> abs_core d = (l, No_Job BRIDGE_STATE_COMPLETED)
    | k # ks \<Rightarrow> \<exists>d. bridge_core_next c now = (BRIDGE_OK, d, k) \<and> abs_core d = (l, Typing own ident ks) \<and> core_ok d \<and> usage k \<noteq> 0"
proof -
  obtain st d k where n: "bridge_core_next c now = (st, d, k)" by (metis prod_cases3)
  have "protocol_step (Op_Next now) (l, Typing own ident ks) (st, k) (abs_core d)"
    using refine_next [OF assms(1) n] assms(2) by simp
  then show ?thesis
    using n next_gives_pending(2) [OF assms(1), of now d k] core_ok_next [OF assms(1) n] by (auto elim!: typing_stepE)
qed

lemma key_reports_Cons: "key_reports (k # ks) = [Press (modifier k) (usage k), Release] @ key_reports ks"
  by (simp add: key_reports_def)

lemma drain_loop_types_all:
  assumes "cooperative U"
  shows "core_ok (hid_core s) \<Longrightarrow> abs_core (hid_core s) = (l, Typing own ident ks) \<Longrightarrow>
    \<exists>d f. drain_loop U trace (s, e) = Some (trace @ key_reports ks, s\<lparr>hid_core := d\<rparr>, f) \<and> abs_core d = (l, No_Job BRIDGE_STATE_COMPLETED)"
proof (induction ks arbitrary: s e trace)
  case Nil
  note co = cooperative_simps [OF assms]
  obtain d where "bridge_core_next (hid_core s) (usb_now_ms s) = (BRIDGE_DONE, d, zero_stroke)"
    "abs_core d = (l, No_Job BRIDGE_STATE_COMPLETED)" using next_typing [OF Nil] by auto
  then have "drain_loop U trace (s, e) = Some (trace, s\<lparr>hid_core := d\<rparr>, e)"
    by (subst drain_loop.simps) (simp add: co(1) drain_round_def Let_def)
  then show ?case using \<open>abs_core d = _\<close> by (auto simp: key_reports_def)
next
  case (Cons k ks)
  note co = cooperative_simps [OF assms]
  obtain d where d: "bridge_core_next (hid_core s) (usb_now_ms s) = (BRIDGE_OK, d, k)"
    "abs_core d = (l, Typing own ident ks)" "core_ok d" "usage k \<noteq> 0" using next_typing [OF Cons.prems] by auto
  obtain f where f: "port_report U (modifier k) [usage k, 0, 0, 0, 0, 0] e = (True, f)"
    using co(4) [of "modifier k" "[usage k, 0, 0, 0, 0, 0]" e] by (cases "port_report U (modifier k) [usage k, 0, 0, 0, 0, 0] e") simp
  obtain g where g: "port_report U 0 [0, 0, 0, 0, 0, 0] f = (True, g)"
    using co(4) [of 0 "[0, 0, 0, 0, 0, 0]" f] by (cases "port_report U 0 [0, 0, 0, 0, 0, 0] f") simp
  have "drain_round U (s, e) = Some ([Press (modifier k) (usage k), Release], True, s\<lparr>hid_core := d\<rparr>, g)"
    using d(1,4) f g by (simp add: drain_round_def Let_def co(1,2))
  then have "drain_loop U trace (s, e) = drain_loop U (trace @ [Press (modifier k) (usage k), Release]) (s\<lparr>hid_core := d\<rparr>, g)"
    by (subst drain_loop.simps) (simp add: co(1))
  then show ?case
    using Cons.IH [of "s\<lparr>hid_core := d\<rparr>" "trace @ [Press (modifier k) (usage k), Release]" g] d(2,3)
    by (simp add: key_reports_Cons)
qed

text \<open>A core that is not typing and whose job does not expire now is left alone by the drain and by the tick.\<close>

definition resting :: "bridge_core \<Rightarrow> u32 \<Rightarrow> bool" where
  "resting c now \<longleftrightarrow> core_state c \<noteq> BRIDGE_STATE_EXECUTING \<and> bridge_core_tick c now = (BRIDGE_OK, c)"

lemma resting_abs:
  "abs_core c = (l, No_Job s) \<Longrightarrow> resting c now"
  "abs_core c = (l, Waiting own ident since ttl ks) \<Longrightarrow> now - since < ttl \<Longrightarrow> resting c now"
  by (auto simp: abs_core_def resting_def bridge_core_tick_def split: if_splits)

lemma drain_resting:
  assumes "resting (hid_core s) (usb_now_ms s)" and "port_ready U e"
  shows "usb_hid_drain U (s, e) = Some ([], s\<lparr>exec_since_ms := 0\<rparr>, e)"
proof -
  have "bridge_core_next (hid_core s) (usb_now_ms s) = (BRIDGE_ERR_STATE, hid_core s, zero_stroke)"
    using assms(1) by (simp add: resting_def bridge_core_next_def)
  then have "drain_loop U [] (s\<lparr>exec_since_ms := 0\<rparr>, e) = Some ([], s\<lparr>exec_since_ms := 0\<rparr>, e)"
    using assms(2) by (subst drain_loop.simps) (simp add: drain_round_def Let_def)
  then show ?thesis using assms(1) by (simp add: usb_hid_drain_def stall_guard_def resting_def)
qed

subsection \<open>Passes of the loop\<close>

lemma clock_read:
  assumes "cooperative U" and "v = read_clock U (usb_task U w)"
  shows "fw_device v = (fw_device w)\<lparr>ble_now_ms := port_time U (fw_port w)\<rparr>" "fw_link v = fw_link w" "fw_radio v = fw_radio w"
    "fw_port v = port_after U (fw_port w)" "usb_now_ms (fw_hid v) = port_time U (fw_port w)"
    "exec_since_ms (fw_hid v) = exec_since_ms (fw_hid w)" "fw_last_drain v = fw_last_drain w"
proof -
  obtain u where u: "port_task U (fw_port w) = ([], u)"
    using cooperative_simps(3) [OF assms(1)] by (metis prod.collapse)
  have "usb_task U w = w\<lparr>fw_port := u, fw_hid := hid_of w\<rparr>" by (simp add: usb_task_def u put_hid_def hid_of_def)
  then show "fw_device v = (fw_device w)\<lparr>ble_now_ms := port_time U (fw_port w)\<rparr>" "fw_link v = fw_link w" "fw_radio v = fw_radio w"
    "fw_port v = port_after U (fw_port w)" "usb_now_ms (fw_hid v) = port_time U (fw_port w)"
    "exec_since_ms (fw_hid v) = exec_since_ms (fw_hid w)" "fw_last_drain v = fw_last_drain w"
    by (simp_all add: assms(2) read_clock_def port_time_def port_after_def u hid_of_def split: prod.split)
qed

text \<open>While nothing is typed, what comes before the radio only reads the clock.\<close>

lemma quiet_until_radio:
  fixes w :: "('e, 'u) firmware"
  assumes "cooperative U" and "resting (core (fw_device w)) (port_time U (fw_port w))" and "exec_since_ms (fw_hid w) = 0"
  obtains v where "loop_drain U (read_clock U (usb_task U w)) = Some ([], v)" "loop_tick v = v"
    "fw_device v = (fw_device w)\<lparr>ble_now_ms := port_time U (fw_port w)\<rparr>" "fw_link v = fw_link w" "fw_radio v = fw_radio w"
    "fw_port v = port_after U (fw_port w)" "usb_now_ms (fw_hid v) = port_time U (fw_port w)" "exec_since_ms (fw_hid v) = 0"
    "port_time U (fw_port w) - fw_last_drain v < 5"
proof -
  let ?v = "read_clock U (usb_task U w)" and ?t = "port_time U (fw_port w)"
  note c = clock_read [OF assms(1) refl, of w]
  have tick: "loop_tick v = v" if "core (fw_device v) = core (fw_device w)" "usb_now_ms (fw_hid v) = ?t" for v :: "('e, 'u) firmware"
    using assms(2) that by (simp add: loop_tick_def resting_def)
  show ?thesis
  proof (cases "?t - fw_last_drain w \<ge> 5")
    case True
    have "resting (hid_core (hid_of ?v)) (usb_now_ms (hid_of ?v))" using assms(2) c by (simp add: hid_of_def)
    then have d: "usb_hid_drain U (hid_of ?v, fw_port ?v) = Some ([], (hid_of ?v)\<lparr>exec_since_ms := 0\<rparr>, fw_port ?v)"
      by (rule drain_resting) (rule cooperative_simps(1) [OF assms(1)])
    let ?u = "put_hid ((hid_of ?v)\<lparr>exec_since_ms := 0\<rparr>) (?v\<lparr>fw_port := fw_port ?v, fw_last_drain := ?t\<rparr>)"
    have "loop_drain U ?v = Some ([], ?u)" using True c d by (simp add: loop_drain_def hid_of_def)
    then show ?thesis by (rule that) (use c in \<open>simp_all add: tick put_hid_def hid_of_def\<close>)
  next
    case False
    then have "loop_drain U ?v = Some ([], ?v)" using c by (simp add: loop_drain_def)
    then show ?thesis by (rule that) (use c False assms(3) in \<open>simp_all add: tick\<close>)
  qed
qed

text \<open>The fragments of a client, delivered in one pass.\<close>

definition delivers :: "call_env \<Rightarrow> bytes list \<Rightarrow> pass_input \<Rightarrow> pass_input" where
  "delivers E fs i = i\<lparr>pi_async := map (Ble_Write E) fs\<rparr>"

definition same_usb :: "('e, 'u) firmware \<Rightarrow> ('e, 'u) firmware \<Rightarrow> bool" where
  "same_usb v w \<longleftrightarrow> fw_hid v = fw_hid w \<and> fw_port v = fw_port w \<and> fw_last_drain v = fw_last_drain w \<and> fw_radio v = fw_radio w"

lemma link_put [simp]: "link_of (put_link b w) = b"
  by (simp add: link_of_def put_link_def)

lemma writes_run:
  "link_of (snd (run_ops (async_step H L) (map (Ble_Write E) fs) w)) = fold (cmd_write_callback H E) fs (link_of w) \<and>
   same_usb (snd (run_ops (async_step H L) (map (Ble_Write E) fs) w)) w"
proof (induction fs arbitrary: w)
  case (Cons f fs)
  have "same_usb (put_link b w) w" for b by (simp add: same_usb_def put_link_def)
  then show ?case using Cons.IH [of "put_link (cmd_write_callback H E f (link_of w)) w"] by (auto simp: same_usb_def)
qed (simp add: same_usb_def)

lemma loop_radio_delivers:
  assumes "fw_radio w" and "v = snd (loop_radio H L network (delivers E fs i) w)"
  shows "link_of v = fold (cmd_write_callback H E) fs (link_of w)" and "same_usb v w"
proof -
  obtain outs u where r: "run_ops (async_step H L) (map (Ble_Write E) fs) w = (outs, u)" by fastforce
  note u = writes_run [of H L E fs w, unfolded r snd_conv]
  obtain ads adv where a: "ble_readvertise_poll (usb_now_ms (fw_hid u)) (fw_adv u) = (ads, adv)" by fastforce
  let ?u = "u\<lparr>fw_adv := adv\<rparr>"
  let ?i = "delivers E fs i"
  have i: "run_ops (async_step H L) (pi_async ?i) w = (outs, u)" using r by (simp add: delivers_def)
  obtain calls s where p: "(if network then net_endpoint_poll H (pi_cyw43 ?i) (pi_poll ?i) (usb_now_ms (fw_hid ?u)) (net_of ?u)
      else ([], net_of ?u)) = (calls, s)" by fastforce
  have "net_device (net_tcp s) = fw_device u"
    using poll_device [of H "pi_cyw43 ?i" "pi_poll ?i" "usb_now_ms (fw_hid ?u)" "net_of ?u"] p
    by (cases network) (auto simp: net_of_def)
  moreover have "v = put_net s ?u" using loop_radio_result [OF assms(1) i a p] assms(2) by simp
  ultimately show "link_of v = fold (cmd_write_callback H E) fs (link_of w)" "same_usb v w"
    using u by (simp_all add: link_of_def put_net_def same_usb_def)
qed

lemma led_keeps: "link_of (snd (loop_led w)) = link_of w" "same_usb (snd (loop_led w)) w"
  by (simp_all add: loop_led_def link_of_def same_usb_def)

lemma pass_delivers:
  assumes "cooperative U" and "resting (core (fw_device w)) (port_time U (fw_port w))" and "exec_since_ms (fw_hid w) = 0" and "fw_radio w"
  obtains outs v where "main_pass H L U network (delivers E fs i) w = Some (outs, v)" "reports_of outs = []"
    "link_of v = fold (cmd_write_callback H E) fs (link_of (w\<lparr>fw_device := (fw_device w)\<lparr>ble_now_ms := port_time U (fw_port w)\<rparr>\<rparr>))"
    "fw_radio v" "fw_port v = port_after U (fw_port w)" "exec_since_ms (fw_hid v) = 0"
    "port_time U (fw_port w) - fw_last_drain v < 5"
proof -
  obtain u where u: "loop_drain U (read_clock U (usb_task U w)) = Some ([], u)" "loop_tick u = u"
    "fw_device u = (fw_device w)\<lparr>ble_now_ms := port_time U (fw_port w)\<rparr>" "fw_link u = fw_link w" "fw_radio u = fw_radio w"
    "fw_port u = port_after U (fw_port w)" "exec_since_ms (fw_hid u) = 0" "port_time U (fw_port w) - fw_last_drain u < 5"
    using quiet_until_radio [OF assms(1-3)] by metis
  obtain outs x where r: "loop_radio H L network (delivers E fs i) u = (outs, x)" by fastforce
  have ur: "fw_radio u" using u(5) assms(4) by simp
  note x = loop_radio_delivers [OF ur, where H = H and L = L and network = network and E = E and fs = fs and i = i, unfolded r snd_conv, OF refl]
  obtain lights v where l: "loop_led x = (lights, v)" by fastforce
  note v = led_keeps [of x, unfolded l snd_conv]
  have p: "main_pass H L U network (delivers E fs i) w = Some (outs @ lights @ [Watchdog_Update], v)"
    by (simp add: main_pass_def u(1,2) r l)
  have s: "same_usb v u" using x(2) v(2) by (simp add: same_usb_def)
  have "reports_of (outs @ lights @ [Watchdog_Update]) = []"
    using loop_radio_device [of H u L network "delivers E fs i"] loop_led_device [of x] r l by (simp add: reports_of_def)
  then show ?thesis by (rule that [OF p]) (use s x(1) v(1) u ur in \<open>simp_all add: same_usb_def link_of_def\<close>)
qed

text \<open>The pass that types.\<close>

lemma pass_types:
  assumes "cooperative U" and "core_ok (core (fw_device w))" and "abs_core (core (fw_device w)) = (l, Typing own ident ks)"
    and "exec_since_ms (fw_hid w) = 0" and "5 \<le> port_time U (fw_port w) - fw_last_drain w"
  shows "\<exists>outs v. main_pass H L U network i w = Some (outs, v) \<and> reports_of outs = key_reports ks"
proof -
  let ?v = "read_clock U (usb_task U w)"
  note c = clock_read [OF assms(1) refl, of w]
  define s where "s = hid_of ?v"
  have s: "hid_core s = core (fw_device w)" "exec_since_ms s = 0" "usb_now_ms s = port_time U (fw_port w)"
    using assms(4) c by (simp_all add: s_def hid_of_def)
  have e: "core_state (hid_core s) = BRIDGE_STATE_EXECUTING" using assms(3) s(1) by (simp add: abs_core_typing)
  let ?s = "s\<lparr>exec_since_ms := usb_now_ms s\<rparr>"
  obtain d f where "drain_loop U [] (?s, fw_port ?v) = Some ([] @ key_reports ks, ?s\<lparr>hid_core := d\<rparr>, f)"
    using drain_loop_types_all [OF assms(1), of ?s l own ident ks "[]" "fw_port ?v"] assms(2,3) s(1) by auto
  then have "usb_hid_drain U (s, fw_port ?v) = Some (key_reports ks, ?s\<lparr>hid_core := d\<rparr>, f)"
    using s(2) e by (simp add: usb_hid_drain_def stall_guard_def)
  then obtain w1 where d: "loop_drain U ?v = Some (map Report (key_reports ks), w1)"
    using assms(5) c by (simp add: loop_drain_def flip: s_def)
  obtain radio w2 where r: "loop_radio H L network i (loop_tick w1) = (radio, w2)" by fastforce
  obtain lights w3 where l: "loop_led w2 = (lights, w3)" by fastforce
  have "main_pass H L U network i w = Some (map Report (key_reports ks) @ radio @ lights @ [Watchdog_Update], w3)"
    by (simp add: main_pass_def d r l)
  moreover have "reports_of radio = []" "reports_of lights = []" "reports_of [Watchdog_Update] = []"
    using loop_led_device [of w2] loop_radio_device [of H "loop_tick w1" L network i] r l by (simp_all add: reports_of_def)
  ultimately show ?thesis by simp
qed

subsection \<open>The packets the firmware understands\<close>

lemma byte_of_shift: "(of_nat (unat x div 2 ^ k) :: u8) = ucast (drop_bit k (x :: 'a :: len word))"
proof -
  have "(of_nat (unat x div 2 ^ k) :: u8) = of_nat (unat (drop_bit k x))" unfolding unat_drop_bit_eq by (simp only: drop_bit_eq_div)
  then show ?thesis by (simp only: of_nat_unat)
qed

lemma nat_le_bytes: "nat_le n (unat (x :: 'a :: len word)) = map (\<lambda>i. ucast (drop_bit (8 * i) x)) [0..<n]"
  by (simp only: nat_le_def byte_of_shift [symmetric]) (simp add: power_mult)

lemma nat_le_32: "nat_le 4 (unat w) = le32_bytes w" and nat_le_16: "nat_le 2 (unat v) = le16_bytes v"
  by (simp_all add: nat_le_bytes le32_bytes_def le16_bytes_def upt_rec)

lemma nat_le_word:
  "x < 2 ^ 32 \<Longrightarrow> nat_le 4 x = le32_bytes (of_nat x)" "y < 2 ^ 16 \<Longrightarrow> nat_le 2 y = le16_bytes (of_nat y)"
  using nat_le_32 [of "of_nat x"] nat_le_16 [of "of_nat y"] by (simp_all add: unat_of_nat)

definition stage_flags :: "bool \<Rightarrow> bool \<Rightarrow> u8" where
  "stage_flags allow_lf allow_tab = (if allow_lf then BRIDGE_FLAG_ALLOW_LF else 0) OR (if allow_tab then BRIDGE_FLAG_ALLOW_TAB else 0)"

lemma stage_packet_call:
  assumes "cmd_stage_packet own cmd_id de txt allow_lf allow_tab raw = Some p"
  shows "core_call p now = Some (Op_Stage (of_nat own) (of_nat cmd_id) (if de then BRIDGE_LAYOUT_DE else BRIDGE_LAYOUT_US)
      (if txt then BRIDGE_MODE_TEXT else BRIDGE_MODE_PASSWORD) (stage_flags allow_lf allow_tab) raw now BRIDGE_TTL_MS)"
    and "is_core_command p" and "p \<noteq> []" and "length p \<le> 1038"
    and "raw \<noteq> []" and "length raw \<le> 1024" and "\<not> txt \<Longrightarrow> \<not> allow_lf \<and> \<not> allow_tab"
proof -
  let ?lay = "of_nat (if de then 2 else 1) :: u8" and ?md = "of_nat (if txt then 2 else 1) :: u8"
  let ?fl = "of_nat ((if allow_lf then 1 else 0) + (if allow_tab then 2 else 0)) :: u8"
  show r: "raw \<noteq> []" "length raw \<le> 1024" "\<not> txt \<Longrightarrow> \<not> allow_lf \<and> \<not> allow_tab"
    using assms by (auto simp: cmd_stage_packet_def split: if_splits)
  have b: "own < 2 ^ 32" "cmd_id < 2 ^ 32" and p': "p = [CMD_STAGE] @ nat_le 4 own @ nat_le 4 cmd_id @ [?lay, ?md, ?fl] @ nat_le 2 (length raw) @ raw"
    using assms by (simp_all add: cmd_stage_packet_def build_stage_packet_def split: if_splits)
  have p: "p = [CMD_STAGE] @ le32_bytes (of_nat own) @ le32_bytes (of_nat cmd_id) @ [?lay, ?md, ?fl] @ le16_bytes (of_nat (length raw)) @ raw"
    using r(2) unfolding p' nat_le_word(1) [OF b(1)] nat_le_word(1) [OF b(2)] by (simp add: nat_le_word(2))
  have i: "le32_at p 1 = of_nat own" unfolding p by (rule le32_at_bytes) simp
  have c: "le32_at p 5 = of_nat cmd_id"
    using le32_at_bytes [of "[CMD_STAGE] @ le32_bytes (of_nat own)" 5 "of_nat cmd_id"] unfolding p by simp
  have n: "le16_at p 12 = of_nat (length raw)"
    using le16_at_bytes [of "[CMD_STAGE] @ le32_bytes (of_nat own) @ le32_bytes (of_nat cmd_id) @ [?lay, ?md, ?fl]" 12 "of_nat (length raw)" raw]
    unfolding p by simp
  have u: "unat (of_nat (length raw) :: u16) = length raw" using r(2) by (simp add: unat_of_nat)
  have u': "unat (14 + of_nat (length raw) :: u16) = 14 + length raw" using r(2) by (simp add: unat_word_ariths unat_of_nat)
  have l: "length p = 14 + length raw" "drop 14 p = raw" by (simp_all add: p le32_bytes_def le16_bytes_def)
  have k: "p ! 0 = 1" "p ! 9 = ?lay" "p ! 10 = ?md" "p ! 11 = ?fl"
    by (simp_all add: p CMD_STAGE_def le32_bytes_def)
  have "?fl = stage_flags allow_lf allow_tab" by (simp add: stage_flags_def BRIDGE_FLAG_ALLOW_LF_def BRIDGE_FLAG_ALLOW_TAB_def)
  then show "core_call p now = Some (Op_Stage (of_nat own) (of_nat cmd_id) (if de then BRIDGE_LAYOUT_DE else BRIDGE_LAYOUT_US)
      (if txt then BRIDGE_MODE_TEXT else BRIDGE_MODE_PASSWORD) (stage_flags allow_lf allow_tab) raw now BRIDGE_TTL_MS)"
    using l i c n u u' k by (simp add: core_call_def cmd_codes stage_text_def Let_def)
  show "is_core_command p" "p \<noteq> []" "length p \<le> 1038" using k(1) l(1) r(2) by (auto simp: is_core_command_def cmd_codes)
qed

text \<open>The packets that carry only the pair of owner and identifier.\<close>

lemma pair_packet:
  assumes "q = k # nat_le 4 own @ nat_le 4 cmd_id" and "own < 2 ^ 32" and "cmd_id < 2 ^ 32"
  shows "q ! 0 = k" "length q = 9" "q \<noteq> []" "le32_at q 1 = of_nat own" "le32_at q 5 = of_nat cmd_id"
proof -
  have q: "q = [k] @ le32_bytes (of_nat own) @ le32_bytes (of_nat cmd_id)" using assms by (simp add: nat_le_word)
  show "le32_at q 1 = of_nat own" unfolding q by (rule le32_at_bytes) simp
  show "le32_at q 5 = of_nat cmd_id"
    using le32_at_bytes [of "[k] @ le32_bytes (of_nat own)" 5 "of_nat cmd_id" "[]"] unfolding q by simp
qed (simp_all add: assms(1) nat_le_def)

lemma confirm_packet_call:
  assumes "build_confirm_packet own cmd_id = Some q"
  shows "core_call q now = Some (Op_Confirm (of_nat own) (of_nat cmd_id) now)" "is_core_command q" "q \<noteq> []" "length q \<le> 1038"
proof -
  have "q = CMD_CONFIRM # nat_le 4 own @ nat_le 4 cmd_id" "own < 2 ^ 32" "cmd_id < 2 ^ 32"
    using assms by (auto simp: build_confirm_packet_def split: if_splits)
  note p = pair_packet [OF this]
  show "core_call q now = Some (Op_Confirm (of_nat own) (of_nat cmd_id) now)" "is_core_command q" "q \<noteq> []" "length q \<le> 1038"
    using p by (auto simp: core_call_def is_core_command_def cmd_codes CMD_CONFIRM_def)
qed

lemma cancel_packet_call:
  assumes "build_cancel_packet own cmd_id = Some q"
  shows "core_call q now = Some (Op_Cancel (of_nat own) (of_nat cmd_id))" "is_core_command q" "q \<noteq> []" "length q \<le> 1038"
proof -
  have "q = CMD_CANCEL # nat_le 4 own @ nat_le 4 cmd_id" "own < 2 ^ 32" "cmd_id < 2 ^ 32"
    using assms by (auto simp: build_cancel_packet_def split: if_splits)
  note p = pair_packet [OF this]
  show "core_call q now = Some (Op_Cancel (of_nat own) (of_nat cmd_id))" "is_core_command q" "q \<noteq> []" "length q \<le> 1038"
    using p by (auto simp: core_call_def is_core_command_def cmd_codes CMD_CANCEL_def)
qed

subsection \<open>The session of \<open>cmd_stage\<close> with \<open>--auto-confirm\<close>\<close>

text \<open>
  Each step delivers the client's fragments in one pass of the loop, then the client reads the characteristic. \<open>None\<close> is
  an exception of the client or a pass that does not return.
\<close>

definition pass_exchange ::
  "hardware \<Rightarrow> 'e lwip \<Rightarrow> 'u usb_port \<Rightarrow> bool \<Rightarrow> nat \<Rightarrow> call_env \<Rightarrow> pass_input \<Rightarrow> bytes list \<Rightarrow> ('e, 'u) firmware
     \<Rightarrow> (fw_output list \<times> bytes \<times> ('e, 'u) firmware) option" where
  "pass_exchange H L U network n E i fs w =
     Option.bind (main_pass H L U network (delivers E fs i) w) (\<lambda>(outs, v). Some (outs, gatt_read n (link_of v), v))"

definition exchange_command ::
  "hardware \<Rightarrow> 'e lwip \<Rightarrow> 'u usb_port \<Rightarrow> bool \<Rightarrow> py_crypto \<Rightarrow> nat \<Rightarrow> call_env \<Rightarrow> pass_input \<Rightarrow> bytes \<Rightarrow> initiator
     \<Rightarrow> ('e, 'u) firmware \<Rightarrow> (fw_output list \<times> initiator \<times> ('e, 'u) firmware) option" where
  "exchange_command H L U network P n E i p c w =
     (case send_command P p c of (None, c) \<Rightarrow> None
      | (Some fs, c) \<Rightarrow>
        Option.bind (pass_exchange H L U network n E i fs w) (\<lambda>(outs, receipt, w).
          case verify_transport_ack P receipt c of (Inl e, c) \<Rightarrow> None | (Inr st, c) \<Rightarrow> Some (outs, c, w)))"

definition exchange_hello ::
  "hardware \<Rightarrow> 'e lwip \<Rightarrow> 'u usb_port \<Rightarrow> bool \<Rightarrow> py_crypto \<Rightarrow> nat \<Rightarrow> call_env \<Rightarrow> pass_input \<Rightarrow> bytes \<Rightarrow> bytes \<Rightarrow> bytes
     \<Rightarrow> ('e, 'u) firmware \<Rightarrow> (fw_output list \<times> initiator \<times> ('e, 'u) firmware) option" where
  "exchange_hello H L U network P n E i eph spriv dpub w =
     (case noise_hello P eph spriv dpub of (None, c) \<Rightarrow> None
      | (Some fs, c) \<Rightarrow>
        Option.bind (pass_exchange H L U network n E i fs w) (\<lambda>(outs, response, w).
          case noise_finish P response c of (Inl e, c) \<Rightarrow> None | (Inr _, c) \<Rightarrow> Some (outs, c, w)))"

definition stage_and_confirm ::
  "hardware \<Rightarrow> 'e lwip \<Rightarrow> 'u usb_port \<Rightarrow> bool \<Rightarrow> py_crypto \<Rightarrow> nat \<Rightarrow> call_env \<Rightarrow> pass_input \<Rightarrow> bytes \<Rightarrow> bytes \<Rightarrow> bytes
     \<Rightarrow> bytes \<Rightarrow> bytes \<Rightarrow> ('e, 'u) firmware \<Rightarrow> (fw_output list \<times> initiator \<times> ('e, 'u) firmware) option" where
  "stage_and_confirm H L U network P n E i eph spriv dpub p q w =
     Option.bind (exchange_hello H L U network P n E i eph spriv dpub w) (\<lambda>(o1, c, w).
     Option.bind (exchange_command H L U network P n E i p c w) (\<lambda>(o2, c, w).
     Option.bind (exchange_command H L U network P n E i q c w) (\<lambda>(o3, c, w). Some (o1 @ o2 @ o3, c, w))))"

text \<open>The state of the firmware between two passes in which nothing is typed.\<close>

definition at_rest :: "u32 \<Rightarrow> 'u \<Rightarrow> ('e, 'u) firmware \<Rightarrow> bool" where
  "at_rest t e w \<longleftrightarrow> link_ok (fw_link w) \<and> core_ok (core (fw_device w)) \<and> fw_radio w \<and> exec_since_ms (fw_hid w) = 0 \<and>
     fw_port w = e \<and> t - fw_last_drain w < 5"

declare firmware_link(2) [simp]

lemma deliver_step:
  assumes "cooperative U" and "at_rest t0 e w" and "resting (core (fw_device w)) (port_time U e)"
    and "b = link_of (w\<lparr>fw_device := (fw_device w)\<lparr>ble_now_ms := port_time U e\<rparr>\<rparr>)"
    and "b' = fold (cmd_write_callback H E) fs b" and "link_ok b'" and "core_ok (core (link_device b'))"
  obtains outs v where "pass_exchange H L U network n E i fs w = Some (outs, gatt_read n b', v)" "reports_of outs = []"
    "fw_device v = link_device b'" "at_rest (port_time U e) (port_after U e) v"
proof -
  have w: "fw_port w = e" "exec_since_ms (fw_hid w) = 0" "fw_radio w" using assms(2) by (simp_all add: at_rest_def)
  obtain outs v where p: "main_pass H L U network (delivers E fs i) w = Some (outs, v)" "reports_of outs = []"
    "link_of v = b'" "fw_radio v" "fw_port v = port_after U e" "exec_since_ms (fw_hid v) = 0" "port_time U e - fw_last_drain v < 5"
    using pass_delivers [OF assms(1) _ w(2,3), where H = H and L = L and network = network and E = E and fs = fs and i = i]
      assms(3-5) w(1) by metis
  have "fw_device v = link_device b'" using p(3) put_get(4) by metis
  moreover have "link_ok (fw_link v)" using p(3) assms(6) firmware_link(2) by metis
  ultimately show ?thesis
    using that [of outs v] p assms(7) by (simp add: pass_exchange_def at_rest_def)
qed

lemma command_step:
  assumes "same_suite (hw_crypto H) P" and "cooperative U" and "0 < n" and "at_rest t0 e w" and "paired (session (fw_device w)) c"
    and "resting (core (fw_device w)) (port_time U e)" and "core_call p (port_time U e) = Some x"
    and "p \<noteq> []" and "is_core_command p" and "length p \<le> 1038"
    and "receive_nonce (session (fw_device w)) \<noteq> UINT64_MAX" and "send_nonce (session (fw_device w)) \<noteq> UINT64_MAX"
    and "fst (fst (core_step x (core (fw_device w)))) = BRIDGE_OK"
  obtains outs d v where "exchange_command H L U network P n E i p c w = Some (outs, d, v)" "reports_of outs = []"
    "at_rest (port_time U e) (port_after U e) v" "paired (session (fw_device v)) d"
    "core (fw_device v) = snd (core_step x (core (fw_device w)))"
    "receive_nonce (session (fw_device v)) = receive_nonce (session (fw_device w)) + 1"
    "send_nonce (session (fw_device v)) = send_nonce (session (fw_device w)) + 1"
proof -
  define b where "b = link_of (w\<lparr>fw_device := (fw_device w)\<lparr>ble_now_ms := port_time U e\<rparr>\<rparr>)"
  have b: "link_device b = (fw_device w)\<lparr>ble_now_ms := port_time U e\<rparr>" "link_ok b"
    using assms(4) by (simp_all add: b_def at_rest_def)
  have pre: "paired (session (link_device b)) c" "core_call p (ble_now_ms (link_device b)) = Some x"
    "receive_nonce (session (link_device b)) \<noteq> UINT64_MAX" "send_nonce (session (link_device b)) \<noteq> UINT64_MAX"
    using assms(5,7,11,12) by (simp_all add: b(1))
  obtain fs c1 b' d where x: "send_command P p c = (Some fs, c1)" "b' = fold (cmd_write_callback H E) fs b" "link_ok b'"
    "verify_transport_ack P (gatt_read n b') c1 = (verdict (status_code (fst (fst (core_step x (core (link_device b)))))), d)"
    "paired (session (link_device b')) d" "core (link_device b') = snd (core_step x (core (link_device b)))"
    "receive_nonce (session (link_device b')) = receive_nonce (session (link_device b)) + 1"
    "send_nonce (session (link_device b')) = send_nonce (session (link_device b)) + 1"
    by (rule core_command_exchange [OF assms(1) pre(1) b(2) assms(3,8,9) pre(2) assms(10) pre(3,4)])
  have "core_ok (core (link_device b'))"
    using core.step_keeps assms(4) unfolding x(6) b(1) by (simp add: at_rest_def)
  then obtain outs v where v: "pass_exchange H L U network n E i fs w = Some (outs, gatt_read n b', v)" "reports_of outs = []"
    "fw_device v = link_device b'" "at_rest (port_time U e) (port_after U e) v"
    using deliver_step [OF assms(2,4,6) b_def x(2,3)] by metis
  have "exchange_command H L U network P n E i p c w = Some (outs, d, v)"
    using x(1,4) v(1) assms(13) by (simp add: exchange_command_def b(1) verdict_def)
  then show ?thesis by (rule that) (use v(2-4) x(5-8) in \<open>simp_all add: b(1)\<close>)
qed

lemma completed_counters: "complete_handshake P response c = (Inr (), d) \<Longrightarrow> py_send_nonce d = 0 \<and> py_receive_nonce d = 0"
  by (auto simp: complete_handshake_def py_then_def py_split_def Let_def split: option.splits if_splits prod.splits sum.splits)

lemma hello_step:
  assumes suite: "same_suite (hw_crypto H) P" and port: "cooperative U" "0 < n" "at_rest t0 e w" "resting (core (fw_device w)) (port_time U e)"
    and d: "store_wf (controllers (fw_device w))" "store_lookup (controllers (fw_device w)) (py_public P spriv) = Some (k, r)"
      "device_static_priv (session (fw_device w)) = dpriv" "device_static_pub (session (fw_device w)) = py_public P dpriv"
      "controllers_set (session (fw_device w))" "env_keypair E = Some (rpriv, py_public P rpriv)"
    and dh: "py_exchange P eph (py_public P dpriv) = Some es" "py_exchange P spriv (py_public P dpriv) = Some ss"
      "py_exchange P eph (py_public P rpriv) = Some ee" "py_exchange P spriv (py_public P rpriv) = Some se"
  obtains outs c v where "exchange_hello H L U network P n E i eph spriv (py_public P dpriv) w = Some (outs, c, v)" "reports_of outs = []"
    "at_rest (port_time U e) (port_after U e) v" "paired (session (fw_device v)) c" "core (fw_device v) = core (fw_device w)"
    "receive_nonce (session (fw_device v)) = 0" "send_nonce (session (fw_device v)) = 0"
proof -
  define b where "b = link_of (w\<lparr>fw_device := (fw_device w)\<lparr>ble_now_ms := port_time U e\<rparr>\<rparr>)"
  have b: "link_device b = (fw_device w)\<lparr>ble_now_ms := port_time U e\<rparr>" "link_ok b"
    using port(3) by (simp_all add: b_def at_rest_def)
  have d': "store_wf (controllers (link_device b))" "store_lookup (controllers (link_device b)) (py_public P spriv) = Some (k, r)"
      "device_static_priv (session (link_device b)) = dpriv" "device_static_pub (session (link_device b)) = py_public P dpriv"
      "controllers_set (session (link_device b))" using d by (simp_all add: b(1))
  obtain fs c b' c' where x: "noise_hello P eph spriv (py_public P dpriv) = (Some fs, c)"
    "b' = fold (cmd_write_callback H E) fs b" "link_ok b'" "noise_finish P (gatt_read n b') c = (Inr (), c')"
    "link_device b' = (link_device b)\<lparr>session := session (link_device b')\<rparr>" "paired (session (link_device b')) c'"
    using handshake_exchange [OF suite b(2) port(2) d' d(6) dh] by metis
  have co: "core (link_device b') = core (fw_device w)" using arg_cong [OF x(5), of core] by (simp add: b(1))
  then have "core_ok (core (link_device b'))" using port(3) by (simp add: at_rest_def)
  then obtain outs v where v: "pass_exchange H L U network n E i fs w = Some (outs, gatt_read n b', v)" "reports_of outs = []"
    "fw_device v = link_device b'" "at_rest (port_time U e) (port_after U e) v"
    using deliver_step [OF port(1,3,4) b_def x(2,3)] by metis
  have "complete_handshake P (gatt_read n b') c = (Inr (), c')" using x(4) by (simp add: noise_finish_def split: if_splits)
  from completed_counters [OF this] have "receive_nonce (session (link_device b')) = 0" "send_nonce (session (link_device b')) = 0"
    using x(6) by (simp_all add: paired_def unat_eq_0)
  moreover have "exchange_hello H L U network P n E i eph spriv (py_public P dpriv) w = Some (outs, c', v)"
    using x(1,4) v(1) by (simp add: exchange_hello_def)
  ultimately show ?thesis using that [of outs c' v] v(2-4) x(6) co by simp
qed

text \<open>What the two commands do to the core.\<close>

lemma staged:
  assumes "core_ok c" and "abs_core c = (l, No_Job s)" and "stageable l own ident lay md fl raw ttl ks"
  shows "fst (fst (core_step (Op_Stage own ident lay md fl raw now ttl) c)) = BRIDGE_OK"
    and "abs_core (snd (core_step (Op_Stage own ident lay md fl raw now ttl) c)) = (l @ [(own, ident)], Waiting own ident now ttl ks)"
proof -
  have l: "\<not> job_active c" "ledger c = l" using assms(2) by (auto simp: abs_core_def job_active_def split: if_splits)
  have "bridge_core_stage c own ident lay md fl (Some raw) (length raw) now ttl = (BRIDGE_OK, staged_job c own ident lay md fl now ttl ks)"
    using stage_OK_stageable [OF assms(1) l(1)] assms(3) l(2) by blast
  then show "fst (fst (core_step (Op_Stage own ident lay md fl raw now ttl) c)) = BRIDGE_OK"
    "abs_core (snd (core_step (Op_Stage own ident lay md fl raw now ttl) c)) = (l @ [(own, ident)], Waiting own ident now ttl ks)"
    using l(2) by simp_all
qed

inductive_cases confirm_stepE: "protocol_step (Op_Confirm own ident now) (l, Waiting own ident since ttl ks) r p"

lemma confirmed:
  assumes "core_ok c" and "abs_core c = (l, Waiting own ident since ttl ks)" and "now - since < ttl"
  shows "fst (fst (core_step (Op_Confirm own ident now) c)) = BRIDGE_OK"
    and "abs_core (snd (core_step (Op_Confirm own ident now) c)) = (l, Typing own ident ks)"
proof -
  have "protocol_step (Op_Confirm own ident now) (l, Waiting own ident since ttl ks) (fst (core_step (Op_Confirm own ident now) c))
      (abs_core (snd (core_step (Op_Confirm own ident now) c)))"
    using core_refines_protocol [OF assms(1), of "Op_Confirm own ident now"] assms(2) by simp
  then show "fst (fst (core_step (Op_Confirm own ident now) c)) = BRIDGE_OK"
    "abs_core (snd (core_step (Op_Confirm own ident now) c)) = (l, Typing own ident ks)"
    by (rule confirm_stepE; use assms(3) in auto)+
qed

lemma stage_request_ok:
  assumes "cmd_stage_packet own cmd_id de txt allow_lf allow_tab raw = Some p" and "0 < own" and "0 < cmd_id"
  shows "request_ok (of_nat own) (of_nat cmd_id) (if de then BRIDGE_LAYOUT_DE else BRIDGE_LAYOUT_US)
    (if txt then BRIDGE_MODE_TEXT else BRIDGE_MODE_PASSWORD) (stage_flags allow_lf allow_tab) (length raw) BRIDGE_TTL_MS"
proof -
  note p = stage_packet_call [OF assms(1)]
  have b: "own < 2 ^ 32" "cmd_id < 2 ^ 32" using assms(1)
    by (simp_all add: cmd_stage_packet_def build_stage_packet_def split: if_splits)
  have "unat (of_nat own :: u32) = own" "unat (of_nat cmd_id :: u32) = cmd_id" using b by (simp_all add: unat_of_nat)
  then have "(of_nat own :: u32) \<noteq> 0" "(of_nat cmd_id :: u32) \<noteq> 0" using assms(2,3) by (metis unat_0 less_numeral_extra(3))+
  then show ?thesis using p(5-7) by (auto simp: request_ok_def stage_flags_def consts_def BRIDGE_TTL_MS_def)
qed

definition pass_time :: "'u usb_port \<Rightarrow> 'u \<Rightarrow> nat \<Rightarrow> u32" where
  "pass_time U e k = port_time U ((port_after U ^^ k) e)"

lemma gap_at_least:
  fixes a b c :: u32
  assumes "5 \<le> c - b" and "c - b < 0x80000000" and "b - a < 5"
  shows "5 \<le> c - a"
proof -
  have "c - a = (c - b) + (b - a)" by simp
  moreover have "unat ((c - b) + (b - a)) = unat (c - b) + unat (b - a)"
    by (rule unat_add_lem [THEN iffD1]) (use assms(2,3) in \<open>simp add: word_less_nat_alt\<close>)
  ultimately show ?thesis using assms(1) by (simp add: word_le_nat_alt)
qed

subsection \<open>Property\<close>

text \<open>C2: an enrolled client types its text. From a firmware at rest (in its invariant, no job, the session in any
  state) the control tool with an enrolled key and a host that is ready: the tool's handshake, stage
  command and confirmation, each fragmented over BLE and processed in one pass of the main loop, all succeed and
  their encrypted receipts verify, and in the next pass exactly the key strokes of the text leave through the USB endpoint, each pressed and
  released, in order; until then no report leaves. It takes a new pair of owner and identifier, room in the ledger, a
  text the layout can type, a confirmation within the lifetime, and 5 ms before the drain.\<close>

theorem sent_text_is_typed:
  assumes suite: "same_suite (hw_crypto H) P" and fw: "firmware_ok H w" "fw_radio w" "exec_since_ms (fw_hid w) = 0"
    and idle: "abs_core (core (fw_device w)) = (l, No_Job s)"
    and enrolled: "store_lookup (controllers (fw_device w)) (py_public P spriv) = Some (k, r)"
    and keys: "device_static_priv (session (fw_device w)) = dpriv" "device_static_pub (session (fw_device w)) = py_public P dpriv"
      "controllers_set (session (fw_device w))" "env_keypair E = Some (rpriv, py_public P rpriv)"
    and dh: "py_exchange P eph (py_public P dpriv) = Some es" "py_exchange P spriv (py_public P dpriv) = Some ss"
      "py_exchange P eph (py_public P rpriv) = Some ee" "py_exchange P spriv (py_public P rpriv) = Some se"
    and host: "cooperative U" "0 < n"
    and request: "cmd_stage_packet own cmd_id de txt allow_lf allow_tab raw = Some p" "build_confirm_packet own cmd_id = Some q"
      "0 < own" "0 < cmd_id" "(of_nat own, of_nat cmd_id) \<notin> set l" "length l < BRIDGE_REPLAY_CAPACITY"
      "text_keys (if de then BRIDGE_LAYOUT_DE else BRIDGE_LAYOUT_US) (if txt then BRIDGE_MODE_TEXT else BRIDGE_MODE_PASSWORD)
        (stage_flags allow_lf allow_tab) raw ks"
    and times: "pass_time U (fw_port w) 2 - pass_time U (fw_port w) 1 < BRIDGE_TTL_MS"
      "5 \<le> pass_time U (fw_port w) 3 - pass_time U (fw_port w) 2" "pass_time U (fw_port w) 3 - pass_time U (fw_port w) 2 < 0x80000000"
  shows "\<exists>outs c v outs' v'. stage_and_confirm H L U network P n E i eph spriv (py_public P dpriv) p q w = Some (outs, c, v) \<and>
    reports_of outs = [] \<and> main_pass H L U network i' v = Some (outs', v') \<and> reports_of outs' = key_reports ks"
proof -
  let ?e0 = "fw_port w" let ?e1 = "port_after U ?e0" let ?e2 = "port_after U ?e1" let ?e3 = "port_after U ?e2"
  let ?t1 = "port_time U ?e1" and ?t2 = "port_time U ?e2" and ?t3 = "port_time U ?e3"
  let ?lay = "if de then BRIDGE_LAYOUT_DE else BRIDGE_LAYOUT_US" and ?md = "if txt then BRIDGE_MODE_TEXT else BRIDGE_MODE_PASSWORD"
  let ?fl = "stage_flags allow_lf allow_tab" and ?own = "of_nat own :: u32" and ?id = "of_nat cmd_id :: u32"
  have t: "?t2 - ?t1 < BRIDGE_TTL_MS" "5 \<le> ?t3 - ?t2" "?t3 - ?t2 < 0x80000000"
    using times by (simp_all add: pass_time_def numeral_2_eq_2 numeral_3_eq_3)
  have dev: "store_wf (controllers (fw_device w))" "core_ok (core (fw_device w))"
    using firmware_device [OF fw(1)] by (simp_all add: device_inv_def device_ok_def)
  have rest: "at_rest (fw_last_drain w) ?e0 w" using fw dev(2) by (simp add: at_rest_def firmware_ok_def)
  obtain o1 c1 w1 where h: "exchange_hello H L U network P n E i eph spriv (py_public P dpriv) w = Some (o1, c1, w1)" "reports_of o1 = []"
    "at_rest (port_time U ?e0) ?e1 w1" "paired (session (fw_device w1)) c1" "core (fw_device w1) = core (fw_device w)"
    "receive_nonce (session (fw_device w1)) = 0" "send_nonce (session (fw_device w1)) = 0"
    by (rule hello_step [OF suite host rest resting_abs(1) [OF idle] dev(1) enrolled keys dh])
  note p = stage_packet_call [OF request(1)]
  have "stageable l ?own ?id ?lay ?md ?fl raw BRIDGE_TTL_MS ks"
    using stage_request_ok [OF request(1,3,4)] request(5-7) by (simp add: stageable_def)
  note s = staged [OF dev(2) idle this, of ?t1]
  have m: "(0 :: u64) \<noteq> UINT64_MAX" "(1 :: u64) \<noteq> UINT64_MAX" by (simp_all add: UINT64_MAX_def)
  have r1: "resting (core (fw_device w1)) ?t1" using resting_abs(1) idle h(5) by simp
  obtain o2 c2 w2 where a: "exchange_command H L U network P n E i p c1 w1 = Some (o2, c2, w2)" "reports_of o2 = []"
    "at_rest ?t1 ?e2 w2" "paired (session (fw_device w2)) c2"
    "core (fw_device w2) = snd (core_step (Op_Stage ?own ?id ?lay ?md ?fl raw ?t1 BRIDGE_TTL_MS) (core (fw_device w1)))"
    "receive_nonce (session (fw_device w2)) = 1" "send_nonce (session (fw_device w2)) = 1"
    by (rule command_step [OF suite host h(3,4) r1 p(1,3,2,4)]) (use m s(1) h(5-7) in simp_all)
  have waits: "abs_core (core (fw_device w2)) = (l @ [(?own, ?id)], Waiting ?own ?id ?t1 BRIDGE_TTL_MS ks)"
    using s(2) a(5) h(5) by simp
  have ok2: "core_ok (core (fw_device w2))" using a(3) by (simp add: at_rest_def)
  note c = confirmed [OF ok2 waits t(1)]
  note q = confirm_packet_call [OF request(2)]
  obtain o3 c3 w3 where b: "exchange_command H L U network P n E i q c2 w2 = Some (o3, c3, w3)" "reports_of o3 = []"
    "at_rest ?t2 ?e3 w3" "core (fw_device w3) = snd (core_step (Op_Confirm ?own ?id ?t2) (core (fw_device w2)))"
    by (rule command_step [OF suite host a(3,4) resting_abs(2) [OF waits t(1)] q(1,3,2,4)]) (use m c(1) a(6,7) in simp_all)
  have w3: "core_ok (core (fw_device w3))" "exec_since_ms (fw_hid w3) = 0" "5 \<le> port_time U (fw_port w3) - fw_last_drain w3"
    using b(3) gap_at_least [OF t(2,3)] by (simp_all add: at_rest_def)
  obtain outs' v' where "main_pass H L U network i' w3 = Some (outs', v')" "reports_of outs' = key_reports ks"
    using pass_types [OF host(1) w3(1) c(2) [folded b(4)] w3(2,3)] by blast
  then show ?thesis using h(1,2) a(1,2) b(1,2) by (simp add: stage_and_confirm_def)
qed

text \<open>
  A new unit whose recovery administrator holds \<open>demo_key\<close>, a host whose clock goes up by 10 ms a reading, and the
  text \<^verbatim>\<open>aA\<close>.
\<close>

definition peer_build :: build_keys where
  "peer_build = \<lparr>recovery_public = py_public demo_py demo_key, initiator_public = replicate 32 9, device_private = zero_key\<rparr>"

definition peer_env :: call_env where
  "peer_env = demo_env\<lparr>env_keypair := Some ([2], py_public demo_py [2])\<rparr>"

definition demo_host :: "nat usb_port" where
  "demo_host = demo_port\<lparr>port_clock := (\<lambda>e. (of_nat (10 * e), Suc e))\<rparr>"

lemma demo_host_facts: "cooperative demo_host" "pass_time demo_host 1 k = of_nat (10 * Suc k)"
proof -
  show "cooperative demo_host" by (simp add: cooperative_def demo_host_def demo_port_def)
  have "(port_after demo_host ^^ k) 1 = Suc k" for k
    by (induction k) (simp_all add: port_after_def demo_host_def demo_port_def)
  then show "pass_time demo_host 1 k = of_nat (10 * Suc k)"
    by (simp add: pass_time_def port_time_def demo_host_def demo_port_def)
qed

lemma peer_fresh: "fresh_start demo_hw peer_build demo_power blank_flash"
proof -
  have l: "length (py_public demo_py demo_key) = 32" by (simp add: demo_py_def demo_add_nth)
  have "py_public demo_py demo_key ! 1 = 7"
    by (simp add: demo_py_def demo_add_nth(3) clamp_def basepoint_def demo_key_def nth_append)
  moreover have "zero_key ! 1 = 0" "replicate 32 (9 :: u8) ! 1 = 9" by (simp_all add: zero_key_def)
  ultimately have "py_public demo_py demo_key \<noteq> zero_key" "replicate 32 9 \<noteq> py_public demo_py demo_key" "replicate 32 9 \<noteq> zero_key"
    by force+
  then show ?thesis using demo_fresh l by (simp add: fresh_start_def peer_build_def)
qed

lemma peer_starts:
  obtains calls w where "firmware_start demo_hw peer_build demo_power True [0] blank_flash () (1 :: nat) = Some (calls, w)"
    "store_lookup (controllers (fw_device w)) (py_public demo_py demo_key) = Some (0, ROLE_RECOVERY_ADMIN)"
    "device_static_priv (session (fw_device w)) = zero_key" "device_static_pub (session (fw_device w)) = py_public demo_py zero_key"
    "controllers_set (session (fw_device w))" "core (fw_device w) = bridge_core_init" "fw_port w = 1" "fw_radio w"
    "exec_since_ms (fw_hid w) = 0"
proof -
  let ?key = "py_public demo_py demo_key"
  have l: "length ?key = 32" "?key \<noteq> zero_key" "replicate 32 9 \<noteq> ?key"
    using peer_fresh by (simp_all add: fresh_start_def peer_build_def)
  obtain s m where s: "controller_setup demo_hw peer_build demo_power blank_flash = (True, s, m)" "store_wf s"
    "store_enrol (first_store ?key) 0 (replicate 32 9) ROLE_ADMIN = Some (s, 1)"
    using fresh_setup [OF peer_fresh] by (auto simp: peer_build_def)
  let ?n = "snd (noise_ik_init demo_crypto zero_key True zero_ctx)"
  have b: "device_boot demo_hw peer_build demo_power blank_flash = Some \<lparr>core = bridge_core_init, controllers = s, flash = m,
      session = ?n, cmd_ack_status = 0, ble_now_ms = 0\<rparr>"
    using s(1) by (simp add: device_boot_def demo_power_def) (simp add: demo_hw_def peer_build_def)
  have n: "?n = (snd (reset_handshake_state demo_crypto (zero_ctx\<lparr>controllers_set := True, device_static_priv := zero_key,
      device_static_pub := demo_add (clamp zero_key) basepoint\<rparr>)))"
    by (simp add: noise_ik_init_def Let_def demo_dh)
  then have "device_static_priv ?n = zero_key" "device_static_pub ?n = py_public demo_py zero_key" "controllers_set ?n"
    by (simp_all add: reset_handshake_state_def Let_def demo_mix demo_py_def demo_add_nth(2))
  moreover have "store_lookup s ?key = Some (0, ROLE_RECOVERY_ADMIN)"
    using lookup_after_enrol [OF first_store_wf [OF l(1,2)] _ l(1) s(3)] l(3) first_lookup [OF l(1,2) l(1)] by auto
  ultimately show ?thesis using that b by (simp add: firmware_start_def demo_power_def)
qed

theorem sent_text_is_typed_witness:
  "\<exists>calls w p q outs c v outs' v'.
     firmware_start demo_hw peer_build demo_power True [0] blank_flash () (1 :: nat) = Some (calls, w) \<and>
     cmd_stage_packet 1 7 False True False False [0x61, 0x41] = Some p \<and> build_confirm_packet 1 7 = Some q \<and>
     stage_and_confirm demo_hw demo_lwip demo_host True demo_py 22 peer_env demo_quiet [1] demo_key (py_public demo_py zero_key) p q w =
       Some (outs, c, v) \<and>
     main_pass demo_hw demo_lwip demo_host True demo_quiet v = Some (outs', v') \<and>
     reports_of outs' = [Press 0 4, Release, Press 2 4, Release]"
proof -
  obtain calls w where w: "firmware_start demo_hw peer_build demo_power True [0] blank_flash () (1 :: nat) = Some (calls, w)"
    "store_lookup (controllers (fw_device w)) (py_public demo_py demo_key) = Some (0, ROLE_RECOVERY_ADMIN)"
    "device_static_priv (session (fw_device w)) = zero_key" "device_static_pub (session (fw_device w)) = py_public demo_py zero_key"
    "controllers_set (session (fw_device w))" "core (fw_device w) = bridge_core_init" "fw_port w = 1" "fw_radio w"
    "exec_since_ms (fw_hid w) = 0" by (rule peer_starts)
  have "powered_on demo_hw (fw_device w)"
    using start_device [OF w(1)] peer_fresh unfolding powered_on_def fresh_start_def by blast
  then have "device_ok demo_hw (fw_device w)" using powered_on_ok by blast
  then have ok: "firmware_ok demo_hw w" by (intro firmware_start_ok [OF w(1) demo_unit_ok(1) _ demo_lengths]) simp_all
  have idle: "abs_core (core (fw_device w)) = ([], No_Job BRIDGE_STATE_EMPTY)"
    by (simp add: w(6) abs_core_def bridge_core_init_def ledger_def)
  have suite: "same_suite (hw_crypto demo_hw) demo_py" using demo_same_suite by (simp add: demo_hw_def)
  have x: "py_exchange demo_py a b = Some (demo_add (clamp a) b)" for a b by (simp add: demo_py_def)
  have e: "env_keypair peer_env = Some ([2], py_public demo_py [2])" by (simp add: peer_env_def)
  obtain p q where p: "cmd_stage_packet 1 7 False True False False [0x61, 0x41] = Some p" "build_confirm_packet 1 7 = Some q"
    by (simp add: cmd_stage_packet_def build_stage_packet_def build_confirm_packet_def)
  have t: "pass_time demo_host (fw_port w) 2 - pass_time demo_host (fw_port w) 1 < BRIDGE_TTL_MS"
    "5 \<le> pass_time demo_host (fw_port w) 3 - pass_time demo_host (fw_port w) 2"
    "pass_time demo_host (fw_port w) 3 - pass_time demo_host (fw_port w) 2 < 0x80000000"
    unfolding w(7) demo_host_facts(2) by (simp_all add: BRIDGE_TTL_MS_def BRIDGE_MAX_TTL_MS_def)
  have r: "(of_nat 1, of_nat 7) \<notin> set []" "length [] < BRIDGE_REPLAY_CAPACITY" "(0 :: nat) < 1" "(0 :: nat) < 7" "(0 :: nat) < 22"
    by (simp_all add: BRIDGE_REPLAY_CAPACITY_def)
  have k: "text_keys (if False then BRIDGE_LAYOUT_DE else BRIDGE_LAYOUT_US) (if True then BRIDGE_MODE_TEXT else BRIDGE_MODE_PASSWORD)
      (stage_flags False False) [0x61, 0x41] [\<lparr>modifier = 0, usage = 4\<rparr>, \<lparr>modifier = 2, usage = 4\<rparr>]"
    using demo_text by (simp add: stage_flags_def)
  show ?thesis
    using sent_text_is_typed [OF suite ok w(8,9) idle w(2-5) e x x x x demo_host_facts(1) r(5) p r(3,4,1,2) k t,
      of demo_lwip True demo_quiet "[1]" demo_quiet] w(1) p by (auto simp: key_reports_def)
qed

end
