(* ===== verification/Template_Keys.thy ===== *)
theory Template_Keys
  imports Device_Machine
begin

section \<open>The template keys (firmware/noise_ik_keys.example.h, firmware/recovery_admin_public.h)\<close>

text \<open>
  The key material of the repository as it is checked in: the public key of a recovery administrator that is to be
  replaced, and the header of generated keys with zeros in their place. A build that takes both is
  \<open>template_build\<close>.
\<close>

definition PICO_BRIDGE_RECOVERY_ADMIN_PUBLIC :: bytes where
  "PICO_BRIDGE_RECOVERY_ADMIN_PUBLIC =
    [0xb4, 0x9a, 0x20, 0xa6, 0x95, 0xf5, 0x28, 0x8f,
     0xb3, 0x74, 0x39, 0xb3, 0x84, 0x4b, 0xc3, 0x12,
     0x3b, 0xdb, 0x7b, 0xa9, 0xb1, 0xc8, 0x10, 0xd9,
     0x1b, 0xcc, 0xd8, 0xa4, 0x9f, 0xf0, 0x3f, 0x76]"

definition PICO_BRIDGE_DEVICE_STATIC_PRIVATE :: bytes where "PICO_BRIDGE_DEVICE_STATIC_PRIVATE = replicate 32 0"
definition PICO_BRIDGE_AUTHORIZED_INITIATOR_PUBLIC :: bytes where "PICO_BRIDGE_AUTHORIZED_INITIATOR_PUBLIC = replicate 32 0"

definition template_build :: build_keys where
  "template_build = \<lparr>recovery_public = PICO_BRIDGE_RECOVERY_ADMIN_PUBLIC,
     initiator_public = PICO_BRIDGE_AUTHORIZED_INITIATOR_PUBLIC, device_private = PICO_BRIDGE_DEVICE_STATIC_PRIVATE\<rparr>"

lemma template_recovery: "length PICO_BRIDGE_RECOVERY_ADMIN_PUBLIC = 32" "PICO_BRIDGE_RECOVERY_ADMIN_PUBLIC \<noteq> zero_key"
proof -
  have "PICO_BRIDGE_RECOVERY_ADMIN_PUBLIC ! 0 \<noteq> zero_key ! 0" by (simp add: PICO_BRIDGE_RECOVERY_ADMIN_PUBLIC_def zero_key_def)
  then show "PICO_BRIDGE_RECOVERY_ADMIN_PUBLIC \<noteq> zero_key" by metis
qed (simp add: PICO_BRIDGE_RECOVERY_ADMIN_PUBLIC_def)

text \<open>A zero key is never enrolled, so the first boot of the template build ends after the seeding.\<close>

lemma zero_key_refused: "controller_store_add s c (replicate 32 0) r = (CONTROLLER_STORE_ERR_ARGUMENT, s, None)"
  using key_is_zero_iff [of "replicate 32 0"] by (simp add: controller_store_add_def zero_key_def)

lemma template_setup:
  assumes "flash_layout H" and "sectors_are_erased (hw_store_base H) m" and "seed_safe B"
  shows "\<exists>m'. controller_setup H template_build B m = (False, first_store PICO_BRIDGE_RECOVERY_ADMIN_PUBLIC, m') \<and>
    stored H m' (first_store PICO_BRIDGE_RECOVERY_ADMIN_PUBLIC)"
  using fresh_seed [OF assms(1,2) template_recovery] assms(3) zero_key_refused no_daily_slots
  by (auto simp: controller_setup_def template_build_def PICO_BRIDGE_AUTHORIZED_INITIATOR_PUBLIC_def first_store_def)

text \<open>C27: the template keys leave their administrator behind. On a unit with erased store sectors the image built with the
  checked-in keys does not start; but its one boot has seeded the store, so that every later image, built with
  the owner's own keys, starts with the holder of the template key as the recovery administrator, which nobody can
  revoke, and does not know the owner's recovery key.\<close>

theorem template_administrator_stays:
  assumes "flash_layout H" and "sectors_are_erased (hw_store_base H) m" and "seed_safe B"
    and "length (recovery_public K) = 32" and "recovery_public K \<noteq> PICO_BRIDGE_RECOVERY_ADMIN_PUBLIC"
    and "length (initiator_public K) = 32" and "initiator_public K \<noteq> zero_key"
    and "initiator_public K \<notin> {PICO_BRIDGE_RECOVERY_ADMIN_PUBLIC, recovery_public K}" and "import_safe B'"
  shows "\<exists>s m' t m''. controller_setup H template_build B m = (False, s, m') \<and> device_boot H template_build B m = None \<and>
    controller_setup H K B' m' = (True, t, m'') \<and>
    store_lookup t PICO_BRIDGE_RECOVERY_ADMIN_PUBLIC = Some (0, ROLE_RECOVERY_ADMIN) \<and>
    store_lookup t (recovery_public K) = None \<and> store_lookup t (initiator_public K) = Some (1, ROLE_ADMIN) \<and>
    (\<forall>c. fst (controller_store_revoke t c 0) \<noteq> CONTROLLER_STORE_OK)"
proof -
  let ?key = PICO_BRIDGE_RECOVERY_ADMIN_PUBLIC
  obtain m' where a: "controller_setup H template_build B m = (False, first_store ?key, m')" "stored H m' (first_store ?key)"
    using template_setup [OF assms(1-3)] by blast
  then have b: "controller_store_flash_boot_or_seed (hw_erase H) (hw_program H) (seed_safe B') (hw_store_base H)
      (Some (recovery_public K)) m' = (CONTROLLER_STORE_OK, first_store ?key, m')"
    by (simp add: stored_def controller_store_flash_boot_or_seed_def)
  have "initiator_public K \<noteq> ?key" using assms(8) by simp
  from seeded_setup [OF assms(1,9) template_recovery assms(6,7) this b a(2)] obtain t m'' where
    c: "controller_setup H K B' m' = (True, t, m'')" "store_enrol (first_store ?key) 0 (initiator_public K) ROLE_ADMIN = Some (t, 1)"
    by blast
  note look = lookup_after_enrol [OF first_store_wf [OF template_recovery] assms(6) _ c(2)]
  have "store_lookup t ?key = Some (0, ROLE_RECOVERY_ADMIN)" "store_lookup t (recovery_public K) = None"
    "store_lookup t (initiator_public K) = Some (1, ROLE_ADMIN)"
    using look [OF template_recovery(1)] look [OF assms(4)] look [OF assms(6)] assms(5,8)
      first_lookup [OF template_recovery] template_recovery(1) assms(4) by auto
  moreover have "fst (controller_store_revoke t c 0) \<noteq> CONTROLLER_STORE_OK" for c
    by (simp add: controller_store_revoke_def)
  ultimately show ?thesis using a(1) c(1) by (simp add: device_boot_def)
qed

theorem template_administrator_stays_witness:
  "\<exists>s m' t m''. controller_setup demo_hw template_build demo_power blank_flash = (False, s, m') \<and>
     controller_setup demo_hw demo_build demo_power m' = (True, t, m'') \<and>
     store_lookup t PICO_BRIDGE_RECOVERY_ADMIN_PUBLIC = Some (0, ROLE_RECOVERY_ADMIN) \<and> store_lookup t demo_key = None"
proof -
  have k: "length (recovery_public demo_build) = 32" "length (initiator_public demo_build) = 32" "initiator_public demo_build \<noteq> zero_key"
    "initiator_public demo_build \<noteq> recovery_public demo_build" "flash_layout demo_hw" "sectors_are_erased (hw_store_base demo_hw) blank_flash"
    "seed_safe demo_power" "import_safe demo_power" using demo_fresh by (simp_all add: fresh_start_def)
  have "recovery_public demo_build ! 0 \<noteq> PICO_BRIDGE_RECOVERY_ADMIN_PUBLIC ! 0" "initiator_public demo_build ! 0 \<noteq> PICO_BRIDGE_RECOVERY_ADMIN_PUBLIC ! 0"
    by (simp_all add: demo_build_def demo_key_def PICO_BRIDGE_RECOVERY_ADMIN_PUBLIC_def)
  then have n: "recovery_public demo_build \<noteq> PICO_BRIDGE_RECOVERY_ADMIN_PUBLIC"
    "initiator_public demo_build \<notin> {PICO_BRIDGE_RECOVERY_ADMIN_PUBLIC, recovery_public demo_build}" using k(4) by auto
  show ?thesis using template_administrator_stays [OF k(5-7,1) n(1) k(2,3) n(2) k(8)] by (auto simp: demo_build_def)
qed

end
