(* ===== verification/Radio_Provision.thy ===== *)
theory Radio_Provision
  imports Radio_Config
begin

section \<open>Offline provisioning of the radio sector (tools/radio_provision.py)\<close>

text \<open>
  The provisioning tool packs credentials and a certificate with its key into a sector image of schema 1, which
  \<open>radio_config_parse\<close> reads. Strings are lists of code points; an exception is \<open>None\<close>.
  \<open>zlib.crc32\<close> is the CRC-32 of IEEE 802.3, which the firmware computes bit by bit.
\<close>

definition SECTOR_SIZE :: nat where "SECTOR_SIZE = 4096"
definition MAGIC :: bytes where "MAGIC = [0x50, 0x42, 0x52, 0x41, 0x44, 0x30, 0x31, 0]"

definition zlib_crc32 :: "bytes \<Rightarrow> u32" where
  "zlib_crc32 d = NOT (foldl crc_byte 0xffffffff d)"

definition ascii_field :: "nat list \<Rightarrow> nat \<Rightarrow> nat \<Rightarrow> bool" where
  "ascii_field v low high \<longleftrightarrow> low \<le> length v \<and> length v \<le> high \<and> (\<forall>c \<in> set v. 32 \<le> c \<and> c \<le> 126)"

definition pack_sector :: "nat list \<Rightarrow> nat list \<Rightarrow> bytes \<Rightarrow> bytes \<Rightarrow> bytes option" where
  "pack_sector name passphrase cert_der key_der =
     (if \<not> ascii_field name 1 32 \<or> \<not> ascii_field passphrase 20 63 then None
      else if length cert_der < 1 \<or> length cert_der > 2048 \<or> length key_der < 1 \<or> length key_der > 1024 then None
      else let a = map of_nat name; b = map of_nat passphrase;
          payload = nat_le16 (length a) @ nat_le16 (length b) @ nat_le16 (length cert_der) @ nat_le16 (length key_der) @
            a @ b @ cert_der @ key_der;
          total = 16 + length payload;
          header = MAGIC @ nat_le16 1 @ nat_le16 total @ le32_bytes (zlib_crc32 payload) in
        Some (header @ payload @ replicate (SECTOR_SIZE - total) 0xff))"

text \<open>The fields of a packed sector, read where the parser reads them.\<close>

lemma sector_fields:
  fixes a b c d s body :: bytes and total :: nat and crc :: u32
  assumes "s = MAGIC @ nat_le16 1 @ nat_le16 total @ le32_bytes crc @ nat_le16 (length a) @ nat_le16 (length b) @
      nat_le16 (length c) @ nat_le16 (length d) @ body"
    and "length a < 65536" "length b < 65536" "length c < 65536" "length d < 65536" "total < 65536"
  shows "take 8 s = magic1" and "radio_le16 s 8 = 1" and "radio_le16 s 10 = total" and "le32_at s 12 = crc"
    and "radio_le16 s 16 = length a" and "radio_le16 s 18 = length b" and "radio_le16 s 20 = length c" and "radio_le16 s 22 = length d"
    and "drop 24 s = body"
    and "drop 16 s = nat_le16 (length a) @ nat_le16 (length b) @ nat_le16 (length c) @ nat_le16 (length d) @ body"
proof -
  let ?h = "MAGIC @ nat_le16 1 @ nat_le16 total @ le32_bytes crc"
  have l: "length MAGIC = 8" by (simp add: MAGIC_def)
  show "take 8 s = magic1" "drop 24 s = body"
    "drop 16 s = nat_le16 (length a) @ nat_le16 (length b) @ nat_le16 (length c) @ nat_le16 (length d) @ body"
    by (simp_all add: assms(1) l) (simp add: MAGIC_def magic1_def)
  show "radio_le16 s 8 = 1" unfolding assms(1) by (rule radio_le16_nat) (simp_all add: l)
  show "radio_le16 s 10 = total" using radio_le16_nat [OF assms(6), of "MAGIC @ nat_le16 1" 10] by (simp add: assms(1) l)
  show "le32_at s 12 = crc" using le32_at_bytes [of "MAGIC @ nat_le16 1 @ nat_le16 total" 12] by (simp add: assms(1) l)
  show "radio_le16 s 16 = length a" using radio_le16_nat [OF assms(2), of ?h 16] by (simp add: assms(1) l)
  show "radio_le16 s 18 = length b"
    using radio_le16_nat [OF assms(3), of "?h @ nat_le16 (length a)" 18] by (simp add: assms(1) l)
  show "radio_le16 s 20 = length c"
    using radio_le16_nat [OF assms(4), of "?h @ nat_le16 (length a) @ nat_le16 (length b)" 20] by (simp add: assms(1) l)
  show "radio_le16 s 22 = length d"
    using radio_le16_nat [OF assms(5), of "?h @ nat_le16 (length a) @ nat_le16 (length b) @ nat_le16 (length c)" 22]
    by (simp add: assms(1) l)
qed

lemma ascii_field_printable: "ascii_field v low high \<Longrightarrow> printable (map of_nat v)"
proof -
  assume "ascii_field v low high"
  then have r: "32 \<le> c \<and> c \<le> 126" if "c \<in> set v" for c using that by (simp add: ascii_field_def)
  have "32 \<le> (of_nat c :: u8) \<and> (of_nat c :: u8) \<le> 126" if "c \<in> set v" for c
    using r [OF that] by (simp add: word_le_nat_alt unat_of_nat)
  then show ?thesis by (auto simp: printable_def)
qed

text \<open>A packed sector is accepted by the firmware, which reads exactly what was packed.\<close>

lemma packed_sector_parses:
  assumes "pack_sector name passphrase cert_der key_der = Some s"
  obtains cfg where "length s = 4096" "radio_config_parse (Some s) (length s) = (True, cfg)"
    "c_string (ssid cfg) = map of_nat name" "c_string (psk cfg) = map of_nat passphrase"
    "\<exists>i. cert cfg = Some i \<and> take (cert_len cfg) (drop i s) = cert_der"
    "\<exists>j. cert_key cfg = Some j \<and> take (key_len cfg) (drop j s) = key_der"
proof -
  define a b where ab: "a = (map of_nat name :: bytes)" "b = (map of_nat passphrase :: bytes)"
  have r: "ascii_field name 1 32" "ascii_field passphrase 20 63" "1 \<le> length cert_der" "length cert_der \<le> 2048"
    "1 \<le> length key_der" "length key_der \<le> 1024"
    using assms by (auto simp: pack_sector_def Suc_le_eq split: if_splits)
  have l: "1 \<le> length a" "length a \<le> 32" "20 \<le> length b" "length b \<le> 63" and p: "printable a" "printable b"
    using r(1,2) ascii_field_printable by (auto simp: ab ascii_field_def)
  define total :: nat where "total = 24 + length a + length b + length cert_der + length key_der"
  define fields where "fields = nat_le16 (length a) @ nat_le16 (length b) @ nat_le16 (length cert_der) @ nat_le16 (length key_der)"
  define payload where "payload = fields @ a @ b @ cert_der @ key_der"
  have t: "total \<le> 4096" "16 + length payload = total"
    using l r by (simp_all add: total_def payload_def fields_def)
  have pad: "4072 - (length a + (length b + (length cert_der + length key_der))) = 4096 - total"
    by (simp add: total_def)
  have s: "s = MAGIC @ nat_le16 1 @ nat_le16 total @ le32_bytes (zlib_crc32 payload) @ nat_le16 (length a) @ nat_le16 (length b) @
      nat_le16 (length cert_der) @ nat_le16 (length key_der) @ (a @ b @ cert_der @ key_der @ replicate (4096 - total) 0xff)"
    using assms r t(2) by (simp add: pad pack_sector_def Let_def SECTOR_SIZE_def payload_def fields_def flip: ab split: if_splits)
  have len: "length s = 4096" using t(1) unfolding s by (simp add: MAGIC_def total_def)
  have small: "length a < 65536" "length b < 65536" "length cert_der < 65536" "length key_der < 65536" "total < 65536"
    using l r t(1) by simp_all
  note f = sector_fields [OF s small]
  let ?tail = "replicate (4096 - total) 0xff :: bytes"
  have n: "s ! j = (a @ b @ cert_der @ key_der @ ?tail) ! (j - 24)" if "24 \<le> j" "j < 4096" for j
  proof -
    have "s ! j = drop 24 s ! (j - 24)" using that len by simp
    then show ?thesis by (simp only: f(9))
  qed
  have pr: "32 \<le> s ! j \<and> s ! j \<le> 126" if j: "24 \<le> j" "j < 24 + (length a + length b)" for j
  proof -
    have "s ! j = (a @ b) ! (j - 24)" using n [of j] j l by (auto simp: nth_append)
    moreover have "(a @ b) ! (j - 24) \<in> set (a @ b)" using j by (intro nth_mem) auto
    ultimately show ?thesis using p by (auto simp: printable_def)
  qed
  have er: "s ! j = 255" if j: "total \<le> j" "j < 4096" for j
    using n [of j] j by (auto simp: total_def nth_append)
  have "take (total - 16) (drop 16 s) = payload"
    unfolding f(10) using t(2) by (simp add: payload_def fields_def total_def take_Cons')
  then have "record_accepted s magic1 1 20 True"
    unfolding record_accepted_def Let_def f(1-8) using l r pr er t(1) by (simp add: total_def zlib_crc32_def)
  then have a1: "radio_config_parse (Some s) (length s) = (True, parsed_config s)"
    by (simp add: radio_config_parse_def len parse_common_accepted)
  have dd: "drop (24 + n) s = drop n (a @ b @ cert_der @ key_der @ ?tail)" for n
    using f(9) by (metis add.commute drop_drop)
  have d: "drop (24 + length a) s = b @ cert_der @ key_der @ ?tail"
    "drop (24 + length a + length b) s = cert_der @ key_der @ ?tail"
    "drop (24 + length a + length b + length cert_der) s = key_der @ ?tail"
    using dd [of "length a"] dd [of "length a + length b"] dd [of "length a + length b + length cert_der"]
    by (simp_all add: add.assoc)
  show ?thesis
    by (rule that [OF len a1])
      (use p d in \<open>simp_all add: parsed_config_def Let_def f(5-9) c_string_pad flip: ab\<close>)
qed

end
