(* ===== verification/Idle_Main.thy ===== *)
theory Idle_Main
  imports Usb_Descriptors
begin

section \<open>The bring-up image (firmware/idle_main.c)\<close>

text \<open>
  A keyboard that never presses a key: the HID callbacks and one pass of the main loop as a function. What the pass gets from outside (the
  callbacks during \<open>tud_task\<close>, the time, whether the endpoint is ready and accepts a report) is its input; reports and
  LED writes are its outputs.
\<close>

record idle_state =
  idle_leds :: u8
  idle_rate :: u8
  report_sent :: bool
  last_report_ms :: u32

definition idle_init :: idle_state where
  "idle_init = \<lparr>idle_leds = 0, idle_rate = 0, report_sent = False, last_report_ms = 0\<rparr>"

definition idle_get_report_cb :: "u8 \<Rightarrow> u8 \<Rightarrow> hid_report_type \<Rightarrow> nat \<Rightarrow> idle_state \<Rightarrow> bytes" where
  "idle_get_report_cb inst report_id report_type reqlen s =
     (if inst \<noteq> 0 \<or> report_id \<noteq> 0 then []
      else if report_type = Report_Input then replicate (if reqlen < 8 then reqlen else 8) 0
      else if report_type = Report_Output \<and> reqlen \<noteq> 0 then [idle_leds s]
      else [])"

datatype idle_event =
    Idle_Set_Report u8 u8 hid_report_type bytes
  | Idle_Set_Protocol
  | Idle_Set_Idle u8 u8
  | Idle_Mount
  | Idle_Umount
  | Idle_Suspend
  | Idle_Resume

fun idle_event_step :: "idle_event \<Rightarrow> idle_state \<Rightarrow> idle_state" where
  "idle_event_step (Idle_Set_Report inst report_id report_type buffer) s =
     (if inst = 0 \<and> report_id = 0 \<and> report_type = Report_Output \<and> length buffer = 1
      then s\<lparr>idle_leds := buffer ! 0 AND 0x1f\<rparr> else s)"
| "idle_event_step Idle_Set_Protocol s = s\<lparr>report_sent := False\<rparr>"
| "idle_event_step (Idle_Set_Idle inst rate) s = (if inst \<noteq> 0 then s else s\<lparr>idle_rate := rate, report_sent := False\<rparr>)"
| "idle_event_step Idle_Mount s = s\<lparr>report_sent := False\<rparr>"
| "idle_event_step Idle_Umount s = s\<lparr>report_sent := False, idle_leds := 0, idle_rate := 0\<rparr>"
| "idle_event_step Idle_Suspend s = s\<lparr>report_sent := False\<rparr>"
| "idle_event_step Idle_Resume s = s\<lparr>report_sent := False\<rparr>"

record idle_input =
  idle_events :: "idle_event list"
  idle_now :: u32
  hid_ready :: bool
  report_accepted :: bool

record idle_loop =
  idle_dev :: idle_state
  last_led_ms :: u32
  led_on :: bool

datatype idle_output = Idle_Report u8 bytes | Idle_Led bool

definition idle_report_due :: "u32 \<Rightarrow> idle_state \<Rightarrow> bool" where
  "idle_report_due now s \<longleftrightarrow>
     \<not> report_sent s \<or> (idle_rate s \<noteq> 0 \<and> now - last_report_ms s \<ge> 4 * ucast (idle_rate s))"

definition idle_report :: "idle_input \<Rightarrow> idle_state \<Rightarrow> idle_output list \<times> idle_state" where
  "idle_report i s =
     (if hid_ready i \<and> idle_report_due (idle_now i) s \<and> report_accepted i
      then ([Idle_Report 0 (replicate 6 0)], s\<lparr>report_sent := True, last_report_ms := idle_now i\<rparr>)
      else ([], s))"

definition idle_blink :: "bool \<Rightarrow> u32 \<Rightarrow> idle_loop \<Rightarrow> idle_output list \<times> idle_loop" where
  "idle_blink radio_ok now l =
     (if radio_ok \<and> now - last_led_ms l \<ge> 500
      then ([Idle_Led (\<not> led_on l)], l\<lparr>led_on := \<not> led_on l, last_led_ms := now\<rparr>)
      else ([], l))"

definition idle_pass :: "bool \<Rightarrow> idle_input \<Rightarrow> idle_loop \<Rightarrow> idle_output list \<times> idle_loop" where
  "idle_pass radio_ok i l =
     (case idle_report i (fold idle_event_step (idle_events i) (idle_dev l)) of (reports, s) \<Rightarrow>
      case idle_blink radio_ok (idle_now i) (l\<lparr>idle_dev := s\<rparr>) of (lights, l) \<Rightarrow> (reports @ lights, l))"

text \<open>The start: the identity, whether the radio works, and the first loop state; \<open>None\<close> is \<open>return 1\<close>.\<close>

definition idle_boot :: "bytes \<Rightarrow> int \<Rightarrow> bool \<Rightarrow> (bool \<times> usb_identity \<times> idle_loop) option" where
  "idle_boot serial cyw_result tusb_ok =
     (let radio_ok = (cyw_result = 0); u = bridge_usb_set_identity (Some serial) radio_ok usb_identity_init in
      if \<not> tusb_ok then None
      else Some (radio_ok, u, \<lparr>idle_dev = idle_init, last_led_ms = 0, led_on = False\<rparr>))"

definition idle_run :: "bool \<Rightarrow> idle_input list \<Rightarrow> idle_loop \<Rightarrow> idle_output list list \<times> idle_loop" where
  "idle_run radio_ok = run_ops (idle_pass radio_ok)"

subsection \<open>Reports\<close>

text \<open>The times of the reports in a run.\<close>

fun is_report :: "idle_output \<Rightarrow> bool" where
  "is_report (Idle_Report m keys) \<longleftrightarrow> True"
| "is_report (Idle_Led on) \<longleftrightarrow> False"

definition report_times :: "bool \<Rightarrow> idle_input list \<Rightarrow> idle_loop \<Rightarrow> u32 list" where
  "report_times radio_ok is l = concat (map2 (\<lambda>i outs. map (\<lambda>_. idle_now i) (filter is_report outs)) is (fst (idle_run radio_ok is l)))"

text \<open>Each time is at least the idle period after the one before it.\<close>

fun spaced :: "u32 \<Rightarrow> u32 \<Rightarrow> u32 list \<Rightarrow> bool" where
  "spaced period t [] \<longleftrightarrow> True"
| "spaced period t (t' # ts) \<longleftrightarrow> period \<le> t' - t \<and> spaced period t' ts"

lemma pass_report:
  assumes "idle_pass radio_ok i l = (outs, l')"
  shows "(filter is_report outs, idle_dev l') = idle_report i (fold idle_event_step (idle_events i) (idle_dev l))"
  using assms by (auto simp: idle_pass_def idle_report_def idle_blink_def split: if_splits prod.splits)

lemma run_Cons: "idle_run radio_ok (i # is) l =
    (case idle_pass radio_ok i l of (outs, l') \<Rightarrow> case idle_run radio_ok is l' of (rest, l'') \<Rightarrow> (outs # rest, l''))"
  by (simp add: idle_run_def split: prod.splits)

lemma outputs_zero: "x \<in> set (concat (fst (idle_run radio_ok is l))) \<Longrightarrow> is_report x \<Longrightarrow> x = Idle_Report 0 (replicate 6 0)"
proof (induction "is" arbitrary: l)
  case (Cons i "is")
  obtain outs l' where p: "idle_pass radio_ok i l = (outs, l')" by fastforce
  have "x = Idle_Report 0 (replicate 6 0)" if "x \<in> set outs"
  proof -
    have "x \<in> set (fst (idle_report i (fold idle_event_step (idle_events i) (idle_dev l))))"
      using that Cons.prems(2) unfolding pass_report [OF p, symmetric] by simp
    then show ?thesis by (simp add: idle_report_def split: if_splits)
  qed
  moreover have "x \<in> set outs \<or> x \<in> set (concat (fst (idle_run radio_ok is l')))"
    using Cons.prems(1) by (auto simp: run_Cons p split: prod.splits)
  ultimately show ?case using Cons.IH Cons.prems(2) by blast
qed (simp add: idle_run_def)

lemma quiet_spaced:
  assumes "\<forall>i \<in> set is. idle_events i = []" "report_sent (idle_dev l)"
  shows "spaced (4 * ucast (idle_rate (idle_dev l))) (last_report_ms (idle_dev l)) (report_times radio_ok is l) \<and>
    (idle_rate (idle_dev l) = 0 \<longrightarrow> report_times radio_ok is l = [])"
  using assms
proof (induction "is" arbitrary: l)
  case (Cons i "is")
  obtain outs l' where p: "idle_pass radio_ok i l = (outs, l')" by fastforce
  have r: "(filter is_report outs, idle_dev l') = idle_report i (idle_dev l)" using pass_report [OF p] Cons.prems(1) by simp
  have t: "report_times radio_ok (i # is) l = map (\<lambda>_. idle_now i) (filter is_report outs) @ report_times radio_ok is l'"
    by (simp add: report_times_def run_Cons p split: prod.split)
  have "report_sent (idle_dev l')" using r Cons.prems(2) by (auto simp: idle_report_def split: if_splits)
  note IH = Cons.IH [OF _ this]
  show ?case using IH r Cons.prems unfolding t
    by (auto simp: idle_report_def idle_report_due_def split: if_splits)
qed (simp add: report_times_def idle_run_def)

subsection \<open>The image is silent\<close>

text \<open>The bring-up image is silent and keeps the idle rate. Over every run of the loop, whatever the host sends, every report has no
  modifier and no key, and so has every report the host asks for; and while no callback arrives after a report was sent, the next
  reports are at least the idle period of 4 ms times the rate apart, counted on the wrapping clock from the last one, and there are none
  at all when the rate is 0.\<close>

lemma idle_image_is_silent:
  "(\<forall>x \<in> set (concat (fst (idle_run radio_ok is l))). is_report x \<longrightarrow> x = Idle_Report 0 (replicate 6 0)) \<and>
   set (idle_get_report_cb inst report_id Report_Input reqlen (idle_dev l)) \<subseteq> {0} \<and>
   ((\<forall>i \<in> set is. idle_events i = []) \<and> report_sent (idle_dev l) \<longrightarrow>
      spaced (4 * ucast (idle_rate (idle_dev l))) (last_report_ms (idle_dev l)) (report_times radio_ok is l) \<and>
      (idle_rate (idle_dev l) = 0 \<longrightarrow> report_times radio_ok is l = []))"
proof (intro conjI impI)
  show "\<forall>x \<in> set (concat (fst (idle_run radio_ok is l))). is_report x \<longrightarrow> x = Idle_Report 0 (replicate 6 0)"
    using outputs_zero by blast
  show "set (idle_get_report_cb inst report_id Report_Input reqlen (idle_dev l)) \<subseteq> {0}"
    by (auto simp: idle_get_report_cb_def)
qed (use quiet_spaced in blast)+

end
