(* ===== verification/Http_Parser.thy ===== *)
theory Http_Parser
  imports Bridge_Prelude
begin

section \<open>The HTTP request parser (firmware/radio/http_parser.c)\<close>

text \<open>
  A parser of whole requests without a body. The counted loops are written with the number of iterations
  that are left; a loop that only searches is \<open>scan_while\<close>, whose result is the index where it stops. What the parser
  accepts and answers is stated as a grammar: a request is rendered from its parts.
\<close>

definition RADIO_HTTP_MAX :: nat where "RADIO_HTTP_MAX = 1024"

datatype radio_http_result = HTTP_MORE | HTTP_ROOT | HTTP_HEALTH | HTTP_BAD | HTTP_NOT_FOUND | HTTP_METHOD | HTTP_LARGE

text \<open>String literals: the characters of the messages.\<close>

definition ascii :: "string \<Rightarrow> bytes" where
  "ascii s = map of_char s"

definition http_eq :: "bytes \<Rightarrow> nat \<Rightarrow> nat \<Rightarrow> string \<Rightarrow> bool" where
  "http_eq p i n s \<longleftrightarrow> n = length s \<and> take n (drop i p) = ascii s"

definition lower :: "u8 \<Rightarrow> u8" where
  "lower c = (if 0x41 \<le> c \<and> c \<le> 0x5a then c + 0x20 else c)"

fun ieq_loop :: "bytes \<Rightarrow> nat \<Rightarrow> bytes \<Rightarrow> bool" where
  "ieq_loop p i [] \<longleftrightarrow> True"
| "ieq_loop p i (c # s) \<longleftrightarrow> (if lower (p ! i) \<noteq> c then False else ieq_loop p (Suc i) s)"

definition http_ieq :: "bytes \<Rightarrow> nat \<Rightarrow> nat \<Rightarrow> string \<Rightarrow> bool" where
  "http_ieq p i n s \<longleftrightarrow> (if n \<noteq> length s then False else ieq_loop p i (ascii s))"

definition http_token :: "u8 \<Rightarrow> bool" where
  "http_token c \<longleftrightarrow> (0x61 \<le> c \<and> c \<le> 0x7a) \<or> (0x41 \<le> c \<and> c \<le> 0x5a) \<or> (0x30 \<le> c \<and> c \<le> 0x39) \<or>
     (c \<noteq> 0 \<and> c \<in> set (ascii ''!#$%&'' @ [0x27] @ ascii ''*+-.^_`|~''))"

abbreviation CR :: u8 where "CR \<equiv> 13"
abbreviation LF :: u8 where "LF \<equiv> 10"

text \<open>The first loop: every byte is checked; the result is \<open>end\<close>, 0 while no empty line was seen.\<close>

definition http_byte_bad :: "bytes \<Rightarrow> nat \<Rightarrow> nat \<Rightarrow> bool" where
  "http_byte_bad p n i \<longleftrightarrow>
     (if p ! i = CR then i + 1 < n \<and> p ! (i + 1) \<noteq> LF
      else if p ! i = LF then i = 0 \<or> p ! (i - 1) \<noteq> CR
      else p ! i < 32 \<or> p ! i > 126)"

definition http_empty_line :: "bytes \<Rightarrow> nat \<Rightarrow> bool" where
  "http_empty_line p i \<longleftrightarrow> 3 \<le> i \<and> take 4 (drop (i - 3) p) = [CR, LF, CR, LF]"

fun http_scan :: "bytes \<Rightarrow> nat \<Rightarrow> nat \<Rightarrow> nat \<Rightarrow> nat \<Rightarrow> nat option" where
  "http_scan p n i 0 fin = Some fin"
| "http_scan p n i (Suc m) fin =
     (if http_byte_bad p n i then None
      else http_scan p n (Suc i) m (if http_empty_line p i \<and> fin = 0 then i + 1 else fin))"

text \<open>\<open>while (i < i + m && P(i)) i++\<close> for at most \<open>m\<close> steps, and the same backwards.\<close>

fun scan_while :: "(nat \<Rightarrow> bool) \<Rightarrow> nat \<Rightarrow> nat \<Rightarrow> nat" where
  "scan_while P i 0 = i"
| "scan_while P i (Suc m) = (if P i then scan_while P (Suc i) m else i)"

fun scan_back :: "bytes \<Rightarrow> nat \<Rightarrow> nat \<Rightarrow> nat" where
  "scan_back p low 0 = 0"
| "scan_back p low (Suc i) = (if low < Suc i \<and> p ! i = 32 then scan_back p low i else Suc i)"

text \<open>One header line from \<open>pos\<close> to \<open>stop\<close>: the flags \<open>host\<close> and \<open>cl\<close>, \<open>None\<close> for \<open>HTTP_BAD\<close>.\<close>

definition http_header :: "bytes \<Rightarrow> nat \<Rightarrow> nat \<Rightarrow> bool \<times> bool \<Rightarrow> (bool \<times> bool) option" where
  "http_header p pos stop flags =
     (case flags of (host, cl) \<Rightarrow>
      if stop = pos then None
      else let colon = scan_while (\<lambda>i. http_token (p ! i)) pos (stop - pos) in
        if colon = pos \<or> stop \<le> colon \<or> p ! colon \<noteq> 0x3a then None
        else let val = scan_while (\<lambda>i. p ! i = 32) (colon + 1) (stop - (colon + 1)); vend = scan_back p val stop in
          if http_ieq p pos (colon - pos) ''host'' then
            (if host \<or> \<not> (http_eq p val (vend - val) ''192.168.4.1'' \<or> http_eq p val (vend - val) ''192.168.4.1:443'')
             then None else Some (True, cl))
          else if http_ieq p pos (colon - pos) ''content-length'' then
            (if cl \<or> \<not> http_eq p val (vend - val) ''0'' then None else Some (host, True))
          else if http_ieq p pos (colon - pos) ''transfer-encoding'' \<or> http_ieq p pos (colon - pos) ''expect'' \<or>
            http_ieq p pos (colon - pos) ''upgrade'' then None
          else Some (host, cl))"

lemma scan_while_ge: "i \<le> scan_while P i m"
  by (induction m arbitrary: i) (auto intro: Suc_leD)

function http_headers :: "bytes \<Rightarrow> nat \<Rightarrow> nat \<Rightarrow> bool \<times> bool \<Rightarrow> (bool \<times> bool) option" where
  "http_headers p n pos flags =
     (if \<not> pos < n - 2 then Some flags
      else let stop = scan_while (\<lambda>i. p ! i \<noteq> CR) pos (n - 1 - pos) in
        (case http_header p pos stop flags of None \<Rightarrow> None | Some flags \<Rightarrow> http_headers p n (stop + 2) flags))"
  by pat_completeness auto
termination
proof (relation "measure (\<lambda>(p, n, pos, flags). n - pos)")
  fix p :: bytes and n pos stop :: nat and flags flags' :: "bool \<times> bool"
  assume "\<not> \<not> pos < n - 2" and "stop = scan_while (\<lambda>i. p ! i \<noteq> CR) pos (n - 1 - pos)"
  then show "((p, n, stop + 2, flags'), (p, n, pos, flags)) \<in> measure (\<lambda>(p, n, pos, flags). n - pos)"
    using scan_while_ge [of pos "\<lambda>i. p ! i \<noteq> CR" "n - 1 - pos"] by auto
qed simp

declare http_headers.simps [simp del]

text \<open>After the headers: the method and the path decide.\<close>

definition http_route :: "bytes \<Rightarrow> nat \<Rightarrow> nat \<Rightarrow> nat \<Rightarrow> radio_http_result" where
  "http_route p m path pathend =
     (if \<not> http_eq p 0 m ''GET'' then HTTP_METHOD
      else if http_eq p path (pathend - path) ''/'' then HTTP_ROOT
      else if http_eq p path (pathend - path) ''/health'' then HTTP_HEALTH
      else HTTP_NOT_FOUND)"

text \<open>The request line in front of \<open>line\<close>: the index behind the method and the index behind the path.\<close>

definition http_request_line :: "bytes \<Rightarrow> nat \<Rightarrow> (nat \<times> nat) option" where
  "http_request_line p line =
     (let m = scan_while (\<lambda>i. http_token (p ! i)) 0 line in
      if m = 0 \<or> line \<le> m \<or> p ! m \<noteq> 32 then None
      else let path = m + 1; pathend = scan_while (\<lambda>i. p ! i \<noteq> 32) path (line - path) in
        if pathend = path \<or> p ! path \<noteq> 0x2f \<or> line \<le> pathend \<or>
           \<not> http_eq p (pathend + 1) (line - pathend - 1) ''HTTP/1.1'' then None
        else Some (m, pathend))"

definition radio_http_parse :: "bytes option \<Rightarrow> nat \<Rightarrow> radio_http_result" where
  "radio_http_parse data n =
     (if n > RADIO_HTTP_MAX then HTTP_LARGE
      else (case data of None \<Rightarrow> if n \<noteq> 0 then HTTP_BAD else HTTP_MORE
        | Some p \<Rightarrow>
          (case http_scan p n 0 n 0 of None \<Rightarrow> HTTP_BAD
           | Some fin \<Rightarrow>
            if fin = 0 then (if n = RADIO_HTTP_MAX then HTTP_LARGE else HTTP_MORE)
            else if fin \<noteq> n then HTTP_BAD
            else let line = scan_while (\<lambda>i. \<not> (p ! i = CR \<and> p ! (i + 1) = LF)) 0 (n - 1) in
              (case http_request_line p line of None \<Rightarrow> HTTP_BAD
               | Some (m, pathend) \<Rightarrow>
                (case http_headers p n (line + 2) (False, False) of None \<Rightarrow> HTTP_BAD
                 | Some (host, cl) \<Rightarrow> if \<not> host then HTTP_BAD else http_route p m (m + 1) pathend)))))"

lemma ascii_chars: "ascii ''!#$%&'' @ [0x27] @ ascii ''*+-.^_`|~'' =
   [0x21, 0x23, 0x24, 0x25, 0x26, 0x27, 0x2a, 0x2b, 0x2d, 0x2e, 0x5e, 0x5f, 0x60, 0x7c, 0x7e]"
  by (simp add: ascii_def)

lemmas http_token_simps = http_token_def [unfolded ascii_chars]

lemma separators: "\<not> http_token 32" "\<not> http_token 0x3a" "\<not> http_token CR" "\<not> http_token LF"
  by (simp_all add: http_token_simps)

lemma token_range: "http_token c \<Longrightarrow> 32 < c \<and> c \<le> 126"
  by (auto simp: http_token_simps word_le_nat_alt word_less_nat_alt)

subsection \<open>Searches on lists\<close>

lemma scan_while_length:
  "length (takeWhile Q (take m (drop i p))) = k \<Longrightarrow> i + m \<le> length p \<Longrightarrow>
     scan_while (\<lambda>j. Q (p ! j)) i m = i + k"
proof (induction m arbitrary: i k)
  case (Suc m)
  then have "drop i p = p ! i # drop (Suc i) p" by (simp add: Cons_nth_drop_Suc)
  then show ?case using Suc by (auto split: if_splits)
qed simp

definition trim_right :: "bytes \<Rightarrow> bytes" where
  "trim_right xs = rev (dropWhile (\<lambda>c. c = 32) (rev xs))"

definition trim :: "bytes \<Rightarrow> bytes" where
  "trim xs = trim_right (dropWhile (\<lambda>c. c = 32) xs)"

lemma trim_right_snoc: "trim_right (xs @ [x]) = (if x = 32 then trim_right xs else xs @ [x])"
  by (simp add: trim_right_def)

lemma scan_back_length:
  "low \<le> i \<Longrightarrow> i \<le> length p \<Longrightarrow>
     scan_back p low i = low + length (trim_right (take (i - low) (drop low p)))"
proof (induction i)
  case 0
  then show ?case by (simp add: trim_right_def)
next
  case (Suc i)
  show ?case
  proof (cases "low = Suc i")
    case True
    then show ?thesis by (simp add: trim_right_def)
  next
    case False
    then have "take (Suc i - low) (drop low p) = take (i - low) (drop low p) @ [p ! i]"
      using Suc.prems by (simp add: Suc_diff_le take_Suc_conv_app_nth)
    then show ?thesis using Suc False by (simp add: trim_right_snoc)
  qed
qed

lemma trim_right_take: "trim_right xs = take (length (trim_right xs)) xs"
  by (metis append_eq_conv_conj dropWhile_eq_drop rev_drop rev_rev_ident trim_right_def
      append_take_drop_id)

lemma length_trim_right: "length (trim_right xs) \<le> length xs"
  using length_dropWhile_le [of _ "rev xs"] by (simp add: trim_right_def)

lemma ieq_loop_iff: "i + length s \<le> length p \<Longrightarrow> ieq_loop p i s \<longleftrightarrow> map lower (take (length s) (drop i p)) = s"
proof (induction s arbitrary: i)
  case (Cons c s)
  then have "drop i p = p ! i # drop (Suc i) p" by (simp add: Cons_nth_drop_Suc)
  then show ?case using Cons by auto
qed simp

lemma http_ieq_iff: "i + n \<le> length p \<Longrightarrow> http_ieq p i n s \<longleftrightarrow> map lower (take n (drop i p)) = ascii s"
  using ieq_loop_iff [of i "ascii s" p] by (auto simp: http_ieq_def ascii_def dest: arg_cong [where f = length])

lemma http_eq_iff: "i + n \<le> length p \<Longrightarrow> http_eq p i n s \<longleftrightarrow> take n (drop i p) = ascii s"
  by (auto simp: http_eq_def ascii_def dest: arg_cong [where f = length])

subsection \<open>One header line\<close>

definition http_field :: "bytes \<Rightarrow> bytes \<Rightarrow> bool \<times> bool \<Rightarrow> (bool \<times> bool) option" where
  "http_field name v flags =
     (case flags of (host, cl) \<Rightarrow>
      if map lower name = ascii ''host'' then
        (if host \<or> v \<noteq> ascii ''192.168.4.1'' \<and> v \<noteq> ascii ''192.168.4.1:443'' then None else Some (True, cl))
      else if map lower name = ascii ''content-length'' then
        (if cl \<or> v \<noteq> ascii ''0'' then None else Some (host, True))
      else if map lower name \<in> {ascii ''transfer-encoding'', ascii ''expect'', ascii ''upgrade''} then None
      else Some (host, cl))"

lemma name_split:
  "(\<exists>name v. l = name @ 0x3a # v \<and> name \<noteq> [] \<and> (\<forall>c \<in> set name. http_token c) \<and> R name v) \<longleftrightarrow>
     (let k = length (takeWhile http_token l) in 0 < k \<and> k < length l \<and> l ! k = 0x3a \<and> R (take k l) (drop (Suc k) l))"
  (is "?L \<longleftrightarrow> ?G")
proof
  assume ?L
  then obtain name v where l: "l = name @ 0x3a # v" "name \<noteq> []" "\<forall>c \<in> set name. http_token c" "R name v" by blast
  then have "takeWhile http_token l = name" using separators(2) by simp
  then show ?G using l by simp
next
  assume g: ?G
  let ?k = "length (takeWhile http_token l)"
  have "take ?k l = takeWhile http_token l" by (metis takeWhile_eq_take)
  moreover have "l = take ?k l @ 0x3a # drop (Suc ?k) l" using g by (metis id_take_nth_drop)
  ultimately show ?L using g set_takeWhileD [of _ http_token l] by (metis length_greater_0_conv)
qed

lemma take_drop_mid: "j + k \<le> length l \<Longrightarrow> take k (drop (length pre + j) (pre @ l @ post)) = take k (drop j l)"
  by simp

lemma http_header_eval:
  assumes "scan_while (\<lambda>i. http_token (p ! i)) pos (stop - pos) = colon" "pos < colon" "colon < stop" "p ! colon = 0x3a"
    and "scan_while (\<lambda>i. p ! i = 32) (colon + 1) (stop - (colon + 1)) = val" "scan_back p val stop = vend"
    and "take (colon - pos) (drop pos p) = name" "take (vend - val) (drop val p) = v"
    and "colon \<le> length p" "val \<le> vend" "vend \<le> length p"
  shows "http_header p pos stop flags = http_field name v flags"
proof -
  have i: "http_ieq p pos (colon - pos) s \<longleftrightarrow> map lower name = ascii s" for s
    using http_ieq_iff [of pos "colon - pos" p s] assms by simp
  have e: "http_eq p val (vend - val) s \<longleftrightarrow> v = ascii s" for s
    using http_eq_iff [of val "vend - val" p s] assms by simp
  show ?thesis
    using assms(2-4) unfolding http_header_def http_field_def Let_def assms(1,5,6) i e by (cases flags) simp
qed

lemma http_header_rejects:
  assumes "scan_while (\<lambda>i. http_token (p ! i)) pos (stop - pos) = colon" "\<not> (pos < colon \<and> colon < stop \<and> p ! colon = 0x3a)"
  shows "http_header p pos stop flags = None"
proof -
  have "colon = pos \<or> stop \<le> colon \<or> p ! colon \<noteq> 0x3a"
    using assms(2) scan_while_ge [of pos] unfolding assms(1) [symmetric] by (meson le_neq_implies_less not_le)
  then show ?thesis by (simp only: http_header_def assms(1) Let_def if_True if_cancel split: prod.split) simp
qed

lemma http_header_line:
  assumes p: "p = pre @ l @ post"
  shows "http_header p (length pre) (length pre + length l) flags = Some flags' \<longleftrightarrow>
    (\<exists>name v. l = name @ 0x3a # v \<and> name \<noteq> [] \<and> (\<forall>c \<in> set name. http_token c) \<and> http_field name (trim v) flags = Some flags')"
proof -
  let ?a = "length pre" and ?k = "length (takeWhile http_token l)" and ?e = "length pre + length l"
  have k: "scan_while (\<lambda>i. http_token (p ! i)) ?a (length l) = ?a + ?k"
    by (rule scan_while_length) (simp_all add: p)
  have at: "?k < length l \<Longrightarrow> p ! (?a + ?k) = l ! ?k" by (simp add: p nth_append)
  show ?thesis
  proof (cases "0 < ?k \<and> ?k < length l \<and> l ! ?k = 0x3a")
    case False
    then show ?thesis
      using http_header_rejects [of p ?a ?e "?a + ?k"] k at unfolding name_split Let_def by auto
  next
    case True
    let ?v = "drop (Suc ?k) l"
    let ?s = "length (takeWhile (\<lambda>c. c = 32) ?v)"
    let ?val = "?a + Suc ?k + ?s"
    have val: "scan_while (\<lambda>i. p ! i = 32) (?a + Suc ?k) (length l - Suc ?k) = ?val"
      by (rule scan_while_length) (use True in \<open>auto simp: p\<close>)
    have s: "?s + Suc ?k \<le> length l" using True length_takeWhile_le [of "\<lambda>c. c = 32" ?v] unfolding length_drop by linarith
    then have tk: "take (?e - ?val) (drop ?val p) = dropWhile (\<lambda>c. c = 32) ?v"
      unfolding p using take_drop_mid [of "Suc ?k + ?s" "length l - (Suc ?k + ?s)" l pre post]
      by (simp add: dropWhile_eq_drop ac_simps)
    have last: "scan_back p ?val ?e = ?val + length (trim ?v)"
      using scan_back_length [of ?val ?e p] s unfolding tk by (simp add: trim_def p)
    have shorter: "length (trim ?v) \<le> ?e - ?val"
      using length_trim_right [of "dropWhile (\<lambda>c. c = 32) ?v"] s unfolding trim_def by (simp add: dropWhile_eq_drop)
    have trim: "take (length (trim ?v)) (drop ?val p) = trim ?v"
    proof -
      have "take (length (trim ?v)) (drop ?val p) = take (length (trim ?v)) (take (?e - ?val) (drop ?val p))"
        by (simp only: take_take min_absorb1 [OF shorter])
      also have "\<dots> = trim ?v"
        unfolding tk trim_def by (rule trim_right_take [symmetric])
      finally show ?thesis .
    qed
    have fits: "?val + length (trim ?v) \<le> length p"
      using shorter s by (simp add: p)
    have name: "take ?k (drop ?a p) = take ?k l" using True by (simp add: p)
    have fit: "?a + ?k \<le> length p" using True by (simp add: p)
    have "http_header p ?a ?e flags = http_field (take ?k l) (trim ?v) flags"
    proof (rule http_header_eval [where colon = "?a + ?k" and val = ?val and vend = "?val + length (trim ?v)"])
      show "scan_while (\<lambda>i. p ! i = 32) (?a + ?k + 1) (?e - (?a + ?k + 1)) = ?val" using val by simp
    qed (use True k at last name trim fit fits in simp_all)
    then show ?thesis
      unfolding name_split Let_def using True by simp
  qed
qed

subsection \<open>The header loop\<close>

fun header_bytes :: "bytes \<times> bytes \<Rightarrow> bytes" where
  "header_bytes (name, v) = name @ 0x3a # v"

fun header_ok :: "bytes \<times> bytes \<Rightarrow> bool" where
  "header_ok (name, v) \<longleftrightarrow> name \<noteq> [] \<and> (\<forall>c \<in> set name. http_token c)"

fun http_fields :: "(bytes \<times> bytes) list \<Rightarrow> bool \<times> bool \<Rightarrow> (bool \<times> bool) option" where
  "http_fields [] flags = Some flags"
| "http_fields ((name, v) # hs) flags = Option.bind (http_field name (trim v) flags) (http_fields hs)"

definition crlf_lines :: "bytes list \<Rightarrow> bytes" where
  "crlf_lines ls = concat (map (\<lambda>l. l @ [CR, LF]) ls)"

lemma crlf_lines_simps [simp]: "crlf_lines [] = []" "crlf_lines (l # ls) = l @ CR # LF # crlf_lines ls"
  "crlf_lines (ls @ ls') = crlf_lines ls @ crlf_lines ls'"
  by (simp_all add: crlf_lines_def)

lemma scan_to_CR:
  assumes "p = pre @ l @ CR # post" "CR \<notin> set l" "length l < m" "length pre + m \<le> length p"
  shows "scan_while (\<lambda>i. p ! i \<noteq> CR) (length pre) m = length pre + length l"
proof (rule scan_while_length)
  obtain k where "m = length l + Suc k" using assms(3) less_iff_Suc_add by (metis add_Suc_right)
  moreover have "takeWhile (\<lambda>c. c \<noteq> CR) l = l" using assms(2) by auto
  ultimately show "length (takeWhile (\<lambda>c. c \<noteq> CR) (take m (drop (length pre) p))) = length l"
    using assms(2) by (simp add: assms(1) takeWhile_append)
qed (rule assms(4))

lemma headers_cons:
  "http_field name (trim v) flags = Some f \<and> http_fields hs f = Some flags' \<Longrightarrow> http_fields ((name, v) # hs) flags = Some flags'"
  by simp

lemma http_headers_lines:
  assumes "\<forall>l \<in> set ls. CR \<notin> set l" "p = pre @ crlf_lines ls @ [CR, LF] @ post" "n = length p - length post"
  shows "http_headers p n (length pre) flags = Some flags' \<longleftrightarrow>
    (\<exists>hs. ls = map header_bytes hs \<and> (\<forall>h \<in> set hs. header_ok h) \<and> http_fields hs flags = Some flags')"
  using assms
proof (induction ls arbitrary: pre flags)
  case Nil
  then show ?case by (simp add: http_headers.simps)
next
  case (Cons l ls)
  let ?pre = "pre @ l @ [CR, LF]" and ?rest = "LF # crlf_lines ls @ [CR, LF] @ post"
  have p: "p = pre @ l @ CR # ?rest" using Cons.prems(2) by simp
  have n: "n = length pre + length l + length (crlf_lines ls) + 4" using Cons.prems(3) by (simp add: p)
  have stop: "scan_while (\<lambda>i. p ! i \<noteq> CR) (length pre) (n - 1 - length pre) = length pre + length l"
    by (rule scan_to_CR [OF p]) (use Cons.prems in \<open>simp_all add: n p\<close>)
  have "p = pre @ l @ (CR # ?rest)" by (rule p)
  note header = http_header_line [OF this, of flags]
  have IH: "http_headers p n (length pre + length l + 2) f = Some flags' \<longleftrightarrow>
      (\<exists>hs. ls = map header_bytes hs \<and> (\<forall>h \<in> set hs. header_ok h) \<and> http_fields hs f = Some flags')" for f
    using Cons.IH [of ?pre f] Cons.prems p by (simp add: add.assoc)
  have "http_headers p n (length pre) flags = Some flags' \<longleftrightarrow>
      (\<exists>f. http_header p (length pre) (length pre + length l) flags = Some f \<and> http_headers p n (length pre + length l + 2) f = Some flags')"
    unfolding http_headers.simps [of p n "length pre"] stop Let_def by (simp add: n split: option.splits)
  also have "\<dots> \<longleftrightarrow> (\<exists>name v hs. l = header_bytes (name, v) \<and> header_ok (name, v) \<and> ls = map header_bytes hs \<and>
      (\<forall>h \<in> set hs. header_ok h) \<and> http_fields ((name, v) # hs) flags = Some flags')"
    unfolding header IH by (auto simp: bind_eq_Some_conv) blast+
  also have "\<dots> \<longleftrightarrow> (\<exists>hs. l # ls = map header_bytes hs \<and> (\<forall>h \<in> set hs. header_ok h) \<and> http_fields hs flags = Some flags')"
    (is "?A \<longleftrightarrow> ?B")
  proof
    assume ?A
    then obtain name v hs where "l = header_bytes (name, v)" "header_ok (name, v)" "ls = map header_bytes hs"
        "\<forall>h \<in> set hs. header_ok h" "http_fields ((name, v) # hs) flags = Some flags'" by blast
    then show ?B by (intro exI [of _ "(name, v) # hs"]) simp
  next
    assume ?B
    then obtain h hs where hs: "l = header_bytes h" "ls = map header_bytes hs" "\<forall>h \<in> set (h # hs). header_ok h"
        "http_fields (h # hs) flags = Some flags'" by (auto simp: Cons_eq_map_conv)
    obtain name v where "h = (name, v)" by (cases h)
    then show ?A using hs by (intro exI [of _ name] exI [of _ v] exI [of _ hs]) simp
  qed
  finally show ?case .
qed

subsection \<open>The request line\<close>

definition request_line :: "bytes \<Rightarrow> bytes \<Rightarrow> bytes" where
  "request_line mth target = mth @ 32 # target @ 32 # ascii ''HTTP/1.1''"

definition request_line_ok :: "bytes \<Rightarrow> bytes \<Rightarrow> bool" where
  "request_line_ok mth target \<longleftrightarrow> mth \<noteq> [] \<and> (\<forall>c \<in> set mth. http_token c) \<and> target \<noteq> [] \<and> hd target = 0x2f \<and> 32 \<notin> set target"

lemma request_line_scans:
  assumes "p = mth @ 32 # target @ 32 # v @ post" "\<forall>c \<in> set mth. http_token c" "32 \<notin> set target"
    "line = length mth + length target + length v + 2"
  shows "scan_while (\<lambda>i. http_token (p ! i)) 0 line = length mth"
    and "scan_while (\<lambda>i. p ! i \<noteq> 32) (Suc (length mth)) (line - Suc (length mth)) = Suc (length mth) + length target"
proof -
  have "take line p = mth @ 32 # target @ 32 # v" unfolding assms(1,4) by simp
  then have "takeWhile http_token (take line p) = mth" using assms(2) separators(1) by simp
  then show "scan_while (\<lambda>i. http_token (p ! i)) 0 line = length mth"
    using scan_while_length [of http_token line 0 p] by (simp add: assms(1,4))
  have "take (line - Suc (length mth)) (drop (Suc (length mth)) p) = target @ 32 # v" unfolding assms(1,4) by simp
  moreover have "\<forall>c \<in> set target. c \<noteq> 32" using assms(3) by blast
  ultimately have "takeWhile (\<lambda>c. c \<noteq> 32) (take (line - Suc (length mth)) (drop (Suc (length mth)) p)) = target"
    by simp
  then show "scan_while (\<lambda>i. p ! i \<noteq> 32) (Suc (length mth)) (line - Suc (length mth)) = Suc (length mth) + length target"
    by (intro scan_while_length) (simp_all add: assms(1,4))
qed

lemma http_request_line_accepts:
  assumes "p = request_line mth target @ post" "request_line_ok mth target"
  shows "http_request_line p (length (request_line mth target)) = Some (length mth, Suc (length mth) + length target)"
proof -
  let ?v = "ascii ''HTTP/1.1''"
  have p: "p = mth @ 32 # target @ 32 # ?v @ post" using assms(1) by (simp add: request_line_def)
  define line where "line = length (request_line mth target)"
  have len: "line = length mth + length target + length ?v + 2" by (simp add: line_def request_line_def)
  note ok = assms(2) [unfolded request_line_ok_def]
  note scans = request_line_scans [OF p _ _ len]
  have "p ! length mth = 32" "p ! Suc (length mth) = 0x2f" using ok by (cases target; simp add: p nth_append)+
  moreover have "http_eq p (Suc (length mth) + length target + 1) (length ?v) ''HTTP/1.1''"
    by (subst http_eq_iff) (simp_all add: p)
  moreover have "length mth < line" "Suc (length mth) + length target < line"
      "line - (Suc (length mth) + length target) - 1 = length ?v" by (simp_all add: len)
  ultimately show ?thesis
    unfolding http_request_line_def Let_def line_def [symmetric] using ok by (simp add: scans)
qed

lemma http_request_line_sound:
  assumes "p = l @ post" "http_request_line p (length l) = Some (m, pathend)"
  obtains mth target where "l = request_line mth target" "request_line_ok mth target"
proof -
  let ?k = "length (takeWhile http_token l)"
  let ?r = "drop (Suc ?k) l"
  let ?j = "length (takeWhile (\<lambda>c. c \<noteq> 32) ?r)"
  have k: "scan_while (\<lambda>i. http_token (p ! i)) 0 (length l) = ?k"
    using scan_while_length [of http_token "length l" 0 p ?k] by (simp add: assms(1))
  have j: "scan_while (\<lambda>i. p ! i \<noteq> 32) (Suc ?k) (length l - Suc ?k) = Suc ?k + ?j" if "?k < length l"
    by (rule scan_while_length) (use that in \<open>simp_all add: assms(1)\<close>)
  have line: "?k \<noteq> 0" "?k < length l" "p ! ?k = 32"
    using assms(2) unfolding http_request_line_def k Let_def by (auto split: if_splits)
  have path: "?j \<noteq> 0" "p ! Suc ?k = 0x2f" "Suc ?k + ?j < length l"
      "http_eq p (Suc ?k + ?j + 1) (length l - (Suc ?k + ?j) - 1) ''HTTP/1.1''"
    using assms(2) line unfolding http_request_line_def k Let_def by (auto simp: j split: if_splits)
  have "l = take ?k l @ 32 # ?r" using line by (metis assms(1) id_take_nth_drop nth_append)
  moreover have "?r = take ?j ?r @ 32 # drop (Suc ?j) ?r"
  proof -
    have "?j < length ?r" using path(3) by simp
    then show ?thesis using nth_length_takeWhile [of "\<lambda>c. c \<noteq> 32" ?r] by (metis id_take_nth_drop)
  qed
  moreover have "drop (Suc ?j) ?r = ascii ''HTTP/1.1''"
    using path(3,4) by (subst (asm) http_eq_iff) (simp_all add: assms(1) ac_simps)
  ultimately have "l = request_line (take ?k l) (take ?j ?r)" unfolding request_line_def by metis
  moreover have "hd (take ?j ?r) = 0x2f"
    using path line by (simp add: hd_drop_conv_nth assms(1) nth_append)
  then have "request_line_ok (take ?k l) (take ?j ?r)"
    using line path set_takeWhileD [of _ http_token l] set_takeWhileD [of _ "\<lambda>c. c \<noteq> 32" ?r]
    unfolding request_line_ok_def takeWhile_eq_take [symmetric] by auto
  ultimately show ?thesis by (rule that)
qed

subsection \<open>Lines\<close>

abbreviation empty_line :: bytes where "empty_line \<equiv> [CR, LF, CR, LF]"

definition visible :: "bytes \<Rightarrow> bool" where
  "visible l \<longleftrightarrow> (\<forall>c \<in> set l. 32 \<le> c \<and> c \<le> 126)"

lemma visible_no_break: "visible l \<Longrightarrow> CR \<notin> set l \<and> LF \<notin> set l"
  by (auto simp: visible_def)

text \<open>The bytes are clean, the byte before them being a CR or not.\<close>

fun clean :: "bool \<Rightarrow> bytes \<Rightarrow> bool" where
  "clean cr [] \<longleftrightarrow> True"
| "clean cr (c # xs) \<longleftrightarrow>
     (if c = CR then xs = [] \<or> hd xs = LF else if c = LF then cr else visible [c]) \<and> clean (c = CR) xs"

lemma clean_line: "CR \<notin> set l \<Longrightarrow> clean False (l @ CR # LF # r) \<longleftrightarrow> visible l \<and> clean False r"
  by (induction l) (auto simp: visible_def)

lemma clean_bytes:
  "i + k = n \<Longrightarrow> n \<le> length p \<Longrightarrow>
     (\<forall>j \<in> {i..<n}. \<not> http_byte_bad p n j) \<longleftrightarrow> clean (0 < i \<and> p ! (i - 1) = CR) (drop i (take n p))"
proof (induction k arbitrary: i)
  case (Suc k)
  then have i: "i < n" and d: "drop i (take n p) = p ! i # drop (Suc i) (take n p)"
    by (simp_all add: Cons_nth_drop_Suc [symmetric])
  have h: "drop (Suc i) (take n p) = [] \<longleftrightarrow> \<not> i + 1 < n" "i + 1 < n \<Longrightarrow> hd (drop (Suc i) (take n p)) = p ! (i + 1)"
    using Suc.prems by (auto simp: hd_drop_conv_nth)
  have "{i..<n} = insert i {Suc i..<n}" using i by auto
  then have "(\<forall>j \<in> {i..<n}. \<not> http_byte_bad p n j) \<longleftrightarrow>
      \<not> http_byte_bad p n i \<and> clean (p ! i = CR) (drop (Suc i) (take n p))"
    using Suc.IH [of "Suc i"] Suc.prems by simp
  then show ?case
    unfolding d clean.simps http_byte_bad_def using h by (auto simp: visible_def not_less not_le)
qed simp

lemma http_scan_iff:
  "i + m = n \<Longrightarrow> fin \<le> i \<Longrightarrow> http_scan p n i m fin = Some n \<longleftrightarrow>
     (\<forall>j \<in> {i..<n}. \<not> http_byte_bad p n j) \<and>
     (fin = n \<or> fin = 0 \<and> i < n \<and> http_empty_line p (n - 1) \<and> (\<forall>j \<in> {i..<n - 1}. \<not> http_empty_line p j))"
proof (induction m arbitrary: i fin)
  case (Suc m)
  then have i: "i < n" "fin \<noteq> n" and s: "{i..<n} = insert i {Suc i..<n}" by auto
  let ?fin = "if http_empty_line p i \<and> fin = 0 then i + 1 else fin"
  have IH: "http_scan p n (Suc i) m ?fin = Some n \<longleftrightarrow> (\<forall>j \<in> {Suc i..<n}. \<not> http_byte_bad p n j) \<and>
      (?fin = n \<or> ?fin = 0 \<and> Suc i < n \<and> http_empty_line p (n - 1) \<and> (\<forall>j \<in> {Suc i..<n - 1}. \<not> http_empty_line p j))"
    by (rule Suc.IH) (use Suc.prems in auto)
  show ?case
  proof (cases "Suc i = n")
    case True
    then show ?thesis using IH i s by auto
  next
    case False
    then have "{i..<n - 1} = insert i {Suc i..<n - 1}" using i by auto
    then show ?thesis using IH i s False by auto
  qed
qed auto

lemma http_empty_line_iff:
  assumes "n \<le> length p" "j < n"
  shows "http_empty_line p j \<longleftrightarrow> (\<exists>a b. take n p = a @ empty_line @ b \<and> j = length a + 3)"
proof
  assume e: "http_empty_line p j"
  let ?xs = "take n p"
  have "take 4 (drop (j - 3) ?xs) = take 4 (drop (j - 3) p)"
    using assms e by (simp add: drop_take min_def http_empty_line_def)
  then have "?xs = take (j - 3) ?xs @ empty_line @ drop 4 (drop (j - 3) ?xs)"
    using e by (metis append_take_drop_id http_empty_line_def)
  moreover have "length (take (j - 3) ?xs) + 3 = j" using assms e by (simp add: http_empty_line_def)
  ultimately show "\<exists>a b. ?xs = a @ empty_line @ b \<and> j = length a + 3" by metis
next
  assume "\<exists>a b. take n p = a @ empty_line @ b \<and> j = length a + 3"
  then obtain a b where xs: "take n p = a @ empty_line @ b" "j = length a + 3" by blast
  have "take 4 (drop (length a) (take n p)) = take 4 (drop (length a) p)"
    using assms xs(2) by (simp add: drop_take min_def)
  then show "http_empty_line p j" unfolding http_empty_line_def xs using xs(2) by simp
qed

definition one_empty_line :: "bytes \<Rightarrow> bool" where
  "one_empty_line xs \<longleftrightarrow> (\<exists>a. xs = a @ empty_line) \<and> (\<forall>a b. xs = a @ empty_line @ b \<longrightarrow> b = [])"

lemma scan_lines:
  assumes "n \<le> length p"
  shows "n \<noteq> 0 \<and> http_scan p n 0 n 0 = Some n \<longleftrightarrow> clean False (take n p) \<and> one_empty_line (take n p)"
proof (cases "n = 0")
  case False
  let ?xs = "take n p"
  have e: "http_empty_line p (n - 1) \<longleftrightarrow> (\<exists>a. ?xs = a @ empty_line)"
  proof -
    have "?xs = a @ empty_line @ b \<Longrightarrow> length a + 3 = n - 1 \<longleftrightarrow> b = []" for a b
      using assms False by (auto dest!: arg_cong [where f = length])
    then show ?thesis using http_empty_line_iff [OF assms, of "n - 1"] False by (metis append_Nil2 diff_less less_one not_gr_zero)
  qed
  have "(\<forall>j \<in> {0..<n - 1}. \<not> http_empty_line p j) \<longleftrightarrow> (\<forall>a b. ?xs = a @ empty_line @ b \<longrightarrow> b = [])"
  proof -
    have "?xs = a @ empty_line @ b \<Longrightarrow> length a + 3 < n - 1 \<longleftrightarrow> b \<noteq> []" for a b
      using assms False by (auto dest!: arg_cong [where f = length])
    then show ?thesis using http_empty_line_iff [OF assms] by fastforce
  qed
  then show ?thesis
    using http_scan_iff [of 0 n n 0 p] clean_bytes [of 0 n n p] assms False e by (simp add: one_empty_line_def)
qed (simp add: one_empty_line_def)

lemma line_in_front:
  "l @ CR # LF # r = a @ empty_line @ b \<Longrightarrow> CR \<notin> set l \<Longrightarrow>
     (a = l \<and> r = CR # LF # b) \<or> (\<exists>c. a = l @ CR # LF # c \<and> r = c @ empty_line @ b)"
proof (induction l arbitrary: a)
  case Nil
  show ?case
  proof (cases a)
    case (Cons x a')
    then show ?thesis using Nil by (cases a') auto
  qed (use Nil in simp)
next
  case (Cons x l)
  then obtain a' where "a = x # a'" by (cases a) auto
  then show ?case using Cons by auto
qed

lemma lines_of_clean:
  "clean False xs \<Longrightarrow> one_empty_line xs \<Longrightarrow>
     \<exists>rl hs. xs = crlf_lines (rl # hs) @ [CR, LF] \<and> (\<forall>l \<in> set (rl # hs). visible l) \<and> [] \<notin> set hs"
proof (induction xs rule: length_induct)
  case (1 xs)
  obtain ys where ys: "xs = ys @ empty_line" using "1.prems" by (auto simp: one_empty_line_def)
  then have "CR \<in> set xs" by simp
  then obtain l z where l: "xs = l @ CR # z" "CR \<notin> set l" by (metis split_list_first)
  have "z \<noteq> []" using ys l by (auto simp: append_eq_append_conv2 Cons_eq_append_conv)
  moreover have "clean False (l @ CR # z) \<Longrightarrow> z = [] \<or> hd z = LF"
    using l(2) by (induction l) auto
  ultimately obtain r where r: "xs = l @ CR # LF # r" using "1.prems"(1) l(1) by (cases z) auto
  have cl: "visible l" "clean False r" using "1.prems"(1) clean_line [OF l(2)] r by auto
  show ?case
  proof (cases "\<exists>b. r = [CR, LF] @ b")
    case True
    then have "r = [CR, LF]" using "1.prems"(2) r by (auto simp: one_empty_line_def)
    then show ?thesis using r cl by (intro exI [of _ l] exI [of _ "[]"]) simp
  next
    case False
    have "\<exists>b. r = b @ empty_line"
      using line_in_front [OF _ l(2), of r ys "[]"] ys r False by auto
    moreover have "b = []" if "r = a @ empty_line @ b" for a b
    proof -
      have "xs = (l @ CR # LF # a) @ empty_line @ b" using that r by simp
      then show ?thesis using "1.prems"(2) unfolding one_empty_line_def by blast
    qed
    ultimately have "one_empty_line r" by (auto simp: one_empty_line_def)
    then obtain rl hs where h: "r = crlf_lines (rl # hs) @ [CR, LF]" "\<forall>l \<in> set (rl # hs). visible l" "[] \<notin> set hs"
      using "1.IH" [rule_format, of r] cl(2) r by auto
    moreover have "rl \<noteq> []" using False h(1) by auto
    ultimately show ?thesis using r cl by (intro exI [of _ l] exI [of _ "rl # hs"]) simp
  qed
qed

lemma clean_of_lines: "\<forall>l \<in> set ls. visible l \<Longrightarrow> clean False (crlf_lines ls @ [CR, LF])"
  by (induction ls) (auto simp: clean_line visible_no_break)

lemma one_empty_line_of_lines:
  "\<forall>l \<in> set (rl # hs). visible l \<Longrightarrow> [] \<notin> set hs \<Longrightarrow> one_empty_line (crlf_lines (rl # hs) @ [CR, LF])"
proof (induction hs arbitrary: rl)
  case Nil
  then have "b = []" if "rl @ empty_line = a @ empty_line @ b" for a b
    using line_in_front [OF that] visible_no_break [of rl] by (auto simp: Cons_eq_append_conv)
  then show ?case by (auto simp: one_empty_line_def)
next
  case (Cons h hs)
  let ?r = "crlf_lines (h # hs) @ [CR, LF]"
  have IH: "one_empty_line ?r" using Cons by simp
  have "b = []" if "crlf_lines (rl # h # hs) @ [CR, LF] = a @ empty_line @ b" for a b
  proof -
    have e: "rl @ CR # LF # ?r = a @ empty_line @ b" using that by simp
    have "?r \<noteq> CR # LF # b" using Cons.prems visible_no_break [of h] by (cases h) auto
    then obtain c where "?r = c @ empty_line @ b"
      using line_in_front [OF e] Cons.prems(1) visible_no_break [of rl] by auto
    then show ?thesis using IH unfolding one_empty_line_def by blast
  qed
  moreover obtain a where "?r = a @ empty_line" using IH unfolding one_empty_line_def by blast
  then have "crlf_lines (rl # h # hs) @ [CR, LF] = (rl @ [CR, LF] @ a) @ empty_line" by simp
  ultimately show ?case unfolding one_empty_line_def by blast
qed

subsection \<open>Requests\<close>

record http_request =
  rq_method :: bytes
  rq_target :: bytes
  rq_headers :: "(bytes \<times> bytes) list"

definition rendered :: "http_request \<Rightarrow> bytes" where
  "rendered q = crlf_lines (request_line (rq_method q) (rq_target q) # map header_bytes (rq_headers q)) @ [CR, LF]"

definition well_formed :: "http_request \<Rightarrow> bool" where
  "well_formed q \<longleftrightarrow> request_line_ok (rq_method q) (rq_target q) \<and> visible (rq_target q) \<and>
     (\<forall>h \<in> set (rq_headers q). header_ok h \<and> visible (snd h))"

text \<open>The trimmed values of a header; names ignore the case.\<close>

definition header_values :: "string \<Rightarrow> (bytes \<times> bytes) list \<Rightarrow> bytes list" where
  "header_values k hs = map (\<lambda>h. trim (snd h)) (filter (\<lambda>h. map lower (fst h) = ascii k) hs)"

definition admissible :: "(bytes \<times> bytes) list \<Rightarrow> bool" where
  "admissible hs \<longleftrightarrow>
     header_values ''host'' hs \<in> {[ascii ''192.168.4.1''], [ascii ''192.168.4.1:443'']} \<and>
     header_values ''content-length'' hs \<in> {[], [ascii ''0'']} \<and>
     header_values ''transfer-encoding'' hs = [] \<and> header_values ''expect'' hs = [] \<and> header_values ''upgrade'' hs = []"

definition answer :: "http_request \<Rightarrow> radio_http_result" where
  "answer q =
     (if rq_method q \<noteq> ascii ''GET'' then HTTP_METHOD
      else if rq_target q = ascii ''/'' then HTTP_ROOT
      else if rq_target q = ascii ''/health'' then HTTP_HEALTH
      else HTTP_NOT_FOUND)"

definition seen_once :: "bytes list \<Rightarrow> bytes set \<Rightarrow> bool \<Rightarrow> bool \<Rightarrow> bool" where
  "seen_once vs A b b' \<longleftrightarrow> (vs = [] \<and> b' = b) \<or> (\<not> b \<and> b' \<and> (\<exists>v \<in> A. vs = [v]))"

lemma seen_once_Cons: "seen_once (v # vs) A b b' \<longleftrightarrow> \<not> b \<and> v \<in> A \<and> seen_once vs A True b'"
  by (auto simp: seen_once_def)

lemma names_distinct:
  "ascii ''host'' \<noteq> ascii ''content-length''" "ascii ''host'' \<noteq> ascii ''transfer-encoding''"
  "ascii ''host'' \<noteq> ascii ''expect''" "ascii ''host'' \<noteq> ascii ''upgrade''"
  "ascii ''content-length'' \<noteq> ascii ''transfer-encoding''" "ascii ''content-length'' \<noteq> ascii ''expect''"
  "ascii ''content-length'' \<noteq> ascii ''upgrade''" "ascii ''transfer-encoding'' \<noteq> ascii ''expect''"
  "ascii ''transfer-encoding'' \<noteq> ascii ''upgrade''" "ascii ''expect'' \<noteq> ascii ''upgrade''"
  by (simp_all add: ascii_def)

lemma header_values_simps [simp]: "header_values k [] = []"
  "header_values k ((name, v) # hs) = (if map lower name = ascii k then [trim v] else []) @ header_values k hs"
  by (simp_all add: header_values_def)

lemma http_fields_iff:
  "http_fields hs (host, cl) = Some (host', cl') \<longleftrightarrow>
     seen_once (header_values ''host'' hs) {ascii ''192.168.4.1'', ascii ''192.168.4.1:443''} host host' \<and>
     seen_once (header_values ''content-length'' hs) {ascii ''0''} cl cl' \<and>
     header_values ''transfer-encoding'' hs = [] \<and> header_values ''expect'' hs = [] \<and> header_values ''upgrade'' hs = []"
proof (induction hs arbitrary: host cl)
  case Nil
  show ?case by (auto simp: seen_once_def)
next
  case (Cons h hs)
  obtain name v where h: "h = (name, v)" by (cases h)
  consider k where "k \<in> {''host'', ''content-length'', ''transfer-encoding'', ''expect'', ''upgrade''}" "map lower name = ascii k"
    | "\<forall>k \<in> {''host'', ''content-length'', ''transfer-encoding'', ''expect'', ''upgrade''}. map lower name \<noteq> ascii k" by blast
  then show ?case
  proof cases
    case 1
    then show ?thesis using Cons.IH names_distinct names_distinct [symmetric]
      by (elim insertE emptyE) (auto simp: h http_field_def seen_once_Cons)
  next
    case 2
    then show ?thesis using Cons.IH by (simp add: h http_field_def)
  qed
qed

lemma admissible_iff: "admissible hs \<longleftrightarrow> (\<exists>cl. http_fields hs (False, False) = Some (True, cl))"
  unfolding http_fields_iff admissible_def by (auto simp: seen_once_def)

lemma scan_while_stops:
  "k \<le> m \<Longrightarrow> \<forall>j < k. P (i + j) \<Longrightarrow> k < m \<Longrightarrow> \<not> P (i + k) \<Longrightarrow> scan_while P i m = i + k"
proof (induction m arbitrary: i k)
  case (Suc m)
  show ?case
  proof (cases k)
    case 0
    then show ?thesis using Suc.prems by simp
  next
    case (Suc k')
    have "P (Suc i + j)" if "j < k'" for j using Suc.prems(2) [rule_format, of "Suc j"] that Suc by simp
    then have "scan_while P (Suc i) m = Suc i + k'" using Suc.prems Suc by (intro Suc.IH) simp_all
    then show ?thesis using Suc.prems(2) Suc by force
  qed
qed simp

lemma route_answers:
  assumes "p = rendered q @ post"
  shows "http_route p (length (rq_method q)) (length (rq_method q) + 1) (Suc (length (rq_method q)) + length (rq_target q)) = answer q"
proof -
  obtain z where p: "p = rq_method q @ 32 # rq_target q @ z" using assms by (simp add: rendered_def request_line_def)
  have "http_eq p 0 (length (rq_method q)) s \<longleftrightarrow> rq_method q = ascii s" for s
    by (subst http_eq_iff) (simp_all add: p)
  moreover have "http_eq p (length (rq_method q) + 1) (length (rq_target q)) s \<longleftrightarrow> rq_target q = ascii s" for s
    by (subst http_eq_iff) (simp_all add: p)
  moreover have "Suc (length (rq_method q)) + length (rq_target q) - (length (rq_method q) + 1) = length (rq_target q)" by simp
  ultimately show ?thesis unfolding http_route_def answer_def by (simp only: not_False_eq_True)
qed

text \<open>The part of the parser behind the first loop.\<close>

definition http_accepts :: "bytes \<Rightarrow> nat \<Rightarrow> nat \<Rightarrow> radio_http_result \<Rightarrow> bool" where
  "http_accepts p n line r \<longleftrightarrow> (\<exists>m pathend cl. http_request_line p line = Some (m, pathend) \<and>
     http_headers p n (line + 2) (False, False) = Some (True, cl) \<and> r = http_route p m (m + 1) pathend)"

abbreviation refusals :: "radio_http_result set" where "refusals \<equiv> {HTTP_MORE, HTTP_BAD, HTTP_LARGE}"

lemma http_route_answers: "http_route p m path pathend \<notin> refusals"
  by (simp add: http_route_def)

lemma parse_success_iff:
  assumes "n \<le> RADIO_HTTP_MAX" "r \<notin> refusals"
  shows "radio_http_parse (Some p) n = r \<longleftrightarrow> n \<noteq> 0 \<and> http_scan p n 0 n 0 = Some n \<and>
    http_accepts p n (scan_while (\<lambda>i. \<not> (p ! i = CR \<and> p ! (i + 1) = LF)) 0 (n - 1)) r"
  using assms http_route_answers [of p] unfolding radio_http_parse_def http_accepts_def Let_def
  by (auto split: option.splits if_splits)

lemma ascii_printable: "visible (ascii ''HTTP/1.1'')"
  by (simp add: visible_def ascii_def)

lemma visible_simps [simp]: "visible []" "visible (c # l) \<longleftrightarrow> 32 \<le> c \<and> c \<le> 126 \<and> visible l"
  "visible (l @ l') \<longleftrightarrow> visible l \<and> visible l'"
  by (auto simp: visible_def)

lemma tokens_printable: "\<forall>c \<in> set l. http_token c \<Longrightarrow> visible l"
  using token_range by (auto simp: visible_def intro: less_imp_le)

lemma visible_request_line: "request_line_ok mth target \<Longrightarrow> visible (request_line mth target) \<longleftrightarrow> visible target"
  by (simp add: request_line_def request_line_ok_def tokens_printable ascii_printable)

lemma visible_header: "header_ok h \<Longrightarrow> visible (header_bytes h) \<longleftrightarrow> visible (snd h)"
  by (cases h) (simp add: tokens_printable)

lemma accepts_lines:
  assumes p: "p = crlf_lines (rl # ls) @ [CR, LF] @ post" and n: "n = length p - length post"
    and lines: "\<forall>l \<in> set (rl # ls). visible l"
  shows "http_accepts p n (scan_while (\<lambda>i. \<not> (p ! i = CR \<and> p ! (i + 1) = LF)) 0 (n - 1)) r \<longleftrightarrow>
    (\<exists>q. well_formed q \<and> admissible (rq_headers q) \<and> rl = request_line (rq_method q) (rq_target q) \<and>
      ls = map header_bytes (rq_headers q) \<and> r = answer q)"
proof -
  let ?post = "CR # LF # crlf_lines ls @ [CR, LF] @ post"
  have p': "p = rl @ ?post" by (simp add: p)
  have no_CR: "CR \<notin> set rl" "\<forall>l \<in> set ls. CR \<notin> set l" using lines visible_no_break by auto
  have line: "scan_while (\<lambda>i. \<not> (p ! i = CR \<and> p ! (i + 1) = LF)) 0 (n - 1) = length rl"
  proof -
    have "p ! j \<noteq> CR" if "j < length rl" for j using that no_CR(1) by (metis nth_append nth_mem p')
    moreover have "p ! length rl = CR \<and> p ! (length rl + 1) = LF" by (simp add: p' nth_append)
    ultimately show ?thesis using scan_while_stops [of "length rl" "n - 1" _ 0] by (simp add: n p)
  qed
  have headers: "http_headers p n (length rl + 2) (False, False) = Some (True, cl) \<longleftrightarrow>
      (\<exists>hs. ls = map header_bytes hs \<and> (\<forall>h \<in> set hs. header_ok h) \<and> http_fields hs (False, False) = Some (True, cl))" for cl
    using http_headers_lines [of ls p "rl @ [CR, LF]" post n "(False, False)"] no_CR(2) n by (simp add: p)
  show ?thesis
  proof
    assume "http_accepts p n (scan_while (\<lambda>i. \<not> (p ! i = CR \<and> p ! (i + 1) = LF)) 0 (n - 1)) r"
    then obtain m pathend cl where a: "http_request_line p (length rl) = Some (m, pathend)"
        "http_headers p n (length rl + 2) (False, False) = Some (True, cl)" "r = http_route p m (m + 1) pathend"
      unfolding http_accepts_def line by blast
    obtain mth target where rl: "rl = request_line mth target" "request_line_ok mth target"
      using http_request_line_sound [OF p' a(1)] .
    obtain hs where hs: "ls = map header_bytes hs" "\<forall>h \<in> set hs. header_ok h" "http_fields hs (False, False) = Some (True, cl)"
      using a(2) headers by blast
    let ?q = "\<lparr>rq_method = mth, rq_target = target, rq_headers = hs\<rparr>"
    have "well_formed ?q" using lines rl hs by (auto simp: well_formed_def visible_request_line visible_header)
    moreover have "r = answer ?q"
    proof -
      have "p = rendered ?q @ post" using p rl hs by (simp add: rendered_def)
      from route_answers [OF this] show ?thesis
        using a(1,3) http_request_line_accepts [OF p' [unfolded rl(1)] rl(2)] rl(1) by auto
    qed
    moreover have "admissible hs" using hs(3) admissible_iff by blast
    ultimately show "\<exists>q. well_formed q \<and> admissible (rq_headers q) \<and> rl = request_line (rq_method q) (rq_target q) \<and>
      ls = map header_bytes (rq_headers q) \<and> r = answer q" using rl(1) hs(1) by (intro exI [of _ ?q]) simp
  next
    assume "\<exists>q. well_formed q \<and> admissible (rq_headers q) \<and> rl = request_line (rq_method q) (rq_target q) \<and>
      ls = map header_bytes (rq_headers q) \<and> r = answer q"
    then obtain q where q: "well_formed q" "admissible (rq_headers q)" "rl = request_line (rq_method q) (rq_target q)"
      "ls = map header_bytes (rq_headers q)" "r = answer q" by blast
    have ok: "request_line_ok (rq_method q) (rq_target q)" using q(1) by (simp add: well_formed_def)
    have "p = rendered q @ post" using p q by (simp add: rendered_def)
    note route = route_answers [OF this]
    obtain cl where "http_headers p n (length rl + 2) (False, False) = Some (True, cl)"
      using headers q(1,2,4) admissible_iff unfolding well_formed_def by blast
    then show "http_accepts p n (scan_while (\<lambda>i. \<not> (p ! i = CR \<and> p ! (i + 1) = LF)) 0 (n - 1)) r"
      unfolding http_accepts_def line q(5) route [symmetric]
      using http_request_line_accepts [OF p' [unfolded q(3)] ok] q(3) by auto
  qed
qed

subsection \<open>Property\<close>

text \<open>C39: the parser accepts exactly the rendered requests. On \<open>n\<close> bytes, at most 1024, it gives a result other than
  "more", "bad" and "too large" exactly when these bytes, all of them and nothing behind them, are the rendering of a
  request: a method of token characters, a visible target that starts with a slash, version 1.1, and header lines of a
  token name and a visible value, of which exactly one is a \<open>Host\<close> with the device's address, at most one a
  \<open>Content-Length\<close>, of zero, and none a transfer coding, an expectation or an upgrade, names in any case and values
  trimmed. The result is then decided by the method and the target alone.\<close>

theorem http_accepts_grammar:
  assumes "n \<le> length p" "n \<le> 1024" "r \<notin> {HTTP_MORE, HTTP_BAD, HTTP_LARGE}"
  shows "radio_http_parse (Some p) n = r \<longleftrightarrow>
    (\<exists>q. well_formed q \<and> admissible (rq_headers q) \<and> take n p = rendered q \<and> r = answer q)"
proof -
  have n: "n \<le> RADIO_HTTP_MAX" using assms(2) by (simp add: RADIO_HTTP_MAX_def)
  have post: "n = length p - length (drop n p)" using assms(1) by simp
  have "radio_http_parse (Some p) n = r \<longleftrightarrow> clean False (take n p) \<and> one_empty_line (take n p) \<and>
      http_accepts p n (scan_while (\<lambda>i. \<not> (p ! i = CR \<and> p ! (i + 1) = LF)) 0 (n - 1)) r"
    using parse_success_iff [OF n assms(3), of p] scan_lines [OF assms(1)] by blast
  also have "\<dots> \<longleftrightarrow> (\<exists>q. well_formed q \<and> admissible (rq_headers q) \<and> take n p = rendered q \<and> r = answer q)"
    (is "?A \<longleftrightarrow> ?B")
  proof
    assume a: ?A
    then obtain rl ls where l: "take n p = crlf_lines (rl # ls) @ [CR, LF]" "\<forall>l \<in> set (rl # ls). visible l"
      using lines_of_clean by blast
    then have p: "p = crlf_lines (rl # ls) @ [CR, LF] @ drop n p" by (metis append_assoc append_take_drop_id)
    show ?B
      using a l(1) unfolding accepts_lines [OF p post l(2)] rendered_def by blast
  next
    assume ?B
    then obtain q where q: "well_formed q" "admissible (rq_headers q)" "take n p = rendered q" "r = answer q" by blast
    let ?rl = "request_line (rq_method q) (rq_target q)" and ?ls = "map header_bytes (rq_headers q)"
    have l: "\<forall>l \<in> set (?rl # ?ls). visible l" "[] \<notin> set ?ls"
      using q(1) by (auto simp: well_formed_def visible_request_line visible_header)
    then have "clean False (take n p)" "one_empty_line (take n p)"
      using clean_of_lines one_empty_line_of_lines q(3) unfolding rendered_def by metis+
    moreover have "p = crlf_lines (?rl # ?ls) @ [CR, LF] @ drop n p"
      using q(3) unfolding rendered_def by (metis append_assoc append_take_drop_id)
    note accepts_lines [OF this post l(1), of r]
    ultimately show ?A using q(1,2,4) by blast
  qed
  finally show ?thesis .
qed

text \<open>A health request.\<close>

definition demo_request :: http_request where
  "demo_request = \<lparr>rq_method = ascii ''GET'', rq_target = ascii ''/health'',
     rq_headers = [(ascii ''HOST'', ascii '' 192.168.4.1 ''), (ascii ''Accept'', ascii ''*/*'')]\<rparr>"

theorem http_accepts_grammar_witness:
  "radio_http_parse (Some (rendered demo_request)) (length (rendered demo_request)) = HTTP_HEALTH"
proof -
  have "well_formed demo_request"
    by (simp add: well_formed_def demo_request_def request_line_ok_def ascii_def http_token_simps)
  moreover have "admissible (rq_headers demo_request)"
    by (simp add: admissible_def demo_request_def header_values_def ascii_def lower_def trim_def trim_right_def)
  moreover have "HTTP_HEALTH = answer demo_request" by (simp add: answer_def demo_request_def ascii_def)
  moreover have "length (rendered demo_request) \<le> 1024"
    by (simp add: rendered_def request_line_def demo_request_def ascii_def)
  ultimately show ?thesis
    using http_accepts_grammar [of "length (rendered demo_request)" "rendered demo_request" HTTP_HEALTH] by auto
qed

end
