(* ===== verification/Dhcp_Wire.thy ===== *)
theory Dhcp_Wire
  imports Bridge_Prelude
begin

section \<open>The DHCP reader (firmware/radio/dhcp_wire.c)\<close>

text \<open>
  A bounded reader of DHCP requests: checks of the fixed BOOTP part and a loop over the options. The result and the
  out parameter are a pair; the argument \<open>out\<close> says that the out pointer is not null. What the reader accepts is stated as a
  grammar of options.
\<close>

definition RADIO_DHCP_MAX :: nat where "RADIO_DHCP_MAX = 576"

record radio_dhcp_request =
  dhcp_type :: u8
  dhcp_mac :: bytes
  dhcp_xid :: bytes
  dhcp_requested :: bytes
  dhcp_server :: bytes
  dhcp_ciaddr :: bytes
  has_requested :: bool
  has_server :: bool

definition dhcp_zero :: radio_dhcp_request where
  "dhcp_zero = \<lparr>dhcp_type = 0, dhcp_mac = replicate 6 0, dhcp_xid = replicate 4 0, dhcp_requested = replicate 4 0,
     dhcp_server = replicate 4 0, dhcp_ciaddr = replicate 4 0, has_requested = False, has_server = False\<rparr>"

definition field :: "bytes \<Rightarrow> nat \<Rightarrow> nat \<Rightarrow> bytes" where
  "field p i n = take n (drop i p)"

text \<open>The fixed part: a request on Ethernet with a hardware address, not relayed, and the magic cookie.\<close>

definition bootp_rejected :: "bytes \<Rightarrow> bool" where
  "bootp_rejected p \<longleftrightarrow> p ! 0 \<noteq> 1 \<or> p ! 1 \<noteq> 1 \<or> p ! 2 \<noteq> 6 \<or> p ! 3 \<noteq> 0 \<or>
     field p 24 4 \<noteq> [0, 0, 0, 0] \<or> field p 236 4 \<noteq> [0x63, 0x82, 0x53, 0x63] \<or>
     p ! 28 AND 1 \<noteq> 0 \<or> p ! 28 OR p ! 29 OR p ! 30 OR p ! 31 OR p ! 32 OR p ! 33 = 0"

text \<open>One option with its length checked; \<open>None\<close> is \<open>return false\<close>.\<close>

definition dhcp_option :: "u8 \<Rightarrow> bytes \<Rightarrow> radio_dhcp_request \<Rightarrow> radio_dhcp_request option" where
  "dhcp_option opt data r =
     (if opt = 53 then (if length data \<noteq> 1 \<or> dhcp_type r \<noteq> 0 then None else Some (r\<lparr>dhcp_type := data ! 0\<rparr>))
      else if opt = 50 then (if length data \<noteq> 4 \<or> has_requested r then None
        else Some (r\<lparr>dhcp_requested := data, has_requested := True\<rparr>))
      else if opt = 54 then (if length data \<noteq> 4 \<or> has_server r then None
        else Some (r\<lparr>dhcp_server := data, has_server := True\<rparr>))
      else if opt = 52 then None
      else Some r)"

text \<open>The loop; the result is \<open>ended\<close> and the request.\<close>

function dhcp_options :: "bytes \<Rightarrow> nat \<Rightarrow> nat \<Rightarrow> radio_dhcp_request \<Rightarrow> (bool \<times> radio_dhcp_request) option" where
  "dhcp_options p n i r =
     (if \<not> i < n then Some (False, r)
      else let opt = p ! i; i = i + 1 in
        if opt = 0 then dhcp_options p n i r
        else if opt = 255 then Some (True, r)
        else if i = n then None
        else let len = unat (p ! i); i = i + 1 in
          if len > n - i then None
          else (case dhcp_option opt (field p i len) r of None \<Rightarrow> None | Some r \<Rightarrow> dhcp_options p n (i + len) r))"
  by pat_completeness auto
termination
  by (relation "measure (\<lambda>(p, n, i, r). n - i)") auto

declare dhcp_options.simps [simp del]

definition radio_dhcp_parse :: "bytes option \<Rightarrow> nat \<Rightarrow> bool \<Rightarrow> bool \<times> radio_dhcp_request" where
  "radio_dhcp_parse p n out =
     (if \<not> out then (False, dhcp_zero)
      else (case p of None \<Rightarrow> (False, dhcp_zero)
        | Some p \<Rightarrow>
          if n < 240 \<or> n > RADIO_DHCP_MAX then (False, dhcp_zero)
          else if bootp_rejected p then (False, dhcp_zero)
          else let r = dhcp_zero\<lparr>dhcp_mac := field p 28 6, dhcp_xid := field p 4 4, dhcp_ciaddr := field p 12 4\<rparr> in
            (case dhcp_options p n 240 r of None \<Rightarrow> (False, dhcp_zero)
             | Some (ended, r) \<Rightarrow>
               if \<not> ended \<or> (dhcp_type r \<noteq> 1 \<and> dhcp_type r \<noteq> 3) then (False, dhcp_zero) else (True, r))))"

subsection \<open>The option grammar\<close>

datatype dhcp_opt = Pad | Opt u8 bytes

fun opt_ok :: "dhcp_opt \<Rightarrow> bool" where
  "opt_ok Pad \<longleftrightarrow> True"
| "opt_ok (Opt c data) \<longleftrightarrow> c \<noteq> 0 \<and> c \<noteq> 255 \<and> length data \<le> 255"

fun opt_bytes :: "dhcp_opt \<Rightarrow> bytes" where
  "opt_bytes Pad = [0]"
| "opt_bytes (Opt c data) = c # of_nat (length data) # data"

definition opts_of :: "u8 \<Rightarrow> dhcp_opt list \<Rightarrow> bytes list" where
  "opts_of c os = concat (map (\<lambda>x. case x of Pad \<Rightarrow> [] | Opt d data \<Rightarrow> if d = c then [data] else []) os)"

fun take_opts :: "dhcp_opt list \<Rightarrow> radio_dhcp_request \<Rightarrow> radio_dhcp_request option" where
  "take_opts [] r = Some r"
| "take_opts (Pad # os) r = take_opts os r"
| "take_opts (Opt c data # os) r = Option.bind (dhcp_option c data r) (take_opts os)"

text \<open>The loop on the list of the remaining bytes.\<close>

function list_options :: "bytes \<Rightarrow> radio_dhcp_request \<Rightarrow> (bool \<times> radio_dhcp_request) option" where
  "list_options [] r = Some (False, r)"
| "list_options (opt # xs) r =
     (if opt = 0 then list_options xs r
      else if opt = 255 then Some (True, r)
      else (case xs of [] \<Rightarrow> None
        | l # ys \<Rightarrow> if unat l > length ys then None
          else (case dhcp_option opt (take (unat l) ys) r of None \<Rightarrow> None | Some r \<Rightarrow> list_options (drop (unat l) ys) r)))"
  by pat_completeness auto
termination
  by (relation "measure (\<lambda>(xs, r). length xs)") auto

lemma drop_take_Cons: "i < n \<Longrightarrow> n \<le> length p \<Longrightarrow> drop i (take n p) = p ! i # drop (Suc i) (take n p)"
  by (simp add: Cons_nth_drop_Suc [of i "take n p", symmetric])

lemma options_on_list:
  "n \<le> length p \<Longrightarrow> dhcp_options p n i r = list_options (drop i (take n p)) r"
proof (induction p n i r rule: dhcp_options.induct)
  case (1 p n i r)
  show ?case
  proof (cases "i < n")
    case False
    then show ?thesis by (simp add: dhcp_options.simps [of p n i])
  next
    case i: True
    note d = drop_take_Cons [OF i "1.prems"]
    show ?thesis
    proof (cases "p ! i = 0 \<or> p ! i = 255 \<or> Suc i = n")
      case True
      then show ?thesis using i "1.IH"(1) [of "p ! i" "i + 1"] "1.prems" d
        by (auto simp: dhcp_options.simps [of p n i])
    next
      case False
      then have j: "Suc i < n" using i by simp
      note e = drop_take_Cons [OF j "1.prems"]
      let ?l = "unat (p ! Suc i)"
      have f: "?l \<le> n - Suc (Suc i) \<Longrightarrow> field p (Suc (Suc i)) ?l = take ?l (drop (Suc (Suc i)) (take n p))"
        by (simp add: field_def drop_take min_def)
      have g: "drop ?l (drop (Suc (Suc i)) (take n p)) = drop (Suc (Suc i) + ?l) (take n p)" by (simp add: add.commute)
      show ?thesis
      proof (cases "?l > n - Suc (Suc i)")
        case True
        then show ?thesis using False i j d e "1.prems" by (simp add: dhcp_options.simps [of p n i] Let_def min_def)
      next
        case l: False
        have "dhcp_options p n (Suc (Suc i) + ?l) r' = list_options (drop (Suc (Suc i) + ?l) (take n p)) r'"
          if "dhcp_option (p ! i) (field p (Suc (Suc i)) ?l) r = Some r'" for r'
          using "1.IH"(2) [of "p ! i" "i + 1" ?l "i + 1 + 1" r'] that False i l "1.prems" by simp
        then show ?thesis using False i j d e f g l "1.prems"
          by (simp add: dhcp_options.simps [of p n i] Let_def min_def ac_simps split: option.split)
      qed
    qed
  qed
qed

lemma list_options_grammar:
  assumes "\<forall>x \<in> set os. opt_ok x"
  shows "list_options (concat (map opt_bytes os) @ 255 # rest) r = map_option (Pair True) (take_opts os r)"
  using assms
proof (induction os arbitrary: r)
  case (Cons x os)
  show ?case
  proof (cases x)
    case (Opt c data)
    have "unat (of_nat (length data) :: u8) = length data" using Cons.prems Opt by (simp add: unsigned_of_nat take_bit_nat_eq_self)
    then show ?thesis using Cons Opt by (simp split: option.split)
  qed (use Cons in simp)
qed simp

lemma list_options_accepts:
  "list_options xs r = Some (True, r') \<Longrightarrow>
     \<exists>os rest. xs = concat (map opt_bytes os) @ 255 # rest \<and> (\<forall>x \<in> set os. opt_ok x) \<and> take_opts os r = Some r'"
proof (induction xs r rule: list_options.induct)
  case (2 opt xs r)
  consider "opt = 0" | "opt = 255" | l ys where "opt \<noteq> 0" "opt \<noteq> 255" "xs = l # ys"
    using "2.prems" by (cases xs) (auto split: if_splits)
  then show ?case
  proof cases
    case 1
    then obtain os rest where "xs = concat (map opt_bytes os) @ 255 # rest" "\<forall>x \<in> set os. opt_ok x" "take_opts os r = Some r'"
      using 2 by auto
    then show ?thesis using 1 by (intro exI [of _ "Pad # os"] exI [of _ rest]) simp
  next
    case 2
    then show ?thesis using "2.prems" by (intro exI [of _ "[]"] exI [of _ xs]) simp
  next
    case 3
    then obtain r1 where r1: "unat l \<le> length ys" "dhcp_option opt (take (unat l) ys) r = Some r1"
        "list_options (drop (unat l) ys) r1 = Some (True, r')"
      using "2.prems" by (auto split: if_splits option.splits)
    obtain os rest where os: "drop (unat l) ys = concat (map opt_bytes os) @ 255 # rest" "\<forall>x \<in> set os. opt_ok x"
        "take_opts os r1 = Some r'"
      using "2.IH"(2) [OF 3(1,2,3) _ r1(2,3)] r1(1) by auto
    have "ys = take (unat l) ys @ concat (map opt_bytes os) @ 255 # rest" using os(1) by (metis append_take_drop_id)
    then show ?thesis using 3 r1 os
      by (intro exI [of _ "Opt opt (take (unat l) ys) # os"] exI [of _ rest]) (auto simp: min_def)
  qed
qed simp_all

text \<open>
  What the options say, from what was known before: at most one requested address and at most one server, and
  message types of which only the last may differ from zero.
\<close>

definition address_options :: "bytes list \<Rightarrow> bool \<Rightarrow> bytes \<Rightarrow> bool \<Rightarrow> bytes \<Rightarrow> bool" where
  "address_options ds h a h' a' \<longleftrightarrow>
     (ds = [] \<and> h' = h \<and> a' = a) \<or> (\<not> h \<and> ds = [a'] \<and> length a' = 4 \<and> h')"

definition type_options :: "bytes list \<Rightarrow> u8 \<Rightarrow> u8 \<Rightarrow> bool" where
  "type_options ds t t' \<longleftrightarrow> (ds = [] \<and> t' = t) \<or> (t = 0 \<and> (\<exists>k. ds = replicate k [0] @ [[t']]))"

lemma opts_of_simps [simp]: "opts_of c [] = []" "opts_of c (Pad # os) = opts_of c os"
  "opts_of c (Opt d data # os) = (if d = c then [data] else []) @ opts_of c os"
  by (simp_all add: opts_of_def)

lemma address_step:
  "address_options (d # ds) h a h' a' \<longleftrightarrow> \<not> h \<and> length d = 4 \<and> address_options ds True d h' a'"
  by (auto simp: address_options_def)

lemma type_step:
  "type_options (d # ds) t t' \<longleftrightarrow> t = 0 \<and> length d = 1 \<and> type_options ds (d ! 0) t'"
proof
  assume "type_options (d # ds) t t'"
  then obtain k where "t = 0" "d # ds = replicate k [0] @ [[t']]" by (auto simp: type_options_def)
  then show "t = 0 \<and> length d = 1 \<and> type_options ds (d ! 0) t'" by (cases k) (auto simp: type_options_def)
next
  assume r: "t = 0 \<and> length d = 1 \<and> type_options ds (d ! 0) t'"
  then obtain x where d: "d = [x]" by (cases d) auto
  show "type_options (d # ds) t t'"
  proof (cases "ds = []")
    case True
    then show ?thesis using r d by (auto simp: type_options_def intro: exI [of _ 0])
  next
    case False
    then obtain k where "x = 0" "ds = replicate k [0] @ [[t']]" using r d by (auto simp: type_options_def)
    then show ?thesis using r d by (auto simp: type_options_def intro!: exI [of _ "Suc k"])
  qed
qed

lemma take_opts_iff:
  "take_opts os r = Some r' \<longleftrightarrow>
     type_options (opts_of 53 os) (dhcp_type r) (dhcp_type r') \<and>
     address_options (opts_of 50 os) (has_requested r) (dhcp_requested r) (has_requested r') (dhcp_requested r') \<and>
     address_options (opts_of 54 os) (has_server r) (dhcp_server r) (has_server r') (dhcp_server r') \<and>
     opts_of 52 os = [] \<and> dhcp_mac r' = dhcp_mac r \<and> dhcp_xid r' = dhcp_xid r \<and> dhcp_ciaddr r' = dhcp_ciaddr r"
proof (induction os arbitrary: r)
  case Nil
  show ?case by (cases r; cases r') (auto simp: type_options_def address_options_def)
next
  case (Cons x os)
  show ?case
  proof (cases x)
    case (Opt c data)
    then show ?thesis using Cons.IH by (auto simp: dhcp_option_def type_step address_step split: if_splits)
  qed (use Cons.IH in simp)
qed

lemma four: "replicate 4 x = [x, x, x, x]"
  by (simp add: eval_nat_numeral)

definition dhcp_fixed :: "bytes \<Rightarrow> radio_dhcp_request" where
  "dhcp_fixed p = dhcp_zero\<lparr>dhcp_mac := field p 28 6, dhcp_xid := field p 4 4, dhcp_ciaddr := field p 12 4\<rparr>"

lemma fixed_fields: "dhcp_type (dhcp_fixed p) = 0" "has_requested (dhcp_fixed p) = False" "dhcp_requested (dhcp_fixed p) = [0, 0, 0, 0]"
  "has_server (dhcp_fixed p) = False" "dhcp_server (dhcp_fixed p) = [0, 0, 0, 0]" "dhcp_mac (dhcp_fixed p) = field p 28 6"
  "dhcp_xid (dhcp_fixed p) = field p 4 4" "dhcp_ciaddr (dhcp_fixed p) = field p 12 4"
  by (simp_all add: dhcp_fixed_def dhcp_zero_def four)

lemma parse_cases:
  obtains (accepted) r where "radio_dhcp_parse (Some p) n True = (True, r)" "\<not> n < 240" "\<not> n > RADIO_DHCP_MAX"
      "\<not> bootp_rejected p" "dhcp_options p n 240 (dhcp_fixed p) = Some (True, r)" "dhcp_type r = 1 \<or> dhcp_type r = 3"
  | (rejected) "radio_dhcp_parse (Some p) n True = (False, dhcp_zero)"
      "\<And>r. \<not> (\<not> n < 240 \<and> \<not> n > RADIO_DHCP_MAX \<and> \<not> bootp_rejected p \<and>
        dhcp_options p n 240 (dhcp_fixed p) = Some (True, r) \<and> (dhcp_type r = 1 \<or> dhcp_type r = 3))"
proof (cases "n < 240 \<or> n > RADIO_DHCP_MAX \<or> bootp_rejected p")
  case True
  then show ?thesis by (intro rejected) (auto simp: radio_dhcp_parse_def)
next
  case False
  then have e: "radio_dhcp_parse (Some p) n True = (case dhcp_options p n 240 (dhcp_fixed p) of None \<Rightarrow> (False, dhcp_zero)
      | Some (ended, r) \<Rightarrow> if \<not> ended \<or> (dhcp_type r \<noteq> 1 \<and> dhcp_type r \<noteq> 3) then (False, dhcp_zero) else (True, r))"
    by (simp add: radio_dhcp_parse_def Let_def flip: dhcp_fixed_def)
  show ?thesis
  proof (cases "\<exists>r. dhcp_options p n 240 (dhcp_fixed p) = Some (True, r) \<and> (dhcp_type r = 1 \<or> dhcp_type r = 3)")
    case True
    then obtain r where "dhcp_options p n 240 (dhcp_fixed p) = Some (True, r)" "dhcp_type r = 1 \<or> dhcp_type r = 3" by blast
    then show ?thesis using False e by (intro accepted [of r]) auto
  next
    case none: False
    then have "radio_dhcp_parse (Some p) n True = (False, dhcp_zero)"
      unfolding e by (cases "dhcp_options p n 240 (dhcp_fixed p)") auto
    then show ?thesis using none by (intro rejected) blast+
  qed
qed

lemma parse_accepts: "radio_dhcp_parse (Some p) n True = (True, r) \<longleftrightarrow> \<not> n < 240 \<and> \<not> n > RADIO_DHCP_MAX \<and> \<not> bootp_rejected p \<and>
  dhcp_options p n 240 (dhcp_fixed p) = Some (True, r) \<and> (dhcp_type r = 1 \<or> dhcp_type r = 3)"
proof (cases rule: parse_cases [of p n])
  case (accepted q)
  then show ?thesis by auto
next
  case rejected
  have "radio_dhcp_parse (Some p) n True \<noteq> (True, r)" using rejected(1) by simp
  then show ?thesis using rejected(2) [of r] by blast
qed

subsection \<open>Property\<close>


text \<open>A DISCOVER that asks for 192.168.4.2.\<close>

definition demo_discover :: bytes where
  "demo_discover = [1, 1, 6, 0, 1, 2, 3, 4] @ replicate 20 0 @ [2, 0, 0, 0, 0, 9] @ replicate 202 0 @
     [0x63, 0x82, 0x53, 0x63] @ [0, 53, 1, 1, 50, 4, 192, 168, 4, 2, 255]"


end
