(* ===== verification/Entropy_Fill.thy ===== *)
theory Entropy_Fill
  imports Bridge_Prelude
begin

section \<open>Filling a buffer from a random number generator (firmware/radio/entropy_fill.c)\<close>

text \<open>
  The generator is a parameter: it takes its context and gives a word or an error, and the context after the
  call. The model returns the code, the value of \<open>*olen\<close> (\<open>None\<close> when the pointer is null), the buffer and the context.
  A word in memory is little-endian, as on the microcontroller.
\<close>

type_synonym 's radio_rng_word = "'s \<Rightarrow> u64 option \<times> 's"

function entropy_loop :: "'s radio_rng_word \<Rightarrow> nat \<Rightarrow> nat \<Rightarrow> bytes \<Rightarrow> 's \<Rightarrow> bool \<times> nat \<times> bytes \<times> 's" where
  "entropy_loop word len filled out ctx =
     (if \<not> filled < len then (True, filled, out, ctx)
      else (case word ctx of
        (None, ctx) \<Rightarrow> (False, filled, out, ctx)
      | (Some v, ctx) \<Rightarrow>
          let chunk = (if len - filled > 8 then 8 else len - filled) in
          entropy_loop word len (filled + chunk) (memcpy_at out filled (take chunk (le64_bytes v))) ctx))"
  by pat_completeness auto
termination
  by (relation "measure (\<lambda>(word, len, filled, out, ctx). len - filled)") auto

declare entropy_loop.simps [simp del]

definition radio_entropy_fill ::
    "bytes option \<Rightarrow> nat \<Rightarrow> bool \<Rightarrow> 's radio_rng_word \<Rightarrow> 's \<Rightarrow> int \<times> nat option \<times> bytes option \<times> 's" where
  "radio_entropy_fill out len olen word ctx =
     (let zero = (if olen then Some 0 else None) in
      (case out of None \<Rightarrow> (-1, zero, None, ctx)
       | Some buf \<Rightarrow>
         (case entropy_loop word len 0 buf ctx of
           (False, _, buf, ctx) \<Rightarrow> (-1, zero, Some buf, ctx)
         | (True, filled, buf, ctx) \<Rightarrow> (0, if olen then Some filled else None, Some buf, ctx))))"

text \<open>The words drawn until one fails.\<close>

fun draws :: "'s radio_rng_word \<Rightarrow> nat \<Rightarrow> 's \<Rightarrow> bool \<times> u64 list \<times> 's" where
  "draws word 0 ctx = (True, [], ctx)"
| "draws word (Suc k) ctx =
     (case word ctx of (None, ctx) \<Rightarrow> (False, [], ctx)
      | (Some v, ctx) \<Rightarrow> (case draws word k ctx of (ok, vs, ctx) \<Rightarrow> (ok, v # vs, ctx)))"

definition stream_of :: "u64 list \<Rightarrow> bytes" where
  "stream_of vs = concat (map le64_bytes vs)"

lemma stream_simps [simp]: "stream_of [] = []" "stream_of (v # vs) = le64_bytes v @ stream_of vs"
  by (simp_all add: stream_of_def)

lemma length_stream [simp]: "length (stream_of vs) = 8 * length vs"
  by (induction vs) simp_all

lemma draws_length: "draws word k ctx = (ok, vs, ctx') \<Longrightarrow> length vs \<le> k \<and> (ok \<longrightarrow> length vs = k) \<and> (\<not> ok \<longrightarrow> length vs < k)"
  by (induction k arbitrary: ctx vs) (fastforce split: prod.splits option.splits)+

lemma memcpy_append:
  "memcpy_at (memcpy_at buf i xs) (i + length xs) ys = memcpy_at buf i (xs @ ys)" if "i \<le> length buf"
  using that by (simp add: memcpy_at_def ac_simps)

lemma memcpy_nothing: "memcpy_at buf i [] = buf"
  by (simp add: memcpy_at_def)

text \<open>The loop writes the drawn bytes, cut to the length.\<close>

lemma entropy_loop_draws:
  assumes "filled \<le> len" "len \<le> length out" "draws word ((len - filled + 7) div 8) ctx = (ok, vs, ctx')"
  shows "entropy_loop word len filled out ctx =
    (ok, if ok then len else filled + 8 * length vs, memcpy_at out filled (take (len - filled) (stream_of vs)), ctx')"
  using assms
proof (induction "(len - filled + 7) div 8" arbitrary: filled out ctx vs)
  case 0
  then show ?case by (subst entropy_loop.simps) (auto simp: memcpy_nothing)
next
  case (Suc k)
  then have less: "filled < len" by (cases "filled < len") auto
  obtain w c where w: "word ctx = (w, c)" by force
  have d: "draws word (Suc k) ctx = (ok, vs, ctx')" using Suc.prems(3) unfolding Suc.hyps(2) [symmetric] .
  show ?case
  proof (cases w)
    case None
    then show ?thesis using d less w
      by (subst entropy_loop.simps) (auto simp: memcpy_nothing)
  next
    case (Some v)
    let ?chunk = "if len - filled > 8 then 8 else len - filled"
    let ?out = "memcpy_at out filled (take ?chunk (le64_bytes v))"
    obtain us where us: "vs = v # us" "draws word k c = (ok, us, ctx')"
      using d w Some by (auto split: prod.splits)
    have k: "k = (len - (filled + ?chunk) + 7) div 8" using Suc.hyps(2) less by auto
    have len: "length (take ?chunk (le64_bytes v)) = ?chunk" by simp
    have IH: "entropy_loop word len (filled + ?chunk) ?out c = (ok, if ok then len else filled + ?chunk + 8 * length us,
        memcpy_at ?out (filled + ?chunk) (take (len - (filled + ?chunk)) (stream_of us)), ctx')"
      by (rule Suc.hyps(1) [OF k]) (use Suc.prems less us k in \<open>auto simp: length_memcpy\<close>)
    have "memcpy_at ?out (filled + ?chunk) ys = memcpy_at out filled (take ?chunk (le64_bytes v) @ ys)" for ys
      using memcpy_append [of filled out "take ?chunk (le64_bytes v)" ys] less Suc.prems unfolding len by simp
    moreover have "take ?chunk (le64_bytes v) @ take (len - (filled + ?chunk)) (stream_of us) = take (len - filled) (stream_of vs)"
      by (simp add: us)
    moreover have "\<not> ok \<Longrightarrow> ?chunk = 8"
      using draws_length [OF us(2)] k by (auto split: if_splits)
    ultimately show ?thesis using less w Some IH us(1)
      by (subst entropy_loop.simps) (simp add: Let_def)
  qed
qed


subsection \<open>Property\<close>

text \<open>The buffer is filled with what the generator gave. For every generator and every context, the function
  draws one word for each eight bytes asked for, rounded up, and stops at the first failure. When all draws succeed
  it returns 0, has written exactly the first \<open>len\<close> bytes of the drawn words in memory order, and reports \<open>len\<close>; when a draw fails it returns
  -1 and reports 0, with the words before the failure written. No byte behind them is touched.\<close>

lemma entropy_is_the_drawn_words:
  assumes "len \<le> length buf"
  shows "radio_entropy_fill (Some buf) len True word ctx =
    (case draws word ((len + 7) div 8) ctx of
       (True, vs, ctx') \<Rightarrow> (0, Some len, Some (take len (stream_of vs) @ drop len buf), ctx')
     | (False, vs, ctx') \<Rightarrow> (-1, Some 0, Some (stream_of vs @ drop (8 * length vs) buf), ctx'))"
proof -
  obtain ok vs ctx' where d: "draws word ((len + 7) div 8) ctx = (ok, vs, ctx')" by (metis surj_pair)
  have e: "entropy_loop word len 0 buf ctx = (ok, if ok then len else 8 * length vs, memcpy_at buf 0 (take len (stream_of vs)), ctx')"
    using entropy_loop_draws [of 0 len buf word ctx] assms d by simp
  have l: "ok \<Longrightarrow> len \<le> 8 * length vs" "\<not> ok \<Longrightarrow> 8 * length vs \<le> len" using draws_length [OF d] by auto
  show ?thesis
  proof (cases ok)
    case True
    then show ?thesis using l by (simp add: radio_entropy_fill_def e d memcpy_at_def min_absorb1)
  next
    case False
    then show ?thesis using l by (simp add: radio_entropy_fill_def e d memcpy_at_def)
  qed
qed

end
