(* ===== verification/Spec2Isabelle.thy ===== *)
theory Spec2Isabelle
  imports Client_Session Template_Keys Radio_Provision Idle_Main Http_Parser Dhcp_Wire Entropy_Fill
begin

text \<open>
  \<^bold>\<open>A model of the picobridge firmware\<close> (src/firmware; the peers of its protocols from src/tools).

  \<^bold>\<open>The program.\<close> The firmware turns a Pico W into a USB keyboard that types text it gets over BLE or, in a second
  image, over TCP. A client opens a Noise IK session, stages a text, confirms it, and the device types it. The parts: the
  bridge core holds at most one job (staged, executing, finished) with its key strokes and a ledger of job identifiers; the
  controller store says who may open a session and who may enrol and revoke, and lives in two flash sectors; the Noise
  responder authenticates a client by its static key and encrypts what follows; a third flash sector holds the Wi-Fi
  credentials; the command handlers connect these; BLE and TCP each reassemble frames and hand them to the one entry point
  \<open>command_process_frame\<close>; the USB drain takes strokes from the core and sends keyboard reports; the main loop calls
  all of them in turn. All state is in global variables of one thread.

  \<^bold>\<open>Theories and sources.\<close>
    \<^item> \<open>Bridge_Prelude\<close>: integer types, little- and big-endian fields, copies into arrays, deadlines on wrapping
      clocks, runs of machines, and the interfaces as locales: \<open>guarded_machine\<close> (every step keeps an invariant),
      \<open>refined_machine\<close> (and is a step of a specification), \<open>record_codec\<close> and \<open>sealed_codec\<close> (an encoder and a decoder
      that give back what was written, and notice one changed byte), \<open>roster\<close> (enrol, revoke, look up). Each is interpreted on
      the definitions of the code in the theory that provides them.
    \<^item> \<open>Bridge_Types\<close>, \<open>Utf8_Decode\<close>, \<open>Key_Layout\<close>, \<open>Bridge_Core\<close>: core/bridge_core.h and .c; \<open>Core_Text\<close>: staging against a
      specification on code points; \<open>Core_Protocol\<close>: the core as a machine, the protocol it implements, what holds over all call
      sequences.
    \<^item> \<open>Controller_Store\<close>, \<open>Store_Flash\<close>: controller_store.c and controller_store_flash.c.
    \<^item> \<open>Noise_IK\<close>: noise_ik.c; \<open>Noise_Client\<close>: the initiator of tools/pico_bridge_ctl.py and what both ends agree on.
    \<^item> \<open>Radio_Config\<close>, \<open>Radio_Flash\<close>: radio/radio_config.c and radio/radio_provision_flash.c.
    \<^item> \<open>Device_Commands\<close>: the globals of bridge_main.c, the command handlers and \<open>command_process_frame\<close>; \<open>Device_Machine\<close>: boot
      and everything that can happen to the device afterwards, as one machine.
    \<^item> \<open>Ble_Transport\<close>: the command characteristic, the advertiser, and the fragments the client makes.
    \<^item> \<open>Usb_Hid\<close>: HID callbacks and \<open>usb_hid_drain\<close>; \<open>Usb_Descriptors\<close>: usb_descriptors.c and how a host reads it.
    \<^item> \<open>Net_Session\<close>, \<open>Net_Stream\<close>, \<open>Net_Endpoint\<close>: net_endpoint.c (TCP session, the byte stream between client and session, Wi-Fi
      state machine, listener, diagnostics, scan).
    \<^item> \<open>Main_Loop\<close>: \<open>main\<close>, \<open>ble_setup\<close> and the passes of the loop of bridge_main.c, which compose all of the above;
      \<open>Firmware_Invariant\<close>: the invariants of the components, together, over any number of passes.
    \<^item> \<open>Client_Session\<close>: the packets, the handshake and the commands of tools/pico_bridge_ctl.py over BLE, run against the passes of
      the loop, from the text the client has read to the keys the host sees.
    \<^item> \<open>Template_Keys\<close>: the key headers as they are checked in (noise_ik_keys.example.h, recovery_admin_public.h) and a boot with
      them; \<open>Radio_Provision\<close>: the sector image of tools/radio_provision.py and how the firmware reads it.
    \<^item> \<open>Idle_Main\<close>: idle_main.c, the bring-up image.
    \<^item> \<open>Http_Parser\<close>, \<open>Dhcp_Wire\<close>, \<open>Entropy_Fill\<close>: radio/http_parser.c, radio/dhcp_wire.c, radio/entropy_fill.c. They are
      linked into the images, but only the tests call them.

  \<^bold>\<open>How the code is modelled.\<close> A C structure is a record, an enumeration a datatype, an integer a word of its width
  (a \<open>size_t\<close> that only counts bytes of a buffer is a natural number). A function with out parameters returns a
  tuple, a null pointer is \<open>None\<close>, an error code or an early return is a branch. An array that is written by index is a list or,
  in the core, a function on the index; writes past its end are excluded by theorems or, in \<open>Net_Session\<close>, recorded in a
  field of the state. Flash is a map from offsets to bytes. Each component owns its globals; where several share one, \<open>Main_Loop\<close>
  puts the current value into the component that is called and takes it back.

  \<^bold>\<open>Parameters.\<close> Code that is not in the repository is an argument: the primitives of mbedTLS (\<open>noise_crypto\<close>, with
  the laws that decryption undoes encryption, that Diffie-Hellman commutes, and the lengths, where a theorem needs
  them), erasing and programming flash (with the laws of NOR flash), TinyUSB and the clock (\<open>usb_port\<close>), lwIP (\<open>lwip\<close>), the state and
  the answers of the Wi-Fi driver (\<open>cyw43\<close>, \<open>poll_env\<close>), and the events BTstack delivers.

  \<^bold>\<open>What the lemmas show.\<close>
    \<^item> End to end (\<open>Main_Loop\<close>, \<open>Device_Machine\<close>): every pass of the main loop returns, and every key report was commanded by two
      accepted frames of enrolled controllers; conversely (\<open>Client_Session\<close>) a text that an enrolled client sends and confirms is typed
      exactly by a device at rest with a host that is ready; the invariants of all components hold from any boot; only
      administrators change roster or flash; a revoked controller is locked out now and after a reboot; a receipt tells what
      happened. With the template keys one boot leaves a recovery administrator that no later image removes.
    \<^item> Core: staging computes its specification, reads and writes in bounds, and the keys determine the text; the core
      implements the protocol, stages no job twice and delivers a confirmed job in order.
    \<^item> Stores: encoding and decoding are inverse, a changed byte is noticed, a power failure in a commit leaves the old or the
      new store.
    \<^item> Noise: only enrolled keys open a session, counters are accepted once, both ends agree.
    \<^item> Transports: fragments and TCP segments deliver exactly the frames that were sent and the client reads back exactly
      the responses; the receive code computes a specification on the byte stream and stays in its arrays; without
      credentials the radio is not touched.
    \<^item> USB: the drain returns and types the pending keys in order; a host that reads the descriptors sees exactly these keys.
    \<^item> Parsers: the HTTP and DHCP readers accept exactly their grammars.

  \<^bold>\<open>Loops, fuel and bounds.\<close> Counted loops recurse on the iterations that are left or have a measure. The two loops of
  the drain depend on the clock and the port and are partial functions, \<open>None\<close> when they do not return; that they return is a
  theorem, from a clock that advances. No definition uses fuel. The bounds are those of the code: 2048 strokes for texts of 1024 bytes and 64 ledger entries
  in the core, five controllers, frames of 1102 bytes over BLE and 2044 over TCP, sectors of 4096 bytes, 576 bytes for
  DHCP and 1024 for HTTP.

  \<^bold>\<open>Not modelled.\<close>
    \<^item> Interrupts and the second core: a callback runs between two C statements of the loop only where the code polls
      for it (\<open>tud_task\<close>, \<open>async_context_poll\<close>). This is what the polling context of the network image does; an SDK variant that runs
      BTstack from an interrupt could also interrupt the drain, and such interleavings are outside the model.
    \<^item> Time that passes inside a function, so the timeouts of the watchdog; timing side channels.
    \<^item> The secrecy of the cryptography: the primitives are functions, their strength is not stated.
    \<^item> btstack_config.h, tusb_config.h, lwipopts.h and mbedtls_config_bridge.h, which configure libraries; the macro
      constants and prototypes that remain.
    \<^item> Of the Python tools: command lines, key files, generating keys and certificates, scanning for devices and process handling.
\<close>

end
